(* ===== verification/Prelude.thy ===== *)
theory Prelude
  imports Main "HOL-Library.Word"
begin

text \<open>
  Shared vocabulary of the development: the machine integer types of the C sources, the
  first-match scan that most fixed-size tables of the kernel are searched with, the
  little-endian views of byte buffers, and the generic facts on lists and words the
  component theories rely on.
\<close>

unbundle bit_operations_syntax

section \<open>Machine integers and buffers\<close>

type_synonym u8 = "8 word"
type_synonym u16 = "16 word"
type_synonym u32 = "32 word"
type_synonym u64 = "64 word"
type_synonym bytes = "8 word list"

abbreviation NUL :: char where
  "NUL \<equiv> CHR 0x00"

abbreviation cstr :: "string \<Rightarrow> string" where
  "cstr s \<equiv> s @ [NUL]"

definition c_content :: "string \<Rightarrow> string" where
  "c_content buf = takeWhile (\<lambda>c. c \<noteq> NUL) buf"

named_theorems table_simps \<open>facts on the first-match scan of a table\<close>
named_theorems le_simps \<open>facts on little-endian fields of byte buffers\<close>
named_theorems mem_simps \<open>facts on the byte-addressed store\<close>

section \<open>First-match scans\<close>

text \<open>
  \<open>for (i = 0; i < n; i++) if (P(a[i])) return i;\<close> over an array \<open>a\<close> of length \<open>n\<close>:
  the index of the first match, or none.
\<close>

primrec find_idx :: "('a \<Rightarrow> bool) \<Rightarrow> 'a list \<Rightarrow> nat option" where
  "find_idx P [] = None"
| "find_idx P (x # xs) = (if P x then Some 0 else map_option Suc (find_idx P xs))"

lemma find_idx_SomeD:
  "find_idx P xs = Some i \<Longrightarrow> i < length xs \<and> P (xs ! i) \<and> (\<forall>j<i. \<not> P (xs ! j))"
proof (induction xs arbitrary: i)
  case (Cons x xs)
  show ?case
  proof (cases "P x")
    case False
    with Cons.prems obtain k where k: "find_idx P xs = Some k" "i = Suc k"
      by auto
    with Cons.IH [OF k(1)] False show ?thesis
      by (auto simp: nth_Cons split: nat.splits)
  qed (use Cons.prems in simp)
qed simp

lemma find_idx_None_iff [table_simps]: "find_idx P xs = None \<longleftrightarrow> (\<forall>x \<in> set xs. \<not> P x)"
  by (induction xs) auto

lemma find_idx_Some_iff:
  "find_idx P xs = Some i \<longleftrightarrow> i < length xs \<and> P (xs ! i) \<and> (\<forall>j<i. \<not> P (xs ! j))"
proof
  assume r: "i < length xs \<and> P (xs ! i) \<and> (\<forall>j<i. \<not> P (xs ! j))"
  then have "find_idx P xs \<noteq> None"
    by (auto simp: find_idx_None_iff)
  then obtain k where k: "find_idx P xs = Some k"
    by auto
  with r have "k = i"
    using find_idx_SomeD [OF k] by (metis linorder_neqE_nat)
  with k show "find_idx P xs = Some i"
    by simp
qed (rule find_idx_SomeD)

lemma find_idx_SomeI:
  "i < length xs \<Longrightarrow> P (xs ! i) \<Longrightarrow> \<exists>k. find_idx P xs = Some k \<and> k \<le> i"
  by (metis find_idx_None_iff find_idx_SomeD linorder_not_le nth_mem option.exhaust)

lemma find_idx_cong:
  "length xs = length ys \<Longrightarrow> (\<And>i. i < length xs \<Longrightarrow> P (xs ! i) = Q (ys ! i)) \<Longrightarrow>
   find_idx P xs = find_idx Q ys"
proof (induction xs ys rule: list_induct2)
  case (Cons x xs y ys)
  have "P x = Q y"
    using Cons.prems [of 0] by simp
  moreover have "find_idx P xs = find_idx Q ys"
    by (rule Cons.IH) (use Cons.prems [of "Suc _"] in simp)
  ultimately show ?case
    by simp
qed simp

lemma length_filter_update:
  "i < length xs \<Longrightarrow>
   length (filter P (xs[i := y])) + (if P (xs ! i) then 1 else 0) =
   length (filter P xs) + (if P y then 1 else 0)"
proof (induction xs arbitrary: i)
  case (Cons x xs)
  then show ?case by (cases i) auto
qed simp

lemma find_idx_update_same:
  "P y = P (xs ! i) \<Longrightarrow> i < length xs \<Longrightarrow> find_idx P (xs[i := y]) = find_idx P xs"
  by (rule find_idx_cong) (auto simp: nth_list_update)

section \<open>Little-endian fields\<close>

text \<open>
  \<open>*(uint16_t*)p\<close> and \<open>*(uint32_t*)p\<close> on the little-endian target, for a pointer \<open>i\<close>
  bytes into a buffer, and the corresponding stores.
\<close>

definition get8 :: "bytes \<Rightarrow> nat \<Rightarrow> u8" where
  "get8 b i = (if i < length b then b ! i else 0)"

definition get16 :: "bytes \<Rightarrow> nat \<Rightarrow> u16" where
  "get16 b i = ucast (get8 b i) OR push_bit 8 (ucast (get8 b (i + 1)))"

definition get32 :: "bytes \<Rightarrow> nat \<Rightarrow> u32" where
  "get32 b i = ucast (get16 b i) OR push_bit 16 (ucast (get16 b (i + 2)))"

definition get64 :: "bytes \<Rightarrow> nat \<Rightarrow> u64" where
  "get64 b i = ucast (get32 b i) OR push_bit 32 (ucast (get32 b (i + 4)))"

definition put8 :: "nat \<Rightarrow> u8 \<Rightarrow> bytes \<Rightarrow> bytes" where
  "put8 i v b = b[i := v]"

definition put16 :: "nat \<Rightarrow> u16 \<Rightarrow> bytes \<Rightarrow> bytes" where
  "put16 i v b = put8 (i + 1) (ucast (drop_bit 8 v)) (put8 i (ucast v) b)"

definition put32 :: "nat \<Rightarrow> u32 \<Rightarrow> bytes \<Rightarrow> bytes" where
  "put32 i v b = put16 (i + 2) (ucast (drop_bit 16 v)) (put16 i (ucast v) b)"

text \<open>\<open>memcpy(p + i, src, n)\<close> with the whole of \<open>src\<close>.\<close>

definition put_bytes :: "nat \<Rightarrow> bytes \<Rightarrow> bytes \<Rightarrow> bytes" where
  "put_bytes i src b = take i b @ src @ drop (i + length src) b"

lemma length_put8 [simp]: "length (put8 i v b) = length b"
  by (simp add: put8_def)

lemma length_put16 [simp]: "length (put16 i v b) = length b"
  by (simp add: put16_def)

lemma length_put32 [simp]: "length (put32 i v b) = length b"
  by (simp add: put32_def)

lemma length_put_bytes [simp]:
  "i + length src \<le> length b \<Longrightarrow> length (put_bytes i src b) = length b"
  by (simp add: put_bytes_def)

lemma get8_put8 [le_simps]:
  "get8 (put8 i v b) j = (if i = j \<and> j < length b then v else get8 b j)"
  by (auto simp: get8_def put8_def)

lemma get8_put16 [le_simps]:
  "i + 1 < length b \<Longrightarrow> get8 (put16 i v b) j =
     (if j = i then ucast v else if j = i + 1 then ucast (drop_bit 8 v) else get8 b j)"
  by (auto simp: put16_def get8_put8)

lemma get8_put32 [le_simps]:
  "i + 3 < length b \<Longrightarrow> get8 (put32 i v b) j =
     (if j = i then ucast (ucast v :: u16)
      else if j = i + 1 then ucast (drop_bit 8 (ucast v :: u16))
      else if j = i + 2 then ucast (ucast (drop_bit 16 v) :: u16)
      else if j = i + 3 then ucast (drop_bit 8 (ucast (drop_bit 16 v) :: u16))
      else get8 b j)"
  by (auto simp: put32_def get8_put16)

lemma get8_put_bytes [le_simps]:
  "i + length src \<le> length b \<Longrightarrow> get8 (put_bytes i src b) j =
     (if i \<le> j \<and> j < i + length src then src ! (j - i) else get8 b j)"
  by (auto simp: get8_def put_bytes_def nth_append min_def)

lemma join8_16 [le_simps]:
  "ucast (ucast (v :: u16) :: u8) OR push_bit 8 (ucast (ucast (drop_bit 8 v) :: u8)) = v"
  by (rule bit_word_eqI) (auto simp: bit_simps)

lemma join16_32 [le_simps]:
  "ucast (ucast (v :: u32) :: u16) OR push_bit 16 (ucast (ucast (drop_bit 16 v) :: u16)) = v"
  by (rule bit_word_eqI) (auto simp: bit_simps)

lemma get16_put16_same [le_simps]: "i + 1 < length b \<Longrightarrow> get16 (put16 i v b) i = v"
  by (simp add: get16_def get8_put16 join8_16)

lemma get16_put16_other [le_simps]:
  "i + 1 < length b \<Longrightarrow> j + 2 \<le> i \<or> i + 2 \<le> j \<Longrightarrow> get16 (put16 i v b) j = get16 b j"
  by (auto simp: get16_def get8_put16)

lemma get32_put32_same [le_simps]: "i + 3 < length b \<Longrightarrow> get32 (put32 i v b) i = v"
  by (simp add: get32_def put32_def get16_put16_same get16_put16_other join16_32)

lemma get32_put32_other [le_simps]:
  "i + 3 < length b \<Longrightarrow> j + 4 \<le> i \<or> i + 4 \<le> j \<Longrightarrow> get32 (put32 i v b) j = get32 b j"
  by (auto simp: get32_def put32_def get16_put16_other)

section \<open>Lists\<close>

lemma all_less_upt: "(\<forall>n < k. P n) \<longleftrightarrow> list_all P [0..<k]" for P :: "nat \<Rightarrow> bool"
  by (auto simp: list_all_iff)

lemma takeWhile_until [simp]:
  "c \<notin> set xs \<Longrightarrow> takeWhile (\<lambda>x. x \<noteq> c) (xs @ c # ys) = xs"
  by (induction xs) auto

lemma c_content_cstr [simp]: "NUL \<notin> set s \<Longrightarrow> c_content (s @ NUL # r) = s"
  by (simp add: c_content_def)

lemma NUL_notin_c_content [simp]: "NUL \<notin> set (c_content b)"
  by (auto simp: c_content_def dest: set_takeWhileD)

lemma split_c_content: "NUL \<in> set b \<Longrightarrow> \<exists>r. b = c_content b @ NUL # r"
proof -
  assume "NUL \<in> set b"
  then obtain x y where b: "b = x @ NUL # y" and x: "NUL \<notin> set x"
    by (metis split_list_first)
  then show ?thesis
    by auto
qed

section \<open>Words\<close>

lemma unat_add_small:
  "unat a + unat b < 2 ^ LENGTH('a) \<Longrightarrow> unat (a + b) = unat a + unat (b :: 'a::len word)"
  by (simp add: unat_word_ariths)

lemma unat_of_nat_small:
  "n < 2 ^ LENGTH('a) \<Longrightarrow> unat (of_nat n :: 'a::len word) = n"
  by (simp add: unat_of_nat)

lemma unat_and_mask: "unat ((w :: 'a::len word) AND mask n) = unat w mod 2 ^ n"
proof -
  have "unat (take_bit n w) = take_bit n (unat w)"
    by (rule unsigned_take_bit_eq)
  then show ?thesis
    by (simp only: take_bit_eq_mask [symmetric]) (simp add: take_bit_eq_mod)
qed

lemma unat_and_mask_less: "unat ((w :: 'a::len word) AND mask n) < 2 ^ n"
  by (simp add: unat_and_mask)

lemma unat_and_not_mask: "unat (x AND NOT (mask k)) = unat x div 2 ^ k * 2 ^ k" for x :: "'a::len word"
proof -
  have "x AND NOT (mask k) = x - (x AND mask k)"
  proof -
    have "(x AND NOT (mask k)) + (x AND mask k) = (x AND NOT (mask k)) OR (x AND mask k)"
      by (rule disjunctive_add) (auto simp: bit_simps)
    also have "\<dots> = x"
      by (rule bit_word_eqI) (auto simp: bit_simps)
    finally show ?thesis
      by (metis add_diff_cancel_right')
  qed
  moreover have "x AND mask k \<le> x"
    by (rule word_and_le2)
  ultimately show ?thesis
    by (simp add: unat_sub unat_and_mask minus_mod_eq_div_mult)
qed
lemma of_nat_eq64: "x < 2 ^ 64 \<Longrightarrow> y < 2 ^ 64 \<Longrightarrow> (of_nat x = (of_nat y :: u64)) \<longleftrightarrow> x = y"
  by (auto simp: unat_of_nat_small dest: arg_cong [of _ _ unat])

lemma of_nat_le64: "x < 2 ^ 64 \<Longrightarrow> y < 2 ^ 64 \<Longrightarrow> (of_nat x \<le> (of_nat y :: u64)) \<longleftrightarrow> x \<le> y"
  by (simp add: word_le_nat_alt unat_of_nat_small)

lemma unat_page_align: "unat (x AND NOT 0xFFF) = unat x div 4096 * 4096" for x :: u64
proof -
  have "x AND NOT 0xFFF = x AND NOT (mask 12)"
    by (simp add: mask_eq_exp_minus_1)
  then have "unat (x AND NOT 0xFFF) = unat x div 2 ^ 12 * 2 ^ 12"
    by (simp only: unat_and_not_mask)
  then show ?thesis
    by simp
qed

lemma unat_inc_less: "i < m \<Longrightarrow> unat (i + 1) = Suc (unat i)" for i m :: "'a::len word"
proof -
  assume "i < m"
  then have "Suc (unat i) \<le> unat m"
    by (simp add: word_less_nat_alt Suc_leI)
  also have "unat m < 2 ^ LENGTH('a)"
    by (rule unsigned_less)
  finally show ?thesis
    by (simp add: unat_word_ariths)
qed

end
