(* ===== verification/CString.thy ===== *)
theory CString
  imports Prelude
begin

text \<open>
  The kernel's C library (\<open>kernel/lib/string.c\<close>). A buffer is the list of the bytes of an
  array; a read or write past its end, undefined behaviour in the source, is the value
  \<open>None\<close>. Each routine follows its loop byte by byte. The lemmas give the behaviour of
  each routine on NUL-terminated strings; \<open>strncpy\<close> turns out to write one byte more than
  its bound whenever it reaches the end of the source.
\<close>

section \<open>The routines\<close>

primrec strlen :: "string \<Rightarrow> nat option" where
  "strlen [] = None"
| "strlen (c # cs) = (if c = NUL then Some 0 else map_option Suc (strlen cs))"

fun strcmp :: "string \<Rightarrow> string \<Rightarrow> int option" where
  "strcmp (a # s1) (b # s2) =
     (if a \<noteq> NUL \<and> a = b then strcmp s1 s2
      else Some (int (of_char a) - int (of_char b)))"
| "strcmp _ _ = None"

fun strncmp :: "string \<Rightarrow> string \<Rightarrow> nat \<Rightarrow> int option" where
  "strncmp s1 s2 0 = Some 0"
| "strncmp (a # s1) (b # s2) (Suc n) =
     (if a \<noteq> NUL \<and> a = b then strncmp s1 s2 n
      else Some (int (of_char a) - int (of_char b)))"
| "strncmp _ _ (Suc n) = None"

fun strcpy :: "string \<Rightarrow> string \<Rightarrow> string option" where
  "strcpy (d # ds) (c # cs) =
     (if c = NUL then Some (NUL # ds) else map_option ((#) c) (strcpy ds cs))"
| "strcpy _ _ = None"

text \<open>\<open>while (n--) *dest++ = '\0';\<close>\<close>

fun strncpy_pad :: "string \<Rightarrow> nat \<Rightarrow> string option" where
  "strncpy_pad ds 0 = Some ds"
| "strncpy_pad [] (Suc n) = None"
| "strncpy_pad (d # ds) (Suc n) = map_option ((#) NUL) (strncpy_pad ds n)"

text \<open>
  \<open>while (n && (*dest++ = *src++)) n--;\<close> leaves the loop with \<open>n\<close> not yet decremented for
  the NUL it has just copied.
\<close>

fun strncpy :: "string \<Rightarrow> string \<Rightarrow> nat \<Rightarrow> string option" where
  "strncpy ds cs 0 = Some ds"
| "strncpy (d # ds) (c # cs) (Suc n) =
     (if c = NUL then map_option ((#) NUL) (strncpy_pad ds (Suc n))
      else map_option ((#) c) (strncpy ds cs n))"
| "strncpy _ _ (Suc n) = None"

fun strcat :: "string \<Rightarrow> string \<Rightarrow> string option" where
  "strcat [] cs = None"
| "strcat (d # ds) cs = (if d \<noteq> NUL then map_option ((#) d) (strcat ds cs) else strcpy (d # ds) cs)"

fun memset :: "'a list \<Rightarrow> 'a \<Rightarrow> nat \<Rightarrow> 'a list option" where
  "memset ds v 0 = Some ds"
| "memset [] v (Suc n) = None"
| "memset (d # ds) v (Suc n) = map_option ((#) v) (memset ds v n)"

fun memcpy :: "'a list \<Rightarrow> 'a list \<Rightarrow> nat \<Rightarrow> 'a list option" where
  "memcpy ds cs 0 = Some ds"
| "memcpy (d # ds) (c # cs) (Suc n) = map_option ((#) c) (memcpy ds cs n)"
| "memcpy _ _ (Suc n) = None"

section \<open>Behaviour\<close>

lemma strlen_cstr [simp]: "NUL \<notin> set s \<Longrightarrow> strlen (s @ NUL # r) = Some (length s)"
  by (induction s) auto

lemma strlen_None_iff: "strlen b = None \<longleftrightarrow> NUL \<notin> set b"
  by (induction b) auto

lemma strlen_content: "NUL \<in> set b \<Longrightarrow> strlen b = Some (length (c_content b))"
proof -
  assume "NUL \<in> set b"
  then obtain r where "b = c_content b @ NUL # r"
    using split_c_content by blast
  then show ?thesis
    by (metis NUL_notin_c_content strlen_cstr)
qed

lemma of_char_pos_iff [simp]: "(0 :: nat) < of_char c \<longleftrightarrow> c \<noteq> NUL"
proof -
  have "(of_char c :: nat) = of_char NUL \<longleftrightarrow> c = NUL"
    by (rule of_char_eq_iff)
  then show ?thesis
    by (auto intro: gr0I)
qed

lemma strcmp_total: "NUL \<in> set a \<Longrightarrow> NUL \<in> set b \<Longrightarrow> strcmp a b \<noteq> None"
  by (induction a b rule: strcmp.induct) auto

lemma strcmp_content:
  "NUL \<in> set a \<Longrightarrow> NUL \<in> set b \<Longrightarrow> strcmp a b = Some 0 \<longleftrightarrow> c_content a = c_content b"
  by (induction a b rule: strcmp.induct) (auto simp: c_content_def)

lemma strncmp_prefix:
  assumes "NUL \<notin> set p" "length p = n" "NUL \<in> set b"
  shows "strncmp b (p @ r) n = Some 0 \<longleftrightarrow> take n (c_content b) = p"
  using assms
proof (induction p arbitrary: n b)
  case (Cons c p)
  then obtain m x xs where mx: "n = Suc m" "b = x # xs"
    by (cases n; cases b) auto
  show ?case
  proof (cases "x = NUL")
    case True
    with Cons.prems mx show ?thesis
      by (auto simp: c_content_def)
  next
    case False
    with Cons.prems mx have "strncmp xs (p @ r) m = Some 0 \<longleftrightarrow> take m (c_content xs) = p"
      by (intro Cons.IH) auto
    with False mx show ?thesis
      by (auto simp: c_content_def)
  qed
qed simp

lemma strcpy_cstr:
  "NUL \<notin> set s \<Longrightarrow> length s < length d \<Longrightarrow>
   strcpy d (s @ NUL # r) = Some (s @ NUL # drop (Suc (length s)) d)"
proof (induction s arbitrary: d)
  case Nil
  then show ?case by (cases d) auto
next
  case (Cons c s)
  then obtain x d' where "d = x # d'"
    by (cases d) auto
  with Cons show ?case by auto
qed

lemma strcpy_overflow:
  "NUL \<notin> set s \<Longrightarrow> length d \<le> length s \<Longrightarrow> strcpy d (s @ NUL # r) = None"
proof (induction s arbitrary: d)
  case (Cons c s)
  then show ?case by (cases d) auto
qed simp

lemma strncpy_pad_eq:
  "strncpy_pad d n = (if n \<le> length d then Some (replicate n NUL @ drop n d) else None)"
  by (induction d n rule: strncpy_pad.induct) auto

lemma strcpy_length: "strcpy d s = Some d' \<Longrightarrow> length d' = length d"
  by (induction d s arbitrary: d' rule: strcpy.induct) (auto split: if_splits)

lemma strncpy_length: "strncpy d s n = Some d' \<Longrightarrow> length d' = length d"
  by (induction d s n arbitrary: d' rule: strncpy.induct) (auto simp: strncpy_pad_eq split: if_splits)

lemma strncpy_short:
  "NUL \<notin> set s \<Longrightarrow> length s < n \<Longrightarrow>
   strncpy d (s @ NUL # r) n =
     (if n < length d then Some (s @ replicate (Suc n - length s) NUL @ drop (Suc n) d) else None)"
proof (induction s arbitrary: d n)
  case Nil
  then show ?case
    by (cases d; cases n) (auto simp: strncpy_pad_eq replicate_append_same)
next
  case (Cons c s)
  then obtain m where m: "n = Suc m"
    by (cases n) auto
  with Cons show ?case
    by (cases d) (auto simp: Suc_diff_le)
qed

lemma strncpy_long:
  "NUL \<notin> set s \<Longrightarrow> n \<le> length s \<Longrightarrow> n \<le> length d \<Longrightarrow>
   strncpy d (s @ NUL # r) n = Some (take n s @ drop n d)"
proof (induction s arbitrary: d n)
  case (Cons c s)
  then show ?case
    by (cases d; cases n) auto
qed simp

lemma strcat_cstr:
  "NUL \<notin> set a \<Longrightarrow> NUL \<notin> set s \<Longrightarrow> length s \<le> length d \<Longrightarrow>
   strcat (a @ NUL # d) (s @ NUL # r) = Some (a @ s @ NUL # drop (length s) d)"
  by (induction a) (auto simp: strcpy_cstr)

lemma memset_eq:
  "memset d v n = (if n \<le> length d then Some (replicate n v @ drop n d) else None)"
  by (induction d v n rule: memset.induct) auto

lemma memcpy_eq:
  "memcpy d s n = (if n \<le> length d \<and> n \<le> length s then Some (take n s @ drop n d) else None)"
  by (induction d s n rule: memcpy.induct) auto

lemmas string_specs =
  strlen_content strcmp_content strcpy_cstr strncpy_short strncpy_long memset_eq memcpy_eq

section \<open>Properties\<close>

text \<open>C37. On NUL-terminated buffers \<open>strcmp\<close> never reads past the terminator and returns 0
  exactly when both hold the same string.\<close>
theorem strcmp_zero_iff:
  assumes "NUL \<in> set a" "NUL \<in> set b"
  shows "\<exists>r. strcmp a b = Some r \<and> (r = 0 \<longleftrightarrow> c_content a = c_content b)"
  using strcmp_total [OF assms] strcmp_content [OF assms] by fastforce

theorem strcmp_zero_iff_witness:
  "\<exists>r. strcmp (cstr ''ls'') (cstr ''lsx'') = Some r \<and>
       (r = 0 \<longleftrightarrow> c_content (cstr ''ls'') = c_content (cstr ''lsx''))"
  using strcmp_zero_iff [of "cstr ''ls''" "cstr ''lsx''"] by simp

text \<open>\<open>strncpy\<close> with a source shorter than \<open>n\<close> stores \<open>n + 1\<close> bytes (the copied NUL is not
  counted), so it overruns a destination of exactly \<open>n\<close> bytes; a destination of at least
  \<open>n + 1\<close> bytes receives the string padded with NULs.\<close>
lemma strncpy_overruns:
  assumes "NUL \<notin> set s" "length s < n"
  shows "(length d = n \<longrightarrow> strncpy d (cstr s) n = None) \<and>
    (n < length d \<longrightarrow>
      strncpy d (cstr s) n = Some (s @ replicate (n + 1 - length s) NUL @ drop (n + 1) d))"
  using strncpy_short [OF assms, of d "[]"] by simp

lemma strncpy_overruns_example:
  "strncpy (replicate 4 CHR ''x'') (cstr ''ab'') 4 = None"
  using strncpy_overruns [of "''ab''" 4 "replicate 4 CHR ''x''"] by simp

end
