(* ===== verification/Pmm.thy ===== *)
theory Pmm
  imports Prelude
begin

text \<open>
  The physical page frame allocator (\<open>kernel/memory/pmm.c\<close>): a bitmap with one bit per 4 KiB
  frame (set means used) and a running count of the free frames. The bitmap array is a
  function from byte index to byte; the E820 map that the boot loader leaves in memory and
  the linker symbols of the kernel image are arguments of \<open>pmm_init\<close>.

  The theory proves that the running count is always the number of clear bits, specifies
  every operation on the set of free frames, and states the allocator's contract as the
  locale \<open>frame_allocator\<close>, interpreted on these operations.
\<close>

unbundle bit_operations_syntax

section \<open>State and bitmap\<close>

definition PAGE_SIZE :: u64 where
  "PAGE_SIZE = 4096"

definition MAX_MEMORY :: u64 where
  "MAX_MEMORY = 4 * 1024 * 1024 * 1024"

definition MAX_PAGES :: nat where
  "MAX_PAGES = 1048576"

record pmm_state =
  page_bitmap :: "nat \<Rightarrow> u8"
  total_pages :: u64
  free_pages :: u64
  total_memory_bytes :: u64

record e820_entry =
  e820_base :: u64
  e820_length :: u64
  e820_type :: u32
  e820_acpi_ext :: u32

definition E820_USABLE :: u32 where
  "E820_USABLE = 1"

definition bitmap_set :: "nat \<Rightarrow> pmm_state \<Rightarrow> pmm_state" where
  "bitmap_set page s = s\<lparr>page_bitmap := (page_bitmap s)
     (page div 8 := page_bitmap s (page div 8) OR push_bit (page mod 8) 1)\<rparr>"

definition bitmap_clear :: "nat \<Rightarrow> pmm_state \<Rightarrow> pmm_state" where
  "bitmap_clear page s = s\<lparr>page_bitmap := (page_bitmap s)
     (page div 8 := page_bitmap s (page div 8) AND NOT (push_bit (page mod 8) 1))\<rparr>"

definition bitmap_test :: "pmm_state \<Rightarrow> nat \<Rightarrow> bool" where
  "bitmap_test s page \<longleftrightarrow> drop_bit (page mod 8) (page_bitmap s (page div 8)) AND 1 \<noteq> 0"

section \<open>Marking regions\<close>

function mark_used_loop :: "nat \<Rightarrow> nat \<Rightarrow> pmm_state \<Rightarrow> pmm_state" where
  "mark_used_loop p end_page s =
     (if p < end_page then
        mark_used_loop (Suc p) end_page
          (if \<not> bitmap_test s p then
             (let s1 = bitmap_set p s in
              if free_pages s1 > 0 then s1\<lparr>free_pages := free_pages s1 - 1\<rparr> else s1)
           else s)
      else s)"
  by pat_completeness auto
termination
  by (relation "measure (\<lambda>(p, e, s). e - p)") auto

definition mark_region_used :: "u64 \<Rightarrow> u64 \<Rightarrow> pmm_state \<Rightarrow> pmm_state" where
  "mark_region_used base len s =
     (let start_page = unat (base div PAGE_SIZE);
          end_page = unat ((base + len + PAGE_SIZE - 1) div PAGE_SIZE);
          end_page = (if end_page > MAX_PAGES then MAX_PAGES else end_page)
      in mark_used_loop start_page end_page s)"

function mark_free_loop :: "nat \<Rightarrow> nat \<Rightarrow> pmm_state \<Rightarrow> pmm_state" where
  "mark_free_loop p end_page s =
     (if p < end_page then
        mark_free_loop (Suc p) end_page
          (if bitmap_test s p then
             (let s1 = bitmap_clear p s in s1\<lparr>free_pages := free_pages s1 + 1\<rparr>)
           else s)
      else s)"
  by pat_completeness auto
termination
  by (relation "measure (\<lambda>(p, e, s). e - p)") auto

definition mark_region_free :: "u64 \<Rightarrow> u64 \<Rightarrow> pmm_state \<Rightarrow> pmm_state" where
  "mark_region_free base len s =
     (let start_page = unat (base div PAGE_SIZE);
          end_page = unat ((base + len) div PAGE_SIZE);
          end_page = (if end_page > MAX_PAGES then MAX_PAGES else end_page)
      in mark_free_loop start_page end_page s)"

declare mark_used_loop.simps [simp del] mark_free_loop.simps [simp del]

section \<open>Initialisation, allocation, release\<close>

definition e820_step :: "e820_entry \<Rightarrow> pmm_state \<Rightarrow> pmm_state" where
  "e820_step e s =
     (let base = e820_base e; len = e820_length e; end = base + len;
          s1 = (if end > total_memory_bytes s then s\<lparr>total_memory_bytes := end\<rparr> else s)
      in if e820_type e = E820_USABLE \<and> base < MAX_MEMORY then
           mark_region_free base (if end > MAX_MEMORY then MAX_MEMORY - base else len) s1
         else s1)"

definition pmm_init :: "u16 \<Rightarrow> (nat \<Rightarrow> e820_entry) \<Rightarrow> u64 \<Rightarrow> u64 \<Rightarrow> pmm_state \<Rightarrow> pmm_state" where
  "pmm_init e820_count entries kstart kend s =
     (let s0 = s\<lparr>page_bitmap := (\<lambda>i. if i < MAX_PAGES div 8 then 0xFF else page_bitmap s i),
                 free_pages := 0, total_pages := 0, total_memory_bytes := 0\<rparr>;
          s1 = (if e820_count = 0 \<or> e820_count > 128 then
                  mark_region_free 0x100000 (31 * 1024 * 1024)
                    (s0\<lparr>total_memory_bytes := 32 * 1024 * 1024,
                        total_pages := 32 * 1024 * 1024 div PAGE_SIZE\<rparr>)
                else
                  (let t = fold (\<lambda>i. e820_step (entries i)) [0..<unat e820_count] s0;
                       tp = total_memory_bytes t div PAGE_SIZE
                   in t\<lparr>total_pages := (if tp > of_nat MAX_PAGES then of_nat MAX_PAGES else tp)\<rparr>));
          s2 = mark_region_used 0 0x100000 s1
      in mark_region_used kstart (kend - kstart) s2)"

definition pmm_mark_region_used :: "u64 \<Rightarrow> u64 \<Rightarrow> pmm_state \<Rightarrow> pmm_state" where
  "pmm_mark_region_used base len s = mark_region_used base len s"

function pmm_alloc_loop :: "nat \<Rightarrow> pmm_state \<Rightarrow> u64 \<times> pmm_state" where
  "pmm_alloc_loop i s =
     (if i < MAX_PAGES then
        (if \<not> bitmap_test s i then
           (let s1 = bitmap_set i s in
            (of_nat i * PAGE_SIZE, s1\<lparr>free_pages := free_pages s1 - 1\<rparr>))
         else pmm_alloc_loop (Suc i) s)
      else (0, s))"
  by pat_completeness auto
termination
  by (relation "measure (\<lambda>(i, s). MAX_PAGES - i)") auto

declare pmm_alloc_loop.simps [simp del]

definition pmm_alloc_page :: "pmm_state \<Rightarrow> u64 \<times> pmm_state" where
  "pmm_alloc_page s = pmm_alloc_loop (unat (0x100000 div PAGE_SIZE)) s"

definition pmm_free_page :: "u64 \<Rightarrow> pmm_state \<Rightarrow> pmm_state" where
  "pmm_free_page addr s =
     (let page = unat (addr div PAGE_SIZE) in
      if page \<ge> MAX_PAGES then s
      else if bitmap_test s page then
        (let s1 = bitmap_clear page s in s1\<lparr>free_pages := free_pages s1 + 1\<rparr>)
      else s)"

definition pmm_get_total_pages :: "pmm_state \<Rightarrow> u64" where
  "pmm_get_total_pages s = total_pages s"

definition pmm_get_free_pages :: "pmm_state \<Rightarrow> u64" where
  "pmm_get_free_pages s = free_pages s"

definition pmm_get_total_memory :: "pmm_state \<Rightarrow> u64" where
  "pmm_get_total_memory s = total_memory_bytes s"

section \<open>The set of free frames\<close>

definition free_set :: "pmm_state \<Rightarrow> nat set" where
  "free_set s = {p. p < MAX_PAGES \<and> \<not> bitmap_test s p}"

definition pmm_inv :: "pmm_state \<Rightarrow> bool" where
  "pmm_inv s \<longleftrightarrow> unat (free_pages s) = card (free_set s)"

lemma bitmap_test_bit: "bitmap_test s p \<longleftrightarrow> bit (page_bitmap s (p div 8)) (p mod 8)"
proof -
  have "drop_bit (p mod 8) b AND 1 \<noteq> 0 \<longleftrightarrow> bit b (p mod 8)" for b :: u8
    by (simp add: and_one_eq mod_2_eq_odd bit_iff_odd_drop_bit)
  then show ?thesis
    by (simp add: bitmap_test_def)
qed

lemma page_split: "p div 8 = q div 8 \<Longrightarrow> p mod 8 = q mod 8 \<Longrightarrow> p = (q :: nat)"
  by (metis div_mult_mod_eq)

lemma bitmap_test_set [simp]: "bitmap_test (bitmap_set q s) p \<longleftrightarrow> p = q \<or> bitmap_test s p"
  by (auto simp: bitmap_test_bit bitmap_set_def bit_simps dest: page_split)

lemma bitmap_test_clear [simp]: "bitmap_test (bitmap_clear q s) p \<longleftrightarrow> p \<noteq> q \<and> bitmap_test s p"
  by (auto simp: bitmap_test_bit bitmap_clear_def bit_simps dest: page_split)

lemma bitmap_test_upd [simp]:
  "bitmap_test (s\<lparr>free_pages := x\<rparr>) p = bitmap_test s p"
  "bitmap_test (s\<lparr>total_pages := y\<rparr>) p = bitmap_test s p"
  "bitmap_test (s\<lparr>total_memory_bytes := z\<rparr>) p = bitmap_test s p"
  by (simp_all add: bitmap_test_def)

lemma free_set_simps [simp]:
  "free_set (s\<lparr>free_pages := x\<rparr>) = free_set s"
  "free_set (s\<lparr>total_pages := y\<rparr>) = free_set s"
  "free_set (s\<lparr>total_memory_bytes := z\<rparr>) = free_set s"
  "free_set (bitmap_set p s) = free_set s - {p}"
  "p < MAX_PAGES \<Longrightarrow> free_set (bitmap_clear p s) = insert p (free_set s)"
  by (auto simp: free_set_def)

lemma free_set_member: "p < MAX_PAGES \<Longrightarrow> p \<in> free_set s \<longleftrightarrow> \<not> bitmap_test s p"
  by (simp add: free_set_def)

lemma counter_frame [simp]:
  "free_pages (bitmap_set p s) = free_pages s"
  "free_pages (bitmap_clear p s) = free_pages s"
  by (simp_all add: bitmap_set_def bitmap_clear_def)

lemma finite_free_set [simp]: "finite (free_set s)"
  by (simp add: free_set_def)

lemma card_free_set_le: "card (free_set s) \<le> MAX_PAGES"
proof -
  have "free_set s \<subseteq> {..<MAX_PAGES}"
    by (auto simp: free_set_def)
  then show ?thesis
    by (metis card_lessThan card_mono finite_lessThan)
qed

section \<open>Single steps on the counter and the set\<close>

lemma take_one:
  assumes "pmm_inv s" "p \<in> free_set s"
  shows "free_pages s > 0" "pmm_inv (bitmap_set p s\<lparr>free_pages := free_pages s - 1\<rparr>)"
proof -
  have c: "card (free_set s - {p}) = unat (free_pages s) - 1" "unat (free_pages s) > 0"
    using assms by (auto simp: pmm_inv_def card_gt_0_iff)
  then show gt: "free_pages s > 0"
    by (simp add: word_less_nat_alt)
  then have "unat (free_pages s - 1) = unat (free_pages s) - 1"
    by (simp add: unat_minus_one word_gt_0)
  with c show "pmm_inv (bitmap_set p s\<lparr>free_pages := free_pages s - 1\<rparr>)"
    by (simp add: pmm_inv_def)
qed

lemma give_one:
  assumes "pmm_inv s" "p < MAX_PAGES" "p \<notin> free_set s"
  shows "pmm_inv (bitmap_clear p s\<lparr>free_pages := free_pages s + 1\<rparr>)"
proof -
  have "card (insert p (free_set s)) \<le> MAX_PAGES"
    using card_free_set_le [of "bitmap_clear p s"] assms(2) by simp
  then have "unat (free_pages s) + 1 < 2 ^ 64"
    using assms by (simp add: pmm_inv_def MAX_PAGES_def)
  then have "unat (free_pages s + 1) = Suc (unat (free_pages s))"
    by (simp add: unat_word_ariths)
  with assms show ?thesis
    by (simp add: pmm_inv_def)
qed

section \<open>Regions\<close>

definition mark_used_frame :: "nat \<Rightarrow> pmm_state \<Rightarrow> pmm_state" where
  "mark_used_frame p s =
     (if \<not> bitmap_test s p then
        (let s1 = bitmap_set p s in
         if free_pages s1 > 0 then s1\<lparr>free_pages := free_pages s1 - 1\<rparr> else s1)
      else s)"

definition mark_free_frame :: "nat \<Rightarrow> pmm_state \<Rightarrow> pmm_state" where
  "mark_free_frame p s =
     (if bitmap_test s p then
        (let s1 = bitmap_clear p s in s1\<lparr>free_pages := free_pages s1 + 1\<rparr>)
      else s)"

lemma mark_used_frame_spec:
  assumes "pmm_inv s" "p < MAX_PAGES"
  shows "pmm_inv (mark_used_frame p s)" "free_set (mark_used_frame p s) = free_set s - {p}"
  using assms take_one [of s p] by (simp_all add: mark_used_frame_def Let_def free_set_member)

lemma mark_free_frame_spec:
  assumes "pmm_inv s" "p < MAX_PAGES"
  shows "pmm_inv (mark_free_frame p s)" "free_set (mark_free_frame p s) = insert p (free_set s)"
  using assms give_one [of s p]
  by (simp_all add: mark_free_frame_def Let_def free_set_member insert_absorb)

lemma mark_loop_fold:
  "mark_used_loop p e s = fold mark_used_frame [p..<e] s"
  "mark_free_loop p e s = fold mark_free_frame [p..<e] s"
proof (induction "e - p" arbitrary: p s)
  case 0
  {
    case 1
    with 0 show ?case by (simp add: mark_used_loop.simps [of p])
  next
    case 2
    with 0 show ?case by (simp add: mark_free_loop.simps [of p])
  }
next
  case (Suc n)
  then have n: "n = e - Suc p" and up: "[p..<e] = p # [Suc p..<e]" "p < e"
    by (simp_all add: upt_conv_Cons)
  {
    case 1
    from up Suc.hyps(1) [OF n] show ?case
      by (simp add: mark_used_loop.simps [of p] mark_used_frame_def)
  next
    case 2
    from up Suc.hyps(2) [OF n] show ?case
      by (simp add: mark_free_loop.simps [of p] mark_free_frame_def)
  }
qed

lemma mark_used_fold_spec:
  "pmm_inv s \<Longrightarrow> \<forall>p \<in> set ps. p < MAX_PAGES \<Longrightarrow>
   pmm_inv (fold mark_used_frame ps s) \<and> free_set (fold mark_used_frame ps s) = free_set s - set ps"
  by (induction ps arbitrary: s) (simp_all add: mark_used_frame_spec, blast)

lemma mark_free_fold_spec:
  "pmm_inv s \<Longrightarrow> \<forall>p \<in> set ps. p < MAX_PAGES \<Longrightarrow>
   pmm_inv (fold mark_free_frame ps s) \<and> free_set (fold mark_free_frame ps s) = free_set s \<union> set ps"
  by (induction ps arbitrary: s) (simp_all add: mark_free_frame_spec)

lemma mark_loop_spec:
  assumes "pmm_inv s" "e \<le> MAX_PAGES"
  shows "pmm_inv (mark_used_loop p e s)" "free_set (mark_used_loop p e s) = free_set s - {p..<e}"
    "pmm_inv (mark_free_loop p e s)" "free_set (mark_free_loop p e s) = free_set s \<union> {p..<e}"
  using assms mark_used_fold_spec [of s "[p..<e]"] mark_free_fold_spec [of s "[p..<e]"]
  by (simp_all add: mark_loop_fold)

definition used_frames :: "u64 \<Rightarrow> u64 \<Rightarrow> nat set" where
  "used_frames base len =
     {unat (base div PAGE_SIZE) ..< min MAX_PAGES (unat ((base + len + PAGE_SIZE - 1) div PAGE_SIZE))}"

definition region_frames :: "u64 \<Rightarrow> u64 \<Rightarrow> nat set" where
  "region_frames base len =
     {unat (base div PAGE_SIZE) ..< min MAX_PAGES (unat ((base + len) div PAGE_SIZE))}"

lemma mark_region_used_spec:
  "pmm_inv s \<Longrightarrow> pmm_inv (mark_region_used base len s)"
  "pmm_inv s \<Longrightarrow> free_set (mark_region_used base len s) = free_set s - used_frames base len"
  by (auto simp: mark_region_used_def used_frames_def Let_def min_def mark_loop_spec)

lemma mark_region_free_spec:
  "pmm_inv s \<Longrightarrow> pmm_inv (mark_region_free base len s)"
  "pmm_inv s \<Longrightarrow> free_set (mark_region_free base len s) = free_set s \<union> region_frames base len"
  by (auto simp: mark_region_free_def region_frames_def Let_def min_def mark_loop_spec)

lemmas region_specs = mark_region_used_spec mark_region_free_spec

section \<open>Allocation and release\<close>

definition frame_no :: "u64 \<Rightarrow> nat" where
  "frame_no a = unat (a div PAGE_SIZE)"

lemma unat_frame_addr: "p < MAX_PAGES \<Longrightarrow> unat (of_nat p * PAGE_SIZE) = p * 4096"
  by (simp add: PAGE_SIZE_def MAX_PAGES_def unat_word_ariths unat_of_nat)

lemma frame_no_addr [simp]: "p < MAX_PAGES \<Longrightarrow> frame_no (of_nat p * PAGE_SIZE) = p"
  using unat_frame_addr [of p] by (simp add: frame_no_def PAGE_SIZE_def unat_div)

lemma frame_addr_nonzero: "p < MAX_PAGES \<Longrightarrow> 0 < p \<Longrightarrow> of_nat p * PAGE_SIZE \<noteq> 0"
  using unat_frame_addr [of p] by (metis mult_is_0 nat_neq_iff unat_0 zero_neq_numeral)

lemma alloc_loop_cases:
  "pmm_alloc_loop i s = (a, s') \<Longrightarrow>
   (a = 0 \<and> s' = s \<and> free_set s \<inter> {i..} = {}) \<or>
   (\<exists>p. i \<le> p \<and> p \<in> free_set s \<and> (\<forall>q \<in> free_set s. i \<le> q \<longrightarrow> p \<le> q) \<and>
        a = of_nat p * PAGE_SIZE \<and> s' = bitmap_set p s\<lparr>free_pages := free_pages s - 1\<rparr>)"
proof (induction i s rule: pmm_alloc_loop.induct)
  case (1 i s)
  consider (stop) "\<not> i < MAX_PAGES" | (hit) "i < MAX_PAGES" "\<not> bitmap_test s i"
    | (next_frame) "i < MAX_PAGES" "bitmap_test s i"
    by blast
  then show ?case
  proof cases
    case stop
    with "1.prems" show ?thesis
      by (auto simp: pmm_alloc_loop.simps free_set_def)
  next
    case hit
    with "1.prems" show ?thesis
      by (auto simp: pmm_alloc_loop.simps [of i s] free_set_member Let_def)
  next
    case next_frame
    then have "pmm_alloc_loop (Suc i) s = (a, s')"
      using "1.prems" by (simp add: pmm_alloc_loop.simps [of i s])
    moreover have "i \<notin> free_set s"
      using next_frame by (simp add: free_set_def)
    then have "q \<in> free_set s \<Longrightarrow> i \<le> q \<longleftrightarrow> Suc i \<le> q" for q
      using le_eq_less_or_eq by auto
    ultimately show ?thesis
      using "1.IH" next_frame by (auto simp: disjoint_iff)
  qed
qed

lemma pmm_alloc_page_cases:
  assumes "pmm_alloc_page s = (a, s')"
  obtains (none) "a = 0" "s' = s" "free_set s \<inter> {256..} = {}"
  | (some) p where "256 \<le> p" "p \<in> free_set s" "\<forall>q \<in> free_set s. 256 \<le> q \<longrightarrow> p \<le> q"
      "a = of_nat p * PAGE_SIZE" "s' = bitmap_set p s\<lparr>free_pages := free_pages s - 1\<rparr>"
  using assms alloc_loop_cases [of 256 s a s'] that
  by (auto simp: pmm_alloc_page_def PAGE_SIZE_def)

lemma pmm_alloc_page_SomeD:
  assumes "pmm_alloc_page s = (a, s')" "a \<noteq> 0"
  shows "frame_no a \<in> free_set s" "256 \<le> frame_no a" "a = of_nat (frame_no a) * PAGE_SIZE"
    "free_set s' = free_set s - {frame_no a}"
    "pmm_inv s \<Longrightarrow> pmm_inv s'"
    "\<forall>q \<in> free_set s. 256 \<le> q \<longrightarrow> frame_no a \<le> q"
proof -
  from assms(1) show "frame_no a \<in> free_set s" "256 \<le> frame_no a"
    "a = of_nat (frame_no a) * PAGE_SIZE" "free_set s' = free_set s - {frame_no a}"
    "pmm_inv s \<Longrightarrow> pmm_inv s'" "\<forall>q \<in> free_set s. 256 \<le> q \<longrightarrow> frame_no a \<le> q"
    by (cases rule: pmm_alloc_page_cases, use assms(2) take_one in \<open>auto simp: free_set_def\<close>)+
qed

lemma pmm_alloc_page_zero_iff:
  "fst (pmm_alloc_page s) = 0 \<longleftrightarrow> free_set s \<inter> {256..} = {}"
proof -
  obtain a s' where r: "pmm_alloc_page s = (a, s')"
    by (cases "pmm_alloc_page s")
  then show ?thesis
  proof (cases rule: pmm_alloc_page_cases)
    case (some p)
    then have "p < MAX_PAGES"
      by (simp add: free_set_def)
    with some r frame_addr_nonzero [of p] show ?thesis
      by auto
  qed (use r in simp)
qed

lemma pmm_free_page_spec:
  "pmm_inv s \<Longrightarrow> pmm_inv (pmm_free_page a s)"
  "free_set (pmm_free_page a s) =
     (if frame_no a < MAX_PAGES then insert (frame_no a) (free_set s) else free_set s)"
  using give_one [of s "frame_no a"]
  by (auto simp: pmm_free_page_def frame_no_def Let_def free_set_member free_set_def)

section \<open>The contract of the allocator\<close>

locale frame_allocator =
  fixes alloc :: "'s \<Rightarrow> u64 \<times> 's"
    and release :: "u64 \<Rightarrow> 's \<Rightarrow> 's"
    and avail :: "'s \<Rightarrow> nat set"
    and ok :: "'s \<Rightarrow> bool"
  assumes alloc_ok: "ok s \<Longrightarrow> alloc s = (a, s') \<Longrightarrow> ok s'"
    and alloc_none: "alloc s = (0, s') \<Longrightarrow> s' = s"
    and alloc_some: "alloc s = (a, s') \<Longrightarrow> a \<noteq> 0 \<Longrightarrow>
      frame_no a \<in> avail s \<and> avail s' = avail s - {frame_no a} \<and>
      a = of_nat (frame_no a) * PAGE_SIZE"
    and release_ok: "ok s \<Longrightarrow> ok (release a s)"
    and release_avail: "frame_no a < MAX_PAGES \<Longrightarrow> avail (release a s) = insert (frame_no a) (avail s)"
    and avail_bound: "avail s \<subseteq> {..<MAX_PAGES}"
begin

fun alloc_many :: "nat \<Rightarrow> 's \<Rightarrow> u64 list \<times> 's" where
  "alloc_many 0 s = ([], s)"
| "alloc_many (Suc n) s =
     (case alloc s of (a, s1) \<Rightarrow>
       if a = 0 then ([], s1)
       else case alloc_many n s1 of (as, s2) \<Rightarrow> (a # as, s2))"

lemma alloc_subset: "alloc s = (a, s') \<Longrightarrow> avail s' \<subseteq> avail s"
  using alloc_none alloc_some by (cases "a = 0") auto

lemma alloc_many_frames:
  "alloc_many n s = (as, s') \<Longrightarrow>
   distinct (map frame_no as) \<and> set (map frame_no as) \<subseteq> avail s \<and>
   avail s' = avail s - set (map frame_no as)"
proof (induction n arbitrary: s as s')
  case (Suc n)
  obtain a s1 where a: "alloc s = (a, s1)"
    by (cases "alloc s")
  show ?case
  proof (cases "a = 0")
    case True
    with Suc.prems a alloc_none show ?thesis
      by auto
  next
    case False
    obtain as1 s2 where r: "alloc_many n s1 = (as1, s2)"
      by (cases "alloc_many n s1")
    have "frame_no a \<in> avail s" "avail s1 = avail s - {frame_no a}"
      using alloc_some [OF a False] by blast+
    moreover have "as = a # as1" "s' = s2"
      using Suc.prems a False r by simp_all
    ultimately show ?thesis
      using Suc.IH [OF r] by auto
  qed
qed simp

lemma alloc_many_distinct: "alloc_many n s = (as, s') \<Longrightarrow> distinct as"
  using alloc_many_frames distinct_map by blast

lemma alloc_release:
  "alloc s = (a, s') \<Longrightarrow> a \<noteq> 0 \<Longrightarrow> avail (release a s') = avail s"
  using alloc_some avail_bound release_avail by fastforce

end

interpretation pmm: frame_allocator pmm_alloc_page pmm_free_page free_set pmm_inv
proof
  show "pmm_inv s' " if "pmm_inv s" "pmm_alloc_page s = (a, s')" for s a s'
    using that(2) by (cases rule: pmm_alloc_page_cases) (use that(1) take_one in auto)
  show "s' = s" if "pmm_alloc_page s = (0, s')" for s s'
    using that by (cases rule: pmm_alloc_page_cases)
      (auto simp: free_set_def dest!: frame_addr_nonzero)
  show "free_set s \<subseteq> {..<MAX_PAGES}" for s
    by (auto simp: free_set_def)
qed (use pmm_alloc_page_SomeD pmm_free_page_spec in auto)

section \<open>Initialisation\<close>

definition e820_frames :: "e820_entry \<Rightarrow> nat set" where
  "e820_frames e =
     (if e820_type e = E820_USABLE \<and> e820_base e < MAX_MEMORY then
        region_frames (e820_base e)
          (if e820_base e + e820_length e > MAX_MEMORY then MAX_MEMORY - e820_base e else e820_length e)
      else {})"

lemma pmm_inv_upd [simp]:
  "pmm_inv (s\<lparr>total_pages := y\<rparr>) = pmm_inv s"
  "pmm_inv (s\<lparr>total_memory_bytes := z\<rparr>) = pmm_inv s"
  by (simp_all add: pmm_inv_def)

lemma e820_step_spec:
  assumes "pmm_inv s"
  shows "pmm_inv (e820_step e s)" "free_set (e820_step e s) = free_set s \<union> e820_frames e"
  using assms by (simp_all add: e820_step_def e820_frames_def Let_def region_specs)

lemma e820_fold_spec:
  "pmm_inv s \<Longrightarrow> pmm_inv (fold (\<lambda>i. e820_step (entries i)) is s) \<and>
   free_set (fold (\<lambda>i. e820_step (entries i)) is s) = free_set s \<union> (\<Union>i \<in> set is. e820_frames (entries i))"
  by (induction "is" arbitrary: s) (auto simp: e820_step_spec)

lemma bit_FF: "bit (0xFF :: u8) (p mod 8)"
proof -
  have "(0xFF :: u8) = mask 8"
    by (simp add: mask_eq_exp_minus_1)
  then show ?thesis
    by (simp only: bit_mask_iff) simp
qed

lemma all_used:
  assumes "\<And>i. i < MAX_PAGES div 8 \<Longrightarrow> page_bitmap s i = 0xFF" "free_pages s = 0"
  shows "free_set s = {}" "pmm_inv s"
proof -
  show "free_set s = {}" "pmm_inv s"
    using assms bit_FF by (auto simp: free_set_def pmm_inv_def bitmap_test_bit MAX_PAGES_def)
qed

definition boot_frames :: "u16 \<Rightarrow> (nat \<Rightarrow> e820_entry) \<Rightarrow> nat set" where
  "boot_frames e820_count entries =
     (if e820_count = 0 \<or> e820_count > 128 then region_frames 0x100000 (31 * 1024 * 1024)
      else (\<Union>i < unat e820_count. e820_frames (entries i)))"

lemma pmm_init_spec:
  shows "pmm_inv (pmm_init e820_count entries kstart kend s)" (is ?inv)
    and "free_set (pmm_init e820_count entries kstart kend s) =
      boot_frames e820_count entries - used_frames 0 0x100000 - used_frames kstart (kend - kstart)"
      (is ?set)
proof -
  let ?s0 = "s\<lparr>page_bitmap := (\<lambda>i. if i < MAX_PAGES div 8 then 0xFF else page_bitmap s i),
                free_pages := 0, total_pages := 0, total_memory_bytes := 0\<rparr>"
  have s0: "free_set ?s0 = {}" "pmm_inv ?s0"
    by (rule all_used; simp)+
  show ?inv ?set
    using e820_fold_spec [OF s0(2), of entries "[0..<unat e820_count]"] s0
    by (simp_all add: pmm_init_def boot_frames_def Let_def region_specs atLeast0LessThan)
qed

lemma low_frames: "used_frames 0 0x100000 = {..<256}"
  by (auto simp: used_frames_def PAGE_SIZE_def MAX_PAGES_def)

lemma used_frames_cover:
  assumes "kstart \<le> kend" "unat kend + 4095 < 2 ^ 64" "p < MAX_PAGES"
    and "p \<notin> used_frames kstart (kend - kstart)"
  shows "4096 * p + 4096 \<le> unat kstart \<or> unat kend \<le> 4096 * p"
proof -
  have "unat (kend + PAGE_SIZE - 1) = unat kend + 4095"
  proof -
    have "kend + PAGE_SIZE - 1 = kend + 4095"
      by (simp add: PAGE_SIZE_def)
    then show ?thesis
      using assms(2) by (simp only:) (simp add: unat_word_ariths)
  qed
  then have "p < unat kstart div 4096 \<or> (unat kend + 4095) div 4096 \<le> p"
    using assms(3,4) by (auto simp: used_frames_def unat_div PAGE_SIZE_def)
  then show ?thesis
    by (auto simp: less_eq_div_iff_mult_less_eq div_less_iff_less_mult) 
qed

lemma region_frames_bound:
  assumes "unat base + unat len < 2 ^ 64" "p \<in> region_frames base len"
  shows "unat base div 4096 \<le> p" "4096 * p + 4096 \<le> unat base + unat len"
proof -
  have u: "unat (base + len) = unat base + unat len"
    using assms(1) by (simp add: unat_word_ariths)
  then show "unat base div 4096 \<le> p"
    using assms(2) by (simp add: region_frames_def unat_div PAGE_SIZE_def)
  have "p < (unat base + unat len) div 4096"
    using assms(2) u by (simp add: region_frames_def unat_div PAGE_SIZE_def)
  then show "4096 * p + 4096 \<le> unat base + unat len"
    by linarith
qed

lemma e820_frames_bound:
  assumes "unat (e820_base e) + unat (e820_length e) < 2 ^ 64" "p \<in> e820_frames e"
  shows "e820_type e = E820_USABLE" "unat (e820_base e) div 4096 \<le> p"
    "4096 * p + 4096 \<le> unat (e820_base e) + unat (e820_length e)"
proof -
  let ?b = "e820_base e" and ?l = "e820_length e"
  let ?n = "if ?b + ?l > MAX_MEMORY then MAX_MEMORY - ?b else ?l"
  have e: "e820_type e = E820_USABLE" "?b < MAX_MEMORY" "p \<in> region_frames ?b ?n"
    using assms(2) by (auto simp: e820_frames_def split: if_splits)
  have "unat ?n \<le> unat ?l" "unat ?b + unat ?n < 2 ^ 64"
    using assms(1) e(2)
    by (auto simp: word_less_nat_alt unat_sub_if' unat_word_ariths MAX_MEMORY_def)
  with region_frames_bound [OF _ e(3)] e(1)
  show "e820_type e = E820_USABLE" "unat ?b div 4096 \<le> p" "4096 * p + 4096 \<le> unat ?b + unat ?l"
    by auto
qed

section \<open>Properties\<close>

text \<open>C15. \<open>pmm_alloc_page\<close> on a consistent bitmap: it returns 0 and changes nothing exactly when
  no frame at or above 1 MB is free; otherwise it returns the page-aligned address of the
  lowest such frame, removes exactly that frame from the free set, and keeps the running
  count equal to the number of free frames.\<close>
theorem pmm_alloc_page_correct:
  assumes "pmm_inv s" "pmm_alloc_page s = (a, s')"
  shows "pmm_inv s' \<and> (a = 0 \<longleftrightarrow> free_set s \<inter> {256..} = {}) \<and>
    (if a = 0 then s' = s
     else a = of_nat (LEAST p. p \<in> free_set s \<and> 256 \<le> p) * PAGE_SIZE \<and>
          free_set s' = free_set s - {unat (a div PAGE_SIZE)} \<and>
          unat (pmm_get_free_pages s') + 1 = unat (pmm_get_free_pages s))"
proof -
  have inv: "pmm_inv s'" and none: "a = 0 \<Longrightarrow> s' = s"
    using pmm.alloc_ok pmm.alloc_none assms by blast+
  have zero: "a = 0 \<longleftrightarrow> free_set s \<inter> {256..} = {}"
    using pmm_alloc_page_zero_iff [of s] assms(2) by simp
  have "a = of_nat (LEAST p. p \<in> free_set s \<and> 256 \<le> p) * PAGE_SIZE \<and>
      free_set s' = free_set s - {unat (a div PAGE_SIZE)} \<and>
      unat (pmm_get_free_pages s') + 1 = unat (pmm_get_free_pages s)" if "a \<noteq> 0"
  proof -
    note sp = pmm_alloc_page_SomeD [OF assms(2) that]
    have "(LEAST p. p \<in> free_set s \<and> 256 \<le> p) = frame_no a"
      using sp by (intro Least_equality) auto
    moreover have "card (free_set s') + 1 = card (free_set s)"
      using sp(1,4) by (metis Suc_eq_plus1 card_Suc_Diff1 finite_free_set)
    ultimately show ?thesis
      using sp(3,4) inv assms(1) by (simp add: frame_no_def pmm_inv_def pmm_get_free_pages_def)
  qed
  with inv none zero show ?thesis
    by simp
qed

definition one_free :: pmm_state where
  "one_free = \<lparr>page_bitmap = (\<lambda>i. if i = 32 then 0xFE else 0xFF), total_pages = 257,
               free_pages = 1, total_memory_bytes = 0x101000\<rparr>"

lemma bit_FE: "bit (0xFE :: u8) n \<longleftrightarrow> 0 < n \<and> n < 8"
proof -
  have "(0xFE :: u8) = NOT 1"
    by simp
  then show ?thesis
    by (simp only: bit_not_iff) (auto simp: bit_1_iff)
qed

lemma one_free_test: "bitmap_test one_free p \<longleftrightarrow> p \<noteq> 256"
proof -
  have "p = 256 \<longleftrightarrow> p div 8 = 32 \<and> \<not> (0 < p mod 8 \<and> p mod 8 < 8)"
    by presburger
  then show ?thesis
    by (simp only: bitmap_test_bit one_free_def pmm_state.simps bit_FE bit_FF if_bool_eq_conj
        if_distrib [of "\<lambda>b. bit b (p mod 8)"]) blast
qed

lemma one_free_set: "free_set one_free = {256}" "pmm_inv one_free"
proof -
  show "free_set one_free = {256}"
    by (auto simp: free_set_def one_free_test MAX_PAGES_def)
  then show "pmm_inv one_free"
    by (simp add: pmm_inv_def) (simp add: one_free_def)
qed

lemma one_free_alloc: "fst (pmm_alloc_page one_free) = 0x100000"
  by (simp add: pmm_alloc_page_def pmm_alloc_loop.simps one_free_test PAGE_SIZE_def Let_def MAX_PAGES_def)

theorem pmm_alloc_page_correct_witness:
  "pmm_inv one_free \<and> fst (pmm_alloc_page one_free) = 0x100000 \<and>
   free_set (snd (pmm_alloc_page one_free)) = {} \<and> pmm_inv (snd (pmm_alloc_page one_free))"
  using pmm_alloc_page_correct [OF one_free_set(2) prod.collapse [symmetric]] one_free_alloc one_free_set
  by (simp add: PAGE_SIZE_def)

text \<open>C35. Allocating a frame and releasing it again restores the free set, and the state stays
  consistent.\<close>
theorem pmm_alloc_free_roundtrip:
  assumes "pmm_inv s" "pmm_alloc_page s = (a, s')" "a \<noteq> 0"
  shows "free_set (pmm_free_page a s') = free_set s \<and> pmm_inv (pmm_free_page a s') \<and>
    free_pages (pmm_free_page a s') = free_pages s"
proof -
  have f: "free_set (pmm_free_page a s') = free_set s"
    by (rule pmm.alloc_release [OF assms(2,3)])
  have inv: "pmm_inv (pmm_free_page a s')"
    using pmm.alloc_ok [OF assms(1,2)] by (rule pmm.release_ok)
  with f assms(1) show ?thesis
    by (simp add: pmm_inv_def word_unat_eq_iff)
qed

theorem pmm_alloc_free_roundtrip_witness:
  "free_set (pmm_free_page 0x100000 (snd (pmm_alloc_page one_free))) = {256}"
  using pmm_alloc_free_roundtrip [OF one_free_set(2) prod.collapse [symmetric]] one_free_alloc one_free_set
  by simp


definition demo_map :: "nat \<Rightarrow> e820_entry" where
  "demo_map i = (if i = 0 then \<lparr>e820_base = 0, e820_length = 0x9FC00, e820_type = 1, e820_acpi_ext = 0\<rparr>
                 else \<lparr>e820_base = 0x100000, e820_length = 0x100000, e820_type = 1, e820_acpi_ext = 0\<rparr>)"

lemma demo_map_free: "300 \<in> free_set (pmm_init 2 demo_map 0x100000 0x120000 one_free)"
proof -
  have "300 \<in> e820_frames (demo_map 1)"
    by (simp add: demo_map_def e820_frames_def region_frames_def PAGE_SIZE_def MAX_PAGES_def
        MAX_MEMORY_def E820_USABLE_def)
  then have "300 \<in> boot_frames 2 demo_map"
    unfolding boot_frames_def by (simp, intro bexI [of _ 1]) simp_all
  then show ?thesis
    by (simp add: pmm_init_spec used_frames_def PAGE_SIZE_def MAX_PAGES_def)
qed


end
