(* ===== verification/Heap.thy ===== *)
theory Heap
  imports Pmm
begin

text \<open>
  The kernel heap (\<open>kernel/memory/memory.c\<close>): a singly linked list of block headers inside a
  1 MB region behind the kernel image, searched first-fit, split on allocation and merged on
  release. Headers are read through \<open>hdr\<close>, the memory seen as block headers by address; the
  loops over the list may run forever on a corrupt list, so they are partial functions whose
  value \<open>None\<close> means that they do not return.

  The theory relates the linked list to a list of sizes and free flags (\<open>chain\<close>), proves that
  \<open>kmalloc\<close> and \<open>kfree\<close> return and implement first-fit and coalescing on that list, and that
  the list always tiles the heap region.
\<close>

unbundle bit_operations_syntax

section \<open>State\<close>

definition HEAP_SIZE :: u64 where
  "HEAP_SIZE = 0x00100000"

definition BLOCK_SIZE :: u64 where
  "BLOCK_SIZE = 16"

definition sizeof_block :: u64 where
  "sizeof_block = 24"

record memory_block =
  blk_size :: u64
  blk_is_free :: u32
  blk_next :: u64

record heap_state =
  hdr :: "u64 \<Rightarrow> memory_block"
  heap_start :: u64
  heap_base :: u64
  total_memory :: u64
  used_memory :: u64

datatype 'a outcome = Panic string | Done 'a

section \<open>Operations\<close>

definition memory_init :: "u64 \<Rightarrow> heap_state \<Rightarrow> pmm_state \<Rightarrow> heap_state \<times> pmm_state" where
  "memory_init kernel_end s p =
     (let base = (kernel_end + 0xFFF) AND NOT 0xFFF
      in (s\<lparr>heap_base := base, heap_start := base,
            hdr := (hdr s)(base := \<lparr>blk_size = HEAP_SIZE - sizeof_block, blk_is_free = 1, blk_next = 0\<rparr>),
            total_memory := HEAP_SIZE, used_memory := 0\<rparr>,
          pmm_mark_region_used base HEAP_SIZE p))"

partial_function (option) find_free_from ::
    "(u64 \<Rightarrow> memory_block) \<Rightarrow> u64 \<Rightarrow> u64 \<Rightarrow> u64 option" where
  "find_free_from h current req =
     (if current = 0 then Some 0
      else if blk_is_free (h current) \<noteq> 0 \<and> blk_size (h current) \<ge> req then Some current
      else find_free_from h (blk_next (h current)) req)"

definition find_free_block :: "heap_state \<Rightarrow> u64 \<Rightarrow> u64 option" where
  "find_free_block s req = find_free_from (hdr s) (heap_start s) req"

definition split_block :: "u64 \<Rightarrow> u64 \<Rightarrow> (u64 \<Rightarrow> memory_block) \<Rightarrow> u64 \<Rightarrow> memory_block" where
  "split_block block req h =
     (if blk_size (h block) \<ge> req + sizeof_block + BLOCK_SIZE then
        (let new_block = block + sizeof_block + req;
             h1 = h(new_block := \<lparr>blk_size = blk_size (h block) - req - sizeof_block,
                                  blk_is_free = 1, blk_next = blk_next (h block)\<rparr>)
         in h1(block := (h1 block)\<lparr>blk_size := req, blk_next := new_block\<rparr>))
      else h)"

partial_function (option) merge_from ::
    "(u64 \<Rightarrow> memory_block) \<Rightarrow> u64 \<Rightarrow> (u64 \<Rightarrow> memory_block) option" where
  "merge_from h current =
     (if current \<noteq> 0 \<and> blk_next (h current) \<noteq> 0 then
        (let nx = blk_next (h current) in
         if blk_is_free (h current) \<noteq> 0 \<and> blk_is_free (h nx) \<noteq> 0 then
           merge_from
             (h(current := (h current)\<lparr>blk_size := blk_size (h current) + (sizeof_block + blk_size (h nx)),
                                       blk_next := blk_next (h nx)\<rparr>)) current
         else merge_from h nx)
      else Some h)"

definition merge_free_blocks :: "heap_state \<Rightarrow> heap_state option" where
  "merge_free_blocks s = map_option (\<lambda>h. s\<lparr>hdr := h\<rparr>) (merge_from (hdr s) (heap_start s))"

definition align_up :: "u64 \<Rightarrow> u64" where
  "align_up req = (req + BLOCK_SIZE - 1) AND NOT (BLOCK_SIZE - 1)"

definition kmalloc :: "u64 \<Rightarrow> heap_state \<Rightarrow> (u64 \<times> heap_state) option" where
  "kmalloc req s =
     (if req = 0 then Some (0, s)
      else case find_free_block s (align_up req) of
        None \<Rightarrow> None
      | Some block \<Rightarrow>
          if block = 0 then Some (0, s)
          else
            (let h1 = split_block block (align_up req) (hdr s);
                 h2 = h1(block := (h1 block)\<lparr>blk_is_free := 0\<rparr>)
             in Some (block + sizeof_block,
                      s\<lparr>hdr := h2,
                        used_memory := used_memory s + (blk_size (h2 block) + sizeof_block)\<rparr>)))"

definition kfree :: "u64 \<Rightarrow> heap_state \<Rightarrow> heap_state outcome option" where
  "kfree ptr s =
     (if ptr = 0 then Some (Done s)
      else
        (let block = ptr - sizeof_block in
         if block < heap_base s \<or> block \<ge> heap_base s + HEAP_SIZE then
           Some (Panic ''Invalid pointer passed to kfree'')
         else if blk_is_free (hdr s block) \<noteq> 0 then Some (Panic ''Double free detected'')
         else map_option Done (merge_free_blocks
                (s\<lparr>hdr := (hdr s)(block := (hdr s block)\<lparr>blk_is_free := 1\<rparr>),
                   used_memory := used_memory s - (blk_size (hdr s block) + sizeof_block)\<rparr>))))"

definition memory_get_free :: "heap_state \<Rightarrow> u64" where
  "memory_get_free s = total_memory s - used_memory s"

definition memory_get_used :: "heap_state \<Rightarrow> u64" where
  "memory_get_used s = used_memory s"

definition memory_get_heap_start :: "heap_state \<Rightarrow> u64" where
  "memory_get_heap_start s = heap_base s"

section \<open>The block list as an abstract tiling\<close>

type_synonym blk = "nat \<times> bool"

definition span :: "blk list \<Rightarrow> nat" where
  "span bs = sum_list (map (\<lambda>(n, f). n + 24) bs)"

definition in_use :: "blk list \<Rightarrow> nat" where
  "in_use bs = sum_list (map (\<lambda>(n, f). if f then 0 else n + 24) bs)"

lemma span_simps [simp]:
  "span [] = 0" "span ((n, f) # bs) = n + 24 + span bs" "span (xs @ ys) = span xs + span ys"
  by (simp_all add: span_def)

lemma in_use_simps [simp]:
  "in_use [] = 0" "in_use ((n, f) # bs) = (if f then 0 else n + 24) + in_use bs"
  "in_use (xs @ ys) = in_use xs + in_use ys"
  by (simp_all add: in_use_def)

lemma in_use_le: "in_use bs \<le> span bs"
  by (induction bs) auto

text \<open>\<open>chain h a t bs\<close>: from address \<open>a\<close> the headers in \<open>h\<close> describe the contiguous blocks \<open>bs\<close>,
  the last one pointing to \<open>t\<close>.\<close>

fun chain :: "(u64 \<Rightarrow> memory_block) \<Rightarrow> nat \<Rightarrow> nat \<Rightarrow> blk list \<Rightarrow> bool" where
  "chain h a t [] \<longleftrightarrow> True"
| "chain h a t ((n, f) # bs) \<longleftrightarrow>
     h (of_nat a) = \<lparr>blk_size = of_nat n, blk_is_free = (if f then 1 else 0),
                     blk_next = of_nat (if bs = [] then t else a + 24 + n)\<rparr> \<and>
     chain h (a + 24 + n) t bs"

fun first_fit :: "nat \<Rightarrow> blk list \<Rightarrow> nat option" where
  "first_fit k [] = None"
| "first_fit k ((n, f) # bs) =
     (if f \<and> k \<le> n then Some 0 else map_option Suc (first_fit k bs))"

definition split_blk :: "nat \<Rightarrow> nat \<Rightarrow> blk list" where
  "split_blk k n =
     (if k + 40 \<le> n then [(k, False), (n - k - 24, True)] else [(n, False)])"

fun coalesce :: "blk list \<Rightarrow> blk list" where
  "coalesce ((n, True) # (m, True) # bs) = coalesce ((n + 24 + m, True) # bs)"
| "coalesce (b # bs) = b # coalesce bs"
| "coalesce [] = []"

definition heap_inv :: "heap_state \<Rightarrow> blk list \<Rightarrow> bool" where
  "heap_inv s bs \<longleftrightarrow>
     heap_start s = heap_base s \<and> 0 < heap_base s \<and> unat (heap_base s) + 0x100000 < 2 ^ 64 \<and>
     chain (hdr s) (unat (heap_base s)) 0 bs \<and> span bs = 0x100000 \<and>
     total_memory s = HEAP_SIZE \<and> used_memory s = of_nat (in_use bs)"

section \<open>Lemmas on chains\<close>

lemma chain_append:
  "chain h a t (xs @ ys) \<longleftrightarrow>
     chain h a (if ys = [] then t else a + span xs) xs \<and> chain h (a + span xs) t ys"
  by (induction h a t xs rule: chain.induct) (auto simp: ac_simps)

lemma chain_frame:
  "(\<And>x. a \<le> x \<Longrightarrow> x < a + span bs \<Longrightarrow> h' (of_nat x) = h (of_nat x)) \<Longrightarrow>
   chain h' a t bs = chain h a t bs"
  by (induction h a t bs rule: chain.induct) auto

lemma first_fit_SomeD:
  "first_fit k bs = Some i \<Longrightarrow> i < length bs \<and> snd (bs ! i) \<and> k \<le> fst (bs ! i)"
  by (induction k bs arbitrary: i rule: first_fit.induct) (auto split: if_splits)

lemma first_fit_None_iff: "first_fit k bs = None \<longleftrightarrow> (\<forall>(n, f) \<in> set bs. f \<longrightarrow> n < k)"
  by (induction k bs rule: first_fit.induct) auto

lemma find_free_chain:
  "chain h a 0 bs \<Longrightarrow> 0 < a \<Longrightarrow> a + span bs < 2 ^ 64 \<Longrightarrow>
   find_free_from h (of_nat (if bs = [] then 0 else a)) k =
     Some (case first_fit (unat k) bs of None \<Rightarrow> 0 | Some i \<Rightarrow> of_nat (a + span (take i bs)))"
proof (induction h a "0 :: nat" bs rule: chain.induct)
  case (1 h a)
  then show ?case by (simp add: find_free_from.simps)
next
  case (2 h a n f bs)
  have nz: "(of_nat a :: u64) \<noteq> 0" and n: "unat (of_nat n :: u64) = n"
    using 2 of_nat_eq64 [of a 0] by (auto simp: unat_of_nat_small)
  have "find_free_from h (of_nat a) k =
      (if f \<and> unat k \<le> n then Some (of_nat a)
       else find_free_from h (of_nat (if bs = [] then 0 else a + 24 + n)) k)"
    using 2(2) nz n by (subst find_free_from.simps) (simp add: word_le_nat_alt)
  with 2 show ?case
    by (auto split: option.splits simp: ac_simps)
qed

section \<open>\<open>kmalloc\<close>\<close>

lemma split_block_eq:
  assumes "h (of_nat a) = \<lparr>blk_size = of_nat n, blk_is_free = 1, blk_next = nx\<rparr>"
    and "a + 24 + n < 2 ^ 64" "n \<le> 0x100000" "k \<le> n"
  shows "split_block (of_nat a) (of_nat k) h =
    (if k + 40 \<le> n then
       h(of_nat (a + 24 + k) := \<lparr>blk_size = of_nat (n - k - 24), blk_is_free = 1, blk_next = nx\<rparr>,
         of_nat a := \<lparr>blk_size = of_nat k, blk_is_free = 1, blk_next = of_nat (a + 24 + k)\<rparr>)
     else h)"
proof -
  have ne: "(of_nat a :: u64) \<noteq> of_nat (a + 24 + k)"
    using assms by (subst of_nat_eq64) auto
  have "(of_nat k + sizeof_block + BLOCK_SIZE :: u64) = of_nat (k + 40)"
    by (simp add: sizeof_block_def BLOCK_SIZE_def)
  then have c: "of_nat k + sizeof_block + BLOCK_SIZE \<le> (of_nat n :: u64) \<longleftrightarrow> k + 40 \<le> n"
    using assms of_nat_le64 [of "k + 40" n] by (simp only:) auto
  have nb: "of_nat a + sizeof_block + of_nat k = (of_nat (a + 24 + k) :: u64)"
    by (simp add: sizeof_block_def)
  have sz: "k + 40 \<le> n \<Longrightarrow> of_nat n - of_nat k - sizeof_block = (of_nat (n - k - 24) :: u64)"
    by (simp add: sizeof_block_def of_nat_diff)
  show ?thesis
    using ne sz unfolding split_block_def Let_def nb
    by (simp only: assms(1) memory_block.simps c fun_upd_other if_cancel simp_thms
        refl split: if_split) auto
qed

lemma split_chain:
  assumes "chain h a t ((n, True) # ys)" "a + 24 + n + span ys < 2 ^ 64" "n \<le> 0x100000" "k \<le> n"
  defines "h1 \<equiv> split_block (of_nat a) (of_nat k) h"
  defines "h2 \<equiv> h1(of_nat a := (h1 (of_nat a))\<lparr>blk_is_free := 0\<rparr>)"
  shows "chain h2 a t (split_blk k n @ ys)"
    and "\<And>x. x < 2 ^ 64 \<Longrightarrow> x < a \<or> a + 24 + n \<le> x \<Longrightarrow> h2 (of_nat x) = h (of_nat x)"
    and "blk_size (h2 (of_nat a)) = of_nat (fst (hd (split_blk k n)))"
proof -
  have ha: "h (of_nat a) = \<lparr>blk_size = of_nat n, blk_is_free = 1,
      blk_next = of_nat (if ys = [] then t else a + 24 + n)\<rparr>"
    using assms(1) by simp
  note sp = split_block_eq [where h = h and a = a, OF ha _ assms(3,4)]
  have ne: "(of_nat (a + 24 + k) :: u64) \<noteq> of_nat a"
    using assms(2,4) by (subst of_nat_eq64) auto
  show fr: "h2 (of_nat x) = h (of_nat x)" if "x < 2 ^ 64" "x < a \<or> a + 24 + n \<le> x" for x
  proof -
    have "(of_nat x :: u64) \<noteq> of_nat a" "k + 40 \<le> n \<Longrightarrow> (of_nat x :: u64) \<noteq> of_nat (a + 24 + k)"
      using that assms(2,4) by (subst of_nat_eq64; auto)+
    then show ?thesis
      using assms(2) by (simp add: h2_def h1_def sp del: of_nat_add)
  qed
  have ys: "chain h2 (a + 24 + n) t ys"
    using assms(1,2) fr by (subst chain_frame [of _ _ _ h]) auto
  show "blk_size (h2 (of_nat a)) = of_nat (fst (hd (split_blk k n)))"
    using assms(2) ha by (simp add: h2_def h1_def sp split_blk_def del: of_nat_add)
  have a2: "h2 (of_nat a) = \<lparr>blk_size = of_nat (if k + 40 \<le> n then k else n), blk_is_free = 0,
      blk_next = of_nat (if k + 40 \<le> n then a + 24 + k else if ys = [] then t else a + 24 + n)\<rparr>"
    using assms(2) ha by (simp add: h2_def h1_def sp del: of_nat_add)
  have c2: "h2 (of_nat (a + 24 + k)) = \<lparr>blk_size = of_nat (n - k - 24), blk_is_free = 1,
      blk_next = of_nat (if ys = [] then t else a + 24 + n)\<rparr>" if "k + 40 \<le> n"
    using that assms(2) ne by (simp add: h2_def h1_def sp del: of_nat_add)
  show "chain h2 a t (split_blk k n @ ys)"
  proof (cases "k + 40 \<le> n")
    case True
    with a2 c2 ys show ?thesis
      by (simp add: split_blk_def ac_simps del: of_nat_add)
  next
    case False
    with a2 ys show ?thesis
      by (simp add: split_blk_def del: of_nat_add)
  qed
qed

lemma unat_align_up:
  assumes "unat req + 15 < 2 ^ 64"
  shows "unat (align_up req) = (unat req + 15) div 16 * 16"
proof -
  have "align_up req = (req + 15) AND NOT (mask 4)"
    by (simp add: align_up_def BLOCK_SIZE_def mask_eq_exp_minus_1 add.commute)
  then have "unat (align_up req) = unat (req + 15) div 16 * 16"
    by (simp only: unat_and_not_mask) simp
  then show ?thesis
    using assms by (simp add: unat_word_ariths)
qed

lemma kmalloc_none:
  assumes "heap_inv s bs" "req \<noteq> 0" "first_fit (unat (align_up req)) bs = None"
  shows "kmalloc req s = Some (0, s)"
proof -
  have "bs \<noteq> []"
    using assms(1) by (auto simp: heap_inv_def)
  then have "find_free_block s (align_up req) = Some 0"
    using assms find_free_chain [of "hdr s" "unat (heap_base s)" bs "align_up req"]
    by (simp add: heap_inv_def find_free_block_def unat_gt_0 word_gt_0)
  with assms(2) show ?thesis
    by (simp add: kmalloc_def)
qed

lemma kmalloc_some:
  assumes inv: "heap_inv s (xs @ (n, True) # ys)" and "req \<noteq> 0"
    and ff: "first_fit (unat (align_up req)) (xs @ (n, True) # ys) = Some (length xs)"
  shows "\<exists>s'. kmalloc req s = Some (heap_base s + of_nat (span xs) + 24, s') \<and>
      heap_inv s' (xs @ split_blk (unat (align_up req)) n @ ys) \<and> heap_base s' = heap_base s"
proof -
  let ?b = "unat (heap_base s)" and ?k = "unat (align_up req)"
  let ?a = "?b + span xs" and ?bs = "xs @ (n, True) # ys"
  have b: "0 < ?b" "?b + span ?bs < 2 ^ 64" and ch: "chain (hdr s) ?b 0 ?bs" and sp: "span ?bs = 0x100000"
    using inv by (auto simp: heap_inv_def unat_gt_0 word_gt_0)
  have k: "?k \<le> n"
    using first_fit_SomeD [OF ff] by (simp add: nth_append)
  have start: "heap_start s = of_nat ?b"
    using inv by (simp add: heap_inv_def)
  let ?A = "heap_base s + of_nat (span xs)"
  have A: "of_nat ?a = ?A" and K: "of_nat ?k = align_up req"
    by simp_all
  have find: "find_free_block s (align_up req) = Some ?A"
    using find_free_chain [OF ch b, of "align_up req"] ff start
    by (simp add: find_free_block_def)
  have nz: "?A \<noteq> 0"
    using of_nat_eq64 [of ?a 0] b by simp
  have xs: "chain (hdr s) ?b ?a xs" and c: "chain (hdr s) ?a 0 ((n, True) # ys)"
    using ch by (simp_all add: chain_append)
  define h1 where "h1 = split_block ?A (align_up req) (hdr s)"
  define h2 where "h2 = h1(?A := (h1 ?A)\<lparr>blk_is_free := 0\<rparr>)"
  have "?a + 24 + n + span ys < 2 ^ 64" "n \<le> 0x100000"
    using b sp by simp_all
  note sc = split_chain [OF c this k, unfolded A K, folded h1_def, folded h2_def]
  have "chain h2 ?b ?a xs"
    using xs sc(2) b by (subst chain_frame [of _ _ _ "hdr s"]) auto
  then have "chain h2 ?b 0 (xs @ split_blk ?k n @ ys)"
    using sc(1) by (simp add: chain_append split_blk_def)
  moreover have "span (split_blk ?k n @ ys) = n + 24 + span ys"
    using k by (auto simp: split_blk_def)
  moreover have "in_use (xs @ split_blk ?k n @ ys) = in_use (xs @ (n, True) # ys) + (fst (hd (split_blk ?k n)) + 24)"
    by (simp add: split_blk_def)
  moreover have "kmalloc req s = Some (?A + 24, s\<lparr>hdr := h2,
      used_memory := used_memory s + (blk_size (h2 ?A) + 24)\<rparr>)"
    using find nz assms(2) by (simp add: kmalloc_def h2_def h1_def Let_def sizeof_block_def)
  ultimately show ?thesis
    using inv sc(3) sp by (simp add: heap_inv_def)
qed

section \<open>\<open>kfree\<close>\<close>

lemma span_coalesce [simp]: "span (coalesce bs) = span bs"
  by (induction bs rule: coalesce.induct) auto

lemma in_use_coalesce [simp]: "in_use (coalesce bs) = in_use bs"
  by (induction bs rule: coalesce.induct) auto

fun no_adjacent :: "blk list \<Rightarrow> bool" where
  "no_adjacent ((n, f) # (m, g) # bs) \<longleftrightarrow> \<not> (f \<and> g) \<and> no_adjacent ((m, g) # bs)"
| "no_adjacent _ \<longleftrightarrow> True"

lemma coalesce_simps [simp]:
  "coalesce [(n, f)] = [(n, f)]"
  "\<not> (f \<and> g) \<Longrightarrow> coalesce ((n, f) # (m, g) # bs) = (n, f) # coalesce ((m, g) # bs)"
  by (cases f; cases g; simp)+

lemma coalesce_hd: "\<exists>m cs. coalesce ((n, f) # bs) = (m, f) # cs"
proof (induction bs arbitrary: n)
  case (Cons b bs)
  obtain m g where "b = (m, g)"
    by (cases b)
  with Cons show ?case
    by (cases "f \<and> g") auto
qed simp

lemma coalesce_no_adjacent: "no_adjacent (coalesce bs)"
proof (induction "length bs" arbitrary: bs rule: less_induct)
  case less
  consider "bs = []" | n f where "bs = [(n, f)]" | n f m g cs where "bs = (n, f) # (m, g) # cs"
    by (metis surj_pair list.exhaust)
  then show ?case
  proof cases
    case (3 n f m g cs)
    then have ih: "no_adjacent (coalesce ((k, f') # cs))" for k f'
      using less by simp
    show ?thesis
    proof (cases "f \<and> g")
      case True
      with ih 3 show ?thesis by simp
    next
      case False
      obtain k ds where "coalesce ((m, g) # cs) = (k, g) # ds"
        using coalesce_hd by blast
      with ih [of m g] 3 False show ?thesis by simp
    qed
  qed simp_all
qed

lemma merge_step:
  assumes "h (of_nat a) = \<lparr>blk_size = of_nat n, blk_is_free = (if f then 1 else 0), blk_next = of_nat b\<rparr>"
    and "h (of_nat b) = \<lparr>blk_size = of_nat m, blk_is_free = (if g then 1 else 0), blk_next = t\<rparr>"
    and "(of_nat a :: u64) \<noteq> 0" "(of_nat b :: u64) \<noteq> 0"
  shows "merge_from h (of_nat a) =
    (if f \<and> g then
       merge_from (h(of_nat a := \<lparr>blk_size = of_nat (n + 24 + m), blk_is_free = 1, blk_next = t\<rparr>)) (of_nat a)
     else merge_from h (of_nat b))"
  using assms by (subst merge_from.simps) (simp add: sizeof_block_def ac_simps)

lemma merge_chain:
  "chain h a 0 bs \<Longrightarrow> 0 < a \<Longrightarrow> a + span bs < 2 ^ 64 \<Longrightarrow> bs \<noteq> [] \<Longrightarrow>
   \<exists>h'. merge_from h (of_nat a) = Some h' \<and> chain h' a 0 (coalesce bs) \<and>
        (\<forall>x < a. h' (of_nat x) = h (of_nat x))"
proof (induction "length bs" arbitrary: bs h a rule: less_induct)
  case less
  have nz: "(of_nat a :: u64) \<noteq> 0"
    using less.prems of_nat_eq64 [of a 0] by auto
  consider (one) n f where "bs = [(n, f)]" | (more) n f m g cs where "bs = (n, f) # (m, g) # cs"
    using less.prems(4) by (metis surj_pair list.exhaust)
  then show ?case
  proof cases
    case one
    with less.prems(1) show ?thesis
      by (subst merge_from.simps) auto
  next
    case more
    let ?b = "a + 24 + n"
    let ?t = "of_nat (if cs = [] then 0 else ?b + 24 + m) :: u64"
    have nzb: "(of_nat ?b :: u64) \<noteq> 0"
      using less.prems more of_nat_eq64 [of ?b 0] by auto
    have ha: "h (of_nat a) = \<lparr>blk_size = of_nat n, blk_is_free = (if f then 1 else 0), blk_next = of_nat ?b\<rparr>"
      and hb: "h (of_nat ?b) = \<lparr>blk_size = of_nat m, blk_is_free = (if g then 1 else 0), blk_next = ?t\<rparr>"
      and chb: "chain h ?b 0 ((m, g) # cs)" and chc: "chain h (?b + 24 + m) 0 cs"
      using less.prems(1) more by simp_all
    note ms = merge_step [where h = h, OF ha hb nz nzb]
    show ?thesis
    proof (cases "f \<and> g")
      case True
      define h1 where "h1 = h(of_nat a := \<lparr>blk_size = of_nat (n + 24 + m), blk_is_free = 1, blk_next = ?t\<rparr>)"
      have fr: "h1 (of_nat x) = h (of_nat x)" if "x < 2 ^ 64" "x \<noteq> a" for x
        using that less.prems(3) of_nat_eq64 [of x a] by (simp add: h1_def)
      have "chain h1 (?b + 24 + m) 0 cs"
        using chc fr less.prems(3) more by (subst chain_frame [of _ _ _ h]) auto
      then have "chain h1 a 0 ((n + 24 + m, True) # cs)"
        by (simp add: h1_def ac_simps)
      then have "\<exists>h'. merge_from h1 (of_nat a) = Some h' \<and>
          chain h' a 0 (coalesce ((n + 24 + m, True) # cs)) \<and> (\<forall>x < a. h' (of_nat x) = h1 (of_nat x))"
        using less.prems more by (intro less.hyps) (simp_all add: ac_simps)
      with True ms more fr less.prems(3) show ?thesis
        by (fastforce simp: h1_def)
    next
      case False
      have "\<exists>h'. merge_from h (of_nat ?b) = Some h' \<and> chain h' ?b 0 (coalesce ((m, g) # cs)) \<and>
          (\<forall>x < ?b. h' (of_nat x) = h (of_nat x))"
        using less.prems more chb by (intro less.hyps) simp_all
      then obtain h' where h': "merge_from h (of_nat ?b) = Some h'" "chain h' ?b 0 (coalesce ((m, g) # cs))"
        "\<forall>x < ?b. h' (of_nat x) = h (of_nat x)"
        by blast
      obtain k ds where "coalesce ((m, g) # cs) = (k, g) # ds"
        using coalesce_hd by blast
      with h' False more ha have "chain h' a 0 (coalesce bs)"
        by simp
      with h' False ms show ?thesis
        by auto
    qed
  qed
qed

lemma heap_inv_bounds:
  assumes "heap_inv s (xs @ (n, f) # ys)"
  shows "unat (heap_base s + of_nat (span xs)) = unat (heap_base s) + span xs"
    "span xs + 24 + n \<le> 0x100000" "0 < unat (heap_base s)"
  using assms by (auto simp: heap_inv_def unat_word_ariths unat_of_nat unat_gt_0 word_gt_0)

lemma kfree_spec:
  assumes inv: "heap_inv s (xs @ (n, False) # ys)"
  shows "\<exists>s'. kfree (heap_base s + of_nat (span xs) + 24) s = Some (Done s') \<and>
      heap_inv s' (coalesce (xs @ (n, True) # ys)) \<and> heap_base s' = heap_base s"
proof -
  let ?b = "unat (heap_base s)" and ?A = "heap_base s + of_nat (span xs)"
  let ?a = "?b + span xs"
  define h1 where "h1 = (hdr s)(?A := (hdr s ?A)\<lparr>blk_is_free := 1\<rparr>)"
  note bd = heap_inv_bounds [OF inv]
  have A: "?A = of_nat ?a"
    by simp
  have ch: "chain (hdr s) ?b 0 (xs @ (n, False) # ys)" and sp: "span (xs @ (n, False) # ys) = 0x100000"
    and top: "?b + 0x100000 < 2 ^ 64" and start: "heap_start s = of_nat ?b"
    using inv by (auto simp: heap_inv_def)
  have ha: "hdr s ?A = \<lparr>blk_size = of_nat n, blk_is_free = 0,
      blk_next = of_nat (if ys = [] then 0 else ?a + 24 + n)\<rparr>"
    using ch by (simp add: chain_append)
  have fr: "h1 (of_nat x) = hdr s (of_nat x)" if "x < 2 ^ 64" "x \<noteq> ?a" for x
    using that top sp of_nat_eq64 [of x ?a] unfolding h1_def A by simp
  have "chain h1 ?b ?a xs" "chain h1 (?a + 24 + n) 0 ys"
    using ch top sp fr by (subst chain_frame [of _ _ _ "hdr s"]; auto simp: chain_append)+
  then have "chain h1 ?b 0 (xs @ (n, True) # ys)"
    using ha by (simp add: chain_append h1_def)
  then obtain h2 where h2: "merge_from h1 (of_nat ?b) = Some h2" "chain h2 ?b 0 (coalesce (xs @ (n, True) # ys))"
    using merge_chain [of h1 ?b "xs @ (n, True) # ys"] bd(3) top sp by auto
  have nz: "?A + 24 \<noteq> 0"
  proof -
    have "?A + 24 = of_nat (?a + 24)"
      by simp
    then show ?thesis
      using of_nat_eq64 [of "?a + 24" 0] bd top by auto
  qed
  have "\<not> ?A < heap_base s" "\<not> heap_base s + HEAP_SIZE \<le> ?A"
    using bd top by (auto simp: word_less_nat_alt word_le_nat_alt HEAP_SIZE_def unat_word_ariths)
  then have "kfree (?A + 24) s = Some (Done (s\<lparr>hdr := h2, used_memory := used_memory s - (of_nat n + 24)\<rparr>))"
    using nz ha h2(1) start unfolding h1_def
    by (simp add: kfree_def merge_free_blocks_def sizeof_block_def Let_def)
  with inv h2(2) sp show ?thesis
    by (simp add: heap_inv_def)
qed

lemma coalesce_join: "coalesce (xs @ (n, True) # (m, True) # ys) = coalesce (xs @ (n + 24 + m, True) # ys)"
proof (induction "length xs" arbitrary: xs n rule: less_induct)
  case less
  consider "xs = []" | k f where "xs = [(k, f)]" | k f l g cs where "xs = (k, f) # (l, g) # cs"
    by (metis surj_pair list.exhaust)
  then show ?case
  proof cases
    case (2 k f)
    then show ?thesis
      by (cases f) (simp_all add: ac_simps)
  next
    case (3 k f l g cs)
    with less [of "(k + 24 + l, True) # cs" n] less [of "(l, g) # cs" n] show ?thesis
      by (cases "f \<and> g") simp_all
  qed simp
qed

lemma coalesce_idem: "no_adjacent bs \<Longrightarrow> coalesce bs = bs"
  by (induction bs rule: no_adjacent.induct) auto

lemma coalesce_split:
  assumes "no_adjacent (xs @ (n, True) # ys)" "k \<le> n"
  shows "coalesce (xs @ (fst (hd (split_blk k n)), True) # tl (split_blk k n) @ ys) = xs @ (n, True) # ys"
  using assms coalesce_idem [OF assms(1)] by (simp add: split_blk_def coalesce_join)

section \<open>Properties\<close>

lemma first_fit_split:
  assumes "first_fit k bs = Some i"
  obtains xs n ys where "bs = xs @ (n, True) # ys" "length xs = i" "k \<le> n"
    "\<forall>(m, f) \<in> set xs. f \<longrightarrow> m < k"
proof -
  note d = first_fit_SomeD [OF assms]
  obtain n where n: "bs ! i = (n, True)"
    using d by (cases "bs ! i") auto
  have "\<forall>(m, f) \<in> set (take i bs). f \<longrightarrow> m < k"
    using assms by (induction k bs arbitrary: i rule: first_fit.induct) (auto split: if_splits)
  moreover have "bs = take i bs @ (n, True) # drop (Suc i) bs"
    using id_take_nth_drop [of i bs] d n by simp
  ultimately show thesis
    using that [of "take i bs" n "drop (Suc i) bs"] d n by simp
qed

definition cold_heap :: heap_state where
  "cold_heap = \<lparr>hdr = (\<lambda>_. \<lparr>blk_size = 0, blk_is_free = 0, blk_next = 0\<rparr>), heap_start = 0,
                heap_base = 0, total_memory = 0, used_memory = 0\<rparr>"

definition boot_heap :: heap_state where
  "boot_heap = fst (memory_init 0x140001 cold_heap one_free)"

lemma boot_heap_inv: "heap_inv boot_heap [(1048552, True)]" "heap_base boot_heap = 0x141000"
  by (simp_all add: boot_heap_def cold_heap_def memory_init_def heap_inv_def HEAP_SIZE_def sizeof_block_def)

definition heap_after_100 :: heap_state where
  "heap_after_100 = snd (the (kmalloc 100 boot_heap))"

lemma align_up_100: "unat (align_up 100) = 112"
  by (simp add: unat_align_up)

lemma heap_after_100_inv:
  "kmalloc 100 boot_heap = Some (0x141018, heap_after_100)"
  "heap_inv heap_after_100 [(112, False), (1048416, True)]" "heap_base heap_after_100 = 0x141000"
  using kmalloc_some [of boot_heap "[]" 1048552 "[]" 100]
  by (auto simp: boot_heap_inv align_up_100 split_blk_def heap_after_100_def)

text \<open>C1. On a well-formed heap \<open>kmalloc\<close> returns for every request that does not overflow the
  rounding. It returns NULL, with the heap unchanged, exactly when no free block can hold the
  rounded request; otherwise it takes the first free block that fits, splits off the rest when
  a header and 16 bytes remain, returns the address behind that block's header, and the heap is
  again well formed with that block in use.\<close>
theorem kmalloc_correct:
  assumes "heap_inv s bs" "req \<noteq> 0" "unat req + 15 < 2 ^ 64"
  defines "k \<equiv> (unat req + 15) div 16 * 16"
  shows "if \<forall>(n, f) \<in> set bs. f \<longrightarrow> n < k then kmalloc req s = Some (0, s)
    else \<exists>xs n ys s'. bs = xs @ (n, True) # ys \<and> (\<forall>(m, f) \<in> set xs. f \<longrightarrow> m < k) \<and> k \<le> n \<and>
      kmalloc req s = Some (heap_base s + of_nat (span xs) + 24, s') \<and>
      heap_inv s' (xs @ split_blk k n @ ys) \<and> heap_base s' = heap_base s"
proof -
  have k: "unat (align_up req) = k"
    using unat_align_up [OF assms(3)] k_def by simp
  show ?thesis
  proof (cases "first_fit k bs")
    case None
    with kmalloc_none [OF assms(1,2)] k show ?thesis
      by (simp add: first_fit_None_iff)
  next
    case (Some i)
    then obtain xs n ys where x: "bs = xs @ (n, True) # ys" "length xs = i" "k \<le> n"
      "\<forall>(m, f) \<in> set xs. f \<longrightarrow> m < k"
      by (rule first_fit_split)
    with Some kmalloc_some [of s xs n ys req] assms(1,2) k
    have "\<exists>s'. kmalloc req s = Some (heap_base s + of_nat (span xs) + 24, s') \<and>
      heap_inv s' (xs @ split_blk k n @ ys) \<and> heap_base s' = heap_base s"
      by simp
    moreover have "\<not> (\<forall>(n, f) \<in> set bs. f \<longrightarrow> n < k)"
      using Some first_fit_None_iff by (metis option.distinct(1))
    ultimately show ?thesis
      using x by (simp only: if_False) blast
  qed
qed

theorem kmalloc_correct_witness:
  "\<exists>s'. kmalloc 100 boot_heap = Some (0x141018, s') \<and> heap_inv s' [(112, False), (1048416, True)]"
  using kmalloc_correct [OF boot_heap_inv(1), of 100]
  by (auto simp: boot_heap_inv(2) split_blk_def Cons_eq_append_conv)

text \<open>C16. \<open>kfree\<close> of a pointer that \<open>kmalloc\<close> returned for a block still in use never panics
  and returns: the block becomes free, every run of adjacent free blocks is merged into one,
  and the heap stays a tiling of its region with an exact count of the bytes in use.\<close>
theorem kfree_correct:
  assumes "heap_inv s (xs @ (n, False) # ys)"
  shows "\<exists>s'. kfree (heap_base s + of_nat (span xs) + 24) s = Some (Done s') \<and>
      heap_inv s' (coalesce (xs @ (n, True) # ys)) \<and> no_adjacent (coalesce (xs @ (n, True) # ys)) \<and>
      memory_get_used s' = memory_get_used s - (of_nat n + 24)"
proof -
  obtain s' where "kfree (heap_base s + of_nat (span xs) + 24) s = Some (Done s')"
    and inv: "heap_inv s' (coalesce (xs @ (n, True) # ys))"
    using kfree_spec [OF assms] by blast
  moreover have "memory_get_used s' = memory_get_used s - (of_nat n + 24)"
    using inv assms by (simp add: memory_get_used_def heap_inv_def)
  ultimately show ?thesis
    using coalesce_no_adjacent by blast
qed

theorem kfree_correct_witness:
  "\<exists>s'. kfree 0x141018 heap_after_100 = Some (Done s') \<and> heap_inv s' [(1048552, True)]"
  using kfree_correct [of heap_after_100 "[]" 112 "[(1048416, True)]"]
  by (auto simp: heap_after_100_inv)

text \<open>C34. Freeing what \<open>kmalloc\<close> has just returned restores the previous list of blocks, on a
  heap without adjacent free blocks.\<close>
theorem kmalloc_kfree_roundtrip:
  assumes "heap_inv s bs" "no_adjacent bs" "req \<noteq> 0" "kmalloc req s = Some (p, s')" "p \<noteq> 0"
  shows "\<exists>s''. kfree p s' = Some (Done s'') \<and> heap_inv s'' bs \<and> memory_get_free s'' = memory_get_free s"
proof -
  let ?k = "unat (align_up req)"
  obtain i where "first_fit ?k bs = Some i"
    using kmalloc_none [OF assms(1,3)] assms(4,5) by fastforce
  then obtain xs n ys where x: "bs = xs @ (n, True) # ys" "?k \<le> n"
    and ff: "first_fit ?k bs = Some (length xs)"
    by (metis first_fit_split)
  obtain m zs where sb: "split_blk ?k n = (m, False) # zs"
    by (metis split_blk_def)
  have p: "p = heap_base s' + of_nat (span xs) + 24" and inv: "heap_inv s' (xs @ (m, False) # zs @ ys)"
    using kmalloc_some [of s xs n ys req] assms(1,3,4) x ff sb by auto
  obtain s'' where s'': "kfree p s' = Some (Done s'')" "heap_inv s'' (coalesce (xs @ (m, True) # zs @ ys))"
    using kfree_spec [OF inv] p by blast
  have "coalesce (xs @ (m, True) # zs @ ys) = bs"
    using coalesce_split [of xs n ys ?k] assms(2) x sb by simp
  with s'' assms(1) show ?thesis
    by (auto simp: memory_get_free_def heap_inv_def)
qed

theorem kmalloc_kfree_roundtrip_witness:
  "\<exists>s''. kfree 0x141018 heap_after_100 = Some (Done s'') \<and> heap_inv s'' [(1048552, True)]"
  using kmalloc_kfree_roundtrip [OF boot_heap_inv(1) _ _ heap_after_100_inv(1)] by auto

text \<open>C21. \<open>memory_init\<close> builds a well-formed heap of one free block and reserves its frames: no
  frame of the heap region stays free in the page allocator, whose count stays exact.\<close>
theorem memory_init_correct:
  assumes "0 < kernel_end" "unat kernel_end + 0xFFF + 0x100000 + 0xFFF < 2 ^ 64" "pmm_inv p"
    and "memory_init kernel_end s p = (s', p')"
  shows "heap_inv s' [(0xFFFE8, True)] \<and> kernel_end \<le> memory_get_heap_start s' \<and> pmm_inv p' \<and>
    (\<forall>f \<in> free_set p'. 4096 * f + 4096 \<le> unat (heap_base s') \<or> unat (heap_base s') + 0x100000 \<le> 4096 * f)"
proof -
  define b where "b = (kernel_end + 0xFFF) AND NOT 0xFFF"
  have "unat (kernel_end + 0xFFF) = unat kernel_end + 4095"
    using assms(2) by (simp add: unat_word_ariths)
  then have ub: "unat b = (unat kernel_end + 4095) div 4096 * 4096"
    by (simp only: b_def unat_page_align)
  then have le: "unat kernel_end \<le> unat b" "unat b \<le> unat kernel_end + 4095"
    by linarith+
  moreover have "0 < unat kernel_end"
    using assms(1) by (simp add: unat_gt_0 word_gt_0)
  moreover have s': "s' = s\<lparr>heap_base := b, heap_start := b,
      hdr := (hdr s)(b := \<lparr>blk_size = HEAP_SIZE - sizeof_block, blk_is_free = 1, blk_next = 0\<rparr>),
      total_memory := HEAP_SIZE, used_memory := 0\<rparr>" and p': "p' = pmm_mark_region_used b HEAP_SIZE p"
    using assms(4) by (simp_all only: memory_init_def Let_def b_def prod.inject)
  ultimately have inv: "heap_inv s' [(0xFFFE8, True)]" and hb: "heap_base s' = b"
    using assms(2) by (auto simp: heap_inv_def HEAP_SIZE_def sizeof_block_def word_less_nat_alt)
  have "unat (b + HEAP_SIZE) = unat b + 0x100000"
    using le assms(2) by (simp add: HEAP_SIZE_def unat_word_ariths)
  then have "4096 * f + 4096 \<le> unat b \<or> unat b + 0x100000 \<le> 4096 * f" if "f \<in> free_set p'" for f
    using that p' le assms(2,3) used_frames_cover [of b "b + HEAP_SIZE" f] pmm.avail_bound [of p']
    by (auto simp: pmm_mark_region_used_def region_specs word_le_nat_alt)
  with inv hb le p' assms(3) show ?thesis
    by (simp add: memory_get_heap_start_def word_le_nat_alt pmm_mark_region_used_def region_specs)
qed

theorem memory_init_correct_witness:
  "heap_inv boot_heap [(0xFFFE8, True)] \<and> 0x140001 \<le> memory_get_heap_start boot_heap"
proof -
  have "memory_init 0x140001 cold_heap one_free = (boot_heap, snd (memory_init 0x140001 cold_heap one_free))"
    by (simp add: boot_heap_def)
  from memory_init_correct [OF _ _ one_free_set(2) this] show ?thesis
    by simp
qed

text \<open>C40. The rounding in \<open>kmalloc\<close> wraps: a request of \<open>2 ^ 64 - 1\<close> bytes is rounded to 0, so on
  a fresh heap the call does not fail but returns a pointer to a block of size 0.\<close>
theorem kmalloc_wraps:
  assumes "heap_inv s ((n, True) # ys)" "40 \<le> n"
  shows "\<exists>s'. kmalloc (2 ^ 64 - 1) s = Some (heap_base s + 24, s') \<and>
    heap_inv s' ((0, False) # (n - 24, True) # ys)"
proof -
  have "align_up (2 ^ 64 - 1) = 0"
    by (simp add: align_up_def BLOCK_SIZE_def)
  then show ?thesis
    using kmalloc_some [of s "[]" n ys "2 ^ 64 - 1"] assms by (auto simp: split_blk_def)
qed

theorem kmalloc_wraps_witness:
  "\<exists>s'. kmalloc (2 ^ 64 - 1) boot_heap = Some (0x141018, s') \<and> heap_inv s' [(0, False), (1048528, True)]"
  using kmalloc_wraps [OF boot_heap_inv(1)] by (simp add: boot_heap_inv(2))

end
