(* ===== verification/Vmm.thy ===== *)
theory Vmm
  imports Pmm
begin

text \<open>
  The page table manager (\<open>kernel/memory/vmm.c\<close>): address spaces are 4-level trees of 4 KiB
  tables in physical memory. \<open>pmem t i\<close> is the 64-bit word \<open>i\<close> of the frame at physical address
  \<open>t\<close>; the code only dereferences table addresses that are masked to a frame, and the kernel is
  identity mapped. Control registers and the EFER register are fields of the state, and the
  addresses given to \<open>invlpg\<close> are logged in \<open>invlpgs\<close>. A status of 0 is success, -1 failure.
\<close>

unbundle bit_operations_syntax

section \<open>Entries, indices, state\<close>

definition PTE_PRESENT :: u64 where "PTE_PRESENT = 1"
definition PTE_WRITABLE :: u64 where "PTE_WRITABLE = 2"
definition PTE_USER :: u64 where "PTE_USER = 4"
definition PTE_HUGE :: u64 where "PTE_HUGE = 0x80"
definition PTE_NX :: u64 where "PTE_NX = 0x8000000000000000"
definition PTE_PRIVATE_TABLE :: u64 where "PTE_PRIVATE_TABLE = 0x200"
definition PTE_ADDR_MASK :: u64 where "PTE_ADDR_MASK = 0x000FFFFFFFFFF000"

definition PML4_INDEX :: "u64 \<Rightarrow> nat" where
  "PML4_INDEX addr = unat (drop_bit 39 addr AND 0x1FF)"

definition PDPT_INDEX :: "u64 \<Rightarrow> nat" where
  "PDPT_INDEX addr = unat (drop_bit 30 addr AND 0x1FF)"

definition PD_INDEX :: "u64 \<Rightarrow> nat" where
  "PD_INDEX addr = unat (drop_bit 21 addr AND 0x1FF)"

definition PT_INDEX :: "u64 \<Rightarrow> nat" where
  "PT_INDEX addr = unat (drop_bit 12 addr AND 0x1FF)"

definition CPU_EXT_NX :: u32 where "CPU_EXT_NX = 0x100000"
definition EFER_NXE :: u64 where "EFER_NXE = 0x800"

record vmm_state =
  vpmm :: pmm_state
  pmem :: "u64 \<Rightarrow> nat \<Rightarrow> u64"
  cr3_reg :: u64
  efer :: u64
  invlpgs :: "u64 list"
  kernel_pml4_phys :: u64
  nx_available :: bool

definition set_entry :: "u64 \<Rightarrow> nat \<Rightarrow> u64 \<Rightarrow> vmm_state \<Rightarrow> vmm_state" where
  "set_entry t i e s = s\<lparr>pmem := (pmem s)(t := (pmem s t)(i := e))\<rparr>"

definition vmm_invlpg :: "u64 \<Rightarrow> vmm_state \<Rightarrow> vmm_state" where
  "vmm_invlpg addr s = s\<lparr>invlpgs := addr # invlpgs s\<rparr>"

definition vmm_get_cr3 :: "vmm_state \<Rightarrow> u64" where
  "vmm_get_cr3 s = cr3_reg s"

definition vmm_set_cr3 :: "u64 \<Rightarrow> vmm_state \<Rightarrow> vmm_state" where
  "vmm_set_cr3 cr3 s = s\<lparr>cr3_reg := cr3 AND PTE_ADDR_MASK\<rparr>"

definition alloc_table_page :: "vmm_state \<Rightarrow> u64 \<times> vmm_state" where
  "alloc_table_page s =
     (case pmm_alloc_page (vpmm s) of (page, q) \<Rightarrow>
        if page = 0 then (0, s\<lparr>vpmm := q\<rparr>)
        else (page, s\<lparr>vpmm := q, pmem := (pmem s)(page := (\<lambda>_. 0))\<rparr>))"

definition vmm_init :: "u32 \<Rightarrow> vmm_state \<Rightarrow> vmm_state" where
  "vmm_init ext_features s =
     (let s1 = s\<lparr>kernel_pml4_phys := vmm_get_cr3 s AND PTE_ADDR_MASK\<rparr>
      in if ext_features AND CPU_EXT_NX \<noteq> 0
         then s1\<lparr>efer := efer s1 OR EFER_NXE, nx_available := True\<rparr>
         else s1)"

definition vmm_nx_supported :: "vmm_state \<Rightarrow> bool" where
  "vmm_nx_supported s = nx_available s"

definition vmm_get_kernel_cr3 :: "vmm_state \<Rightarrow> u64" where
  "vmm_get_kernel_cr3 s = kernel_pml4_phys s"

definition vmm_create_address_space :: "vmm_state \<Rightarrow> u64 \<times> vmm_state" where
  "vmm_create_address_space s =
     (case alloc_table_page s of (pml4_page, s1) \<Rightarrow>
        if pml4_page = 0 then (0, s1)
        else (pml4_page, s1\<lparr>pmem := (pmem s1)(pml4_page := pmem s1 (kernel_pml4_phys s1))\<rparr>))"

definition copy_table_page :: "u64 \<Rightarrow> vmm_state \<Rightarrow> u64 \<times> vmm_state" where
  "copy_table_page src_phys s =
     (case pmm_alloc_page (vpmm s) of (dst, q) \<Rightarrow>
        if dst = 0 then (0, s\<lparr>vpmm := q\<rparr>)
        else (dst, s\<lparr>vpmm := q, pmem := (pmem s)(dst := pmem s src_phys)\<rparr>))"

section \<open>Mapping\<close>

definition ensure_private_entry ::
    "u64 \<Rightarrow> u64 \<Rightarrow> nat \<Rightarrow> u64 \<Rightarrow> vmm_state \<Rightarrow> int \<times> vmm_state" where
  "ensure_private_entry cr3 table idx flags s =
     (if cr3 AND PTE_ADDR_MASK = kernel_pml4_phys s then (0, s)
      else if pmem s table idx AND PTE_PRESENT = 0 then (0, s)
      else if pmem s table idx AND PTE_PRIVATE_TABLE \<noteq> 0 then (0, s)
      else case copy_table_page (pmem s table idx AND PTE_ADDR_MASK) s of (copy, s1) \<Rightarrow>
        if copy = 0 then (-1, s1)
        else (0, set_entry table idx
               (copy OR ((pmem s1 table idx OR flags OR PTE_PRIVATE_TABLE) AND NOT PTE_ADDR_MASK)) s1))"

text \<open>\<open>and_then r k\<close>: the early return of -1 when a step failed.\<close>

definition and_then :: "int \<times> vmm_state \<Rightarrow> (vmm_state \<Rightarrow> int \<times> vmm_state) \<Rightarrow> int \<times> vmm_state" where
  "and_then r k = (if fst r \<noteq> 0 then (-1, snd r) else k (snd r))"

definition ensure_entry :: "u64 \<Rightarrow> nat \<Rightarrow> u64 \<Rightarrow> u64 \<Rightarrow> vmm_state \<Rightarrow> int \<times> vmm_state" where
  "ensure_entry table idx parent_flags flags s =
     (if pmem s table idx AND PTE_PRESENT = 0 then
        (case alloc_table_page s of (page, s1) \<Rightarrow>
           if page = 0 then (-1, s1)
           else (0, set_entry table idx (page OR parent_flags OR PTE_PRIVATE_TABLE) s1))
      else if flags AND PTE_USER \<noteq> 0 then (0, set_entry table idx (pmem s table idx OR PTE_USER) s)
      else (0, s))"

definition split_huge :: "u64 \<Rightarrow> nat \<Rightarrow> u64 \<Rightarrow> vmm_state \<Rightarrow> int \<times> vmm_state" where
  "split_huge pd idx parent_flags s =
     (if pmem s pd idx AND PTE_PRESENT \<noteq> 0 \<and> pmem s pd idx AND PTE_HUGE \<noteq> 0 then
        (let huge_base = pmem s pd idx AND PTE_ADDR_MASK;
             huge_flags = pmem s pd idx AND NOT PTE_ADDR_MASK AND NOT PTE_HUGE
         in case alloc_table_page s of (pt_page, s1) \<Rightarrow>
              if pt_page = 0 then (-1, s1)
              else
                (let s2 = s1\<lparr>pmem := (pmem s1)(pt_page :=
                       (\<lambda>i. if i < 512 then (huge_base + of_nat i * PAGE_SIZE) OR huge_flags
                            else pmem s1 pt_page i))\<rparr>
                 in (0, set_entry pd idx (pt_page OR parent_flags OR PTE_PRIVATE_TABLE) s2)))
      else (0, s))"

definition vmm_map_page_in :: "u64 \<Rightarrow> u64 \<Rightarrow> u64 \<Rightarrow> u64 \<Rightarrow> vmm_state \<Rightarrow> int \<times> vmm_state" where
  "vmm_map_page_in cr3_arg virt_arg phys_arg flags_arg s0 =
     (let virt = virt_arg AND PTE_ADDR_MASK;
          phys = phys_arg AND PTE_ADDR_MASK;
          flags = flags_arg AND NOT PTE_ADDR_MASK;
          cr3 = cr3_arg AND PTE_ADDR_MASK
      in if cr3 = 0 then (-1, s0)
      else
        (let parent_flags = PTE_PRESENT OR PTE_WRITABLE OR (if flags AND PTE_USER \<noteq> 0 then PTE_USER else 0);
             pml4_idx = PML4_INDEX virt; pdpt_idx = PDPT_INDEX virt;
             pd_idx = PD_INDEX virt; pt_idx = PT_INDEX virt
         in and_then (ensure_private_entry cr3 cr3 pml4_idx parent_flags s0) (\<lambda>s.
            and_then (ensure_entry cr3 pml4_idx parent_flags flags s) (\<lambda>s.
            let pdpt = pmem s cr3 pml4_idx AND PTE_ADDR_MASK in
            and_then (ensure_private_entry cr3 pdpt pdpt_idx parent_flags s) (\<lambda>s.
            and_then (ensure_entry pdpt pdpt_idx parent_flags flags s) (\<lambda>s.
            let pd = pmem s pdpt pdpt_idx AND PTE_ADDR_MASK in
            and_then (split_huge pd pd_idx parent_flags s) (\<lambda>s.
            and_then (ensure_entry pd pd_idx parent_flags flags s) (\<lambda>s.
            let pt = pmem s pd pd_idx AND PTE_ADDR_MASK;
                s1 = set_entry pt pt_idx (phys OR flags OR PTE_PRESENT) s
            in (0, if cr3 = vmm_get_cr3 s1 AND PTE_ADDR_MASK then vmm_invlpg virt s1 else s1)))))))))"

definition vmm_map_page :: "u64 \<Rightarrow> u64 \<Rightarrow> u64 \<Rightarrow> vmm_state \<Rightarrow> int \<times> vmm_state" where
  "vmm_map_page virt phys flags s = vmm_map_page_in (kernel_pml4_phys s) virt phys flags s"

section \<open>Unmapping and walking\<close>

definition vmm_unmap_page_in :: "u64 \<Rightarrow> u64 \<Rightarrow> vmm_state \<Rightarrow> u64 \<times> vmm_state" where
  "vmm_unmap_page_in cr3_arg virt_arg s =
     (let virt = virt_arg AND PTE_ADDR_MASK; cr3 = cr3_arg AND PTE_ADDR_MASK
      in if cr3 = 0 then (0, s)
      else let e4 = pmem s cr3 (PML4_INDEX virt)
      in if e4 AND PTE_PRESENT = 0 then (0, s)
      else let e3 = pmem s (e4 AND PTE_ADDR_MASK) (PDPT_INDEX virt)
      in if e3 AND PTE_PRESENT = 0 then (0, s)
      else let e2 = pmem s (e3 AND PTE_ADDR_MASK) (PD_INDEX virt)
      in if e2 AND PTE_PRESENT = 0 then (0, s)
      else if e2 AND PTE_HUGE \<noteq> 0 then (0, s)
      else let pt = e2 AND PTE_ADDR_MASK;
               old_phys = pmem s pt (PT_INDEX virt) AND PTE_ADDR_MASK;
               s1 = set_entry pt (PT_INDEX virt) 0 s
      in (old_phys, if cr3 = vmm_get_cr3 s1 AND PTE_ADDR_MASK then vmm_invlpg virt s1 else s1))"

definition vmm_unmap_page :: "u64 \<Rightarrow> vmm_state \<Rightarrow> u64 \<times> vmm_state" where
  "vmm_unmap_page virt s = vmm_unmap_page_in (kernel_pml4_phys s) virt s"

definition vmm_get_physical_in :: "u64 \<Rightarrow> u64 \<Rightarrow> vmm_state \<Rightarrow> u64" where
  "vmm_get_physical_in cr3_arg virt s =
     (let cr3 = cr3_arg AND PTE_ADDR_MASK
      in if cr3 = 0 then 0
      else let e4 = pmem s cr3 (PML4_INDEX virt)
      in if e4 AND PTE_PRESENT = 0 then 0
      else let e3 = pmem s (e4 AND PTE_ADDR_MASK) (PDPT_INDEX virt)
      in if e3 AND PTE_PRESENT = 0 then 0
      else let e2 = pmem s (e3 AND PTE_ADDR_MASK) (PD_INDEX virt)
      in if e2 AND PTE_PRESENT = 0 then 0
      else if e2 AND PTE_HUGE \<noteq> 0 then (e2 AND PTE_ADDR_MASK) + (virt AND 0x1FFFFF)
      else let e1 = pmem s (e2 AND PTE_ADDR_MASK) (PT_INDEX virt)
      in if e1 AND PTE_PRESENT = 0 then 0
      else (e1 AND PTE_ADDR_MASK) + (virt AND 0xFFF))"

definition vmm_get_physical :: "u64 \<Rightarrow> vmm_state \<Rightarrow> u64" where
  "vmm_get_physical virt s = vmm_get_physical_in (kernel_pml4_phys s) virt s"

section \<open>Validation of user pointers\<close>

definition vmm_user_page_ok :: "u64 \<Rightarrow> u64 \<Rightarrow> vmm_state \<Rightarrow> bool" where
  "vmm_user_page_ok cr3_arg virt s =
     (let cr3 = cr3_arg AND PTE_ADDR_MASK; pu = PTE_PRESENT OR PTE_USER
      in if cr3 = 0 then False
      else let e4 = pmem s cr3 (PML4_INDEX virt)
      in if e4 AND pu \<noteq> pu then False
      else let e3 = pmem s (e4 AND PTE_ADDR_MASK) (PDPT_INDEX virt)
      in if e3 AND pu \<noteq> pu then False
      else let e2 = pmem s (e3 AND PTE_ADDR_MASK) (PD_INDEX virt)
      in if e2 AND pu \<noteq> pu then False
      else if e2 AND PTE_HUGE \<noteq> 0 then True
      else pmem s (e2 AND PTE_ADDR_MASK) (PT_INDEX virt) AND pu = pu)"

partial_function (option) user_range_loop :: "u64 \<Rightarrow> u64 \<Rightarrow> u64 \<Rightarrow> vmm_state \<Rightarrow> bool option" where
  "user_range_loop cr3 page end_addr s =
     (if page < end_addr then
        (if \<not> vmm_user_page_ok cr3 page s then Some False
         else user_range_loop cr3 (page + PAGE_SIZE) end_addr s)
      else Some True)"

declare user_range_loop.simps [code]

definition vmm_user_range_ok :: "u64 \<Rightarrow> u64 \<Rightarrow> u64 \<Rightarrow> vmm_state \<Rightarrow> bool option" where
  "vmm_user_range_ok cr3 virt sz s =
     (if sz = 0 then Some False
      else if virt + sz < virt then Some False
      else user_range_loop cr3 (virt AND NOT (PAGE_SIZE - 1)) (virt + sz) s)"

text \<open>The byte at a virtual address of the loaded address space.\<close>

definition phys_byte :: "vmm_state \<Rightarrow> u64 \<Rightarrow> u8" where
  "phys_byte s a = ucast (drop_bit (8 * unat (a AND 7))
     (pmem s (a AND NOT 0xFFF) (unat (drop_bit 3 (a AND 0xFFF)))))"

definition virt_byte :: "vmm_state \<Rightarrow> u64 \<Rightarrow> u8" where
  "virt_byte s virt = phys_byte s (vmm_get_physical_in (cr3_reg s) virt s)"

function user_strlen_loop :: "u64 \<Rightarrow> u64 \<Rightarrow> u64 \<Rightarrow> u64 \<Rightarrow> u64 \<Rightarrow> vmm_state \<Rightarrow> int" where
  "user_strlen_loop cr3 virt max_len page i s =
     (if i < max_len then
        (let addr = virt + i; this_page = addr AND NOT (PAGE_SIZE - 1)
         in if this_page \<noteq> page \<and> \<not> vmm_user_page_ok cr3 this_page s then -1
            else if virt_byte s addr = 0 then sint i
            else user_strlen_loop cr3 virt max_len this_page (i + 1) s)
      else -1)"
  by pat_completeness auto
termination
  by (relation "measure (\<lambda>(cr3, virt, max_len, page, i, s). unat max_len - unat i)")
    (auto simp: unat_inc_less word_less_nat_alt)

declare user_strlen_loop.simps [simp del]

definition vmm_user_strlen :: "u64 \<Rightarrow> u64 \<Rightarrow> u64 \<Rightarrow> vmm_state \<Rightarrow> int" where
  "vmm_user_strlen cr3 virt max_len s =
     (let page = virt AND NOT (PAGE_SIZE - 1)
      in if \<not> vmm_user_page_ok cr3 page s then -1
         else user_strlen_loop cr3 virt max_len page 0 s)"

section \<open>Tearing an address space down\<close>

text \<open>\<open>level\<close> counts the recursive levels below the table: the code calls it with 3 on a PML4.\<close>

fun free_private_tables :: "nat \<Rightarrow> u64 \<Rightarrow> vmm_state \<Rightarrow> vmm_state" where
  "free_private_tables level table s =
     fold (\<lambda>i s.
        if pmem s table i AND PTE_PRESENT = 0 then s
        else if pmem s table i AND PTE_PRIVATE_TABLE = 0 then s
        else if pmem s table i AND PTE_HUGE \<noteq> 0 then s
        else
          (let child = pmem s table i AND PTE_ADDR_MASK;
               s1 = (case level of Suc (Suc l) \<Rightarrow> free_private_tables (Suc l) child s | _ \<Rightarrow> s)
           in set_entry table i 0 (s1\<lparr>vpmm := pmm_free_page child (vpmm s1)\<rparr>)))
      [0..<512] s"

definition vmm_destroy_address_space :: "u64 \<Rightarrow> vmm_state \<Rightarrow> vmm_state" where
  "vmm_destroy_address_space cr3_arg s =
     (let cr3 = cr3_arg AND PTE_ADDR_MASK
      in if cr3 = 0 \<or> cr3 = kernel_pml4_phys s then s
         else let s1 = free_private_tables 3 cr3 s
              in s1\<lparr>vpmm := pmm_free_page cr3 (vpmm s1)\<rparr>)"

end
