(* ===== verification/PageTree.thy ===== *)
theory PageTree
  imports Vmm
begin

text \<open>
  Address spaces as trees of table frames. A level-0 table is a page table, level 1 a page
  directory, level 2 a PDPT, level 3 a PML4. \<open>foot\<close> is the set of frames of the tables below a
  table, \<open>tree\<close> says that no frame occurs twice among them and that 2 MB entries are aligned,
  and \<open>walk\<close> is the translation: the physical address and whether the leaf entry grants user
  access.
\<close>

unbundle bit_operations_syntax

type_synonym mem = "u64 \<Rightarrow> nat \<Rightarrow> u64"

section \<open>Bits of an entry\<close>

lemma entry_bits:
  "e AND PTE_PRESENT = 0 \<longleftrightarrow> \<not> bit e 0"
  "e AND PTE_USER = 0 \<longleftrightarrow> \<not> bit e 2"
  "e AND PTE_HUGE = 0 \<longleftrightarrow> \<not> bit e 7"
  "e AND PTE_PRIVATE_TABLE = 0 \<longleftrightarrow> \<not> bit e 9"
proof -
  have m: "e AND push_bit n 1 = 0 \<longleftrightarrow> \<not> bit e n" if "n < 64" for n
    using that by (auto simp: and_exp_eq_0_iff_not_bit push_bit_of_1)
  show "e AND PTE_PRESENT = 0 \<longleftrightarrow> \<not> bit e 0" "e AND PTE_USER = 0 \<longleftrightarrow> \<not> bit e 2"
    "e AND PTE_HUGE = 0 \<longleftrightarrow> \<not> bit e 7" "e AND PTE_PRIVATE_TABLE = 0 \<longleftrightarrow> \<not> bit e 9"
    using m [of 0] m [of 2] m [of 7] m [of 9]
    by (simp_all add: PTE_PRESENT_def PTE_USER_def PTE_HUGE_def PTE_PRIVATE_TABLE_def)
qed

lemma flag_bits:
  "bit PTE_PRESENT n \<longleftrightarrow> n = 0" "bit PTE_WRITABLE n \<longleftrightarrow> n = 1" "bit PTE_USER n \<longleftrightarrow> n = 2"
  "bit PTE_HUGE n \<longleftrightarrow> n = 7" "bit PTE_PRIVATE_TABLE n \<longleftrightarrow> n = 9"
proof -
  have m: "bit (push_bit k 1 :: u64) n \<longleftrightarrow> n = k" if "k < 64" for k
    using that by (auto simp: bit_exp_iff)
  have e: "PTE_PRESENT = push_bit 0 1" "PTE_WRITABLE = push_bit 1 1" "PTE_USER = push_bit 2 1"
    "PTE_HUGE = push_bit 7 1" "PTE_PRIVATE_TABLE = push_bit 9 1"
    by (simp_all add: PTE_PRESENT_def PTE_WRITABLE_def PTE_USER_def PTE_HUGE_def PTE_PRIVATE_TABLE_def)
  show "bit PTE_PRESENT n \<longleftrightarrow> n = 0" "bit PTE_WRITABLE n \<longleftrightarrow> n = 1" "bit PTE_USER n \<longleftrightarrow> n = 2"
    "bit PTE_HUGE n \<longleftrightarrow> n = 7" "bit PTE_PRIVATE_TABLE n \<longleftrightarrow> n = 9"
    unfolding e by (rule m, simp)+
qed

lemma mask_bits: "bit PTE_ADDR_MASK n \<longleftrightarrow> 12 \<le> n \<and> n < 52"
proof -
  have e: "PTE_ADDR_MASK = push_bit 12 (mask 40)"
    by (simp add: PTE_ADDR_MASK_def mask_eq_exp_minus_1)
  show ?thesis
    unfolding e by (auto simp: bit_push_bit_iff bit_mask_iff)
qed

lemma present_user_bits:
  "e AND (PTE_PRESENT OR PTE_USER) = PTE_PRESENT OR PTE_USER \<longleftrightarrow> bit e 0 \<and> bit e 2"
proof
  assume a: "e AND (PTE_PRESENT OR PTE_USER) = PTE_PRESENT OR PTE_USER"
  have "bit (e AND (PTE_PRESENT OR PTE_USER)) n" if "n = 0 \<or> n = 2" for n
    using that by (simp only: a) (auto simp: bit_or_iff flag_bits)
  then show "bit e 0 \<and> bit e 2"
    by (auto simp only: bit_and_iff)
next
  assume "bit e 0 \<and> bit e 2"
  then show "e AND (PTE_PRESENT OR PTE_USER) = PTE_PRESENT OR PTE_USER"
    by (intro bit_word_eqI) (auto simp: bit_or_iff bit_and_iff flag_bits)
qed

section \<open>Trees\<close>

definition lidx :: "nat \<Rightarrow> u64 \<Rightarrow> nat" where
  "lidx l v = unat (drop_bit (12 + 9 * l) v AND 0x1FF)"

lemma lidx_less [simp]: "lidx l v < 512"
proof -
  have "unat (drop_bit (12 + 9 * l) v AND mask 9) < 2 ^ 9"
    by (rule unat_and_mask_less)
  then show ?thesis
    by (simp add: lidx_def mask_eq_exp_minus_1)
qed

definition is_tab :: "nat \<Rightarrow> u64 \<Rightarrow> bool" where
  "is_tab l e \<longleftrightarrow> bit e 0 \<and> \<not> (l = 0 \<and> bit e 7)"

definition child :: "u64 \<Rightarrow> u64" where
  "child e = e AND PTE_ADDR_MASK"

fun foot :: "mem \<Rightarrow> nat \<Rightarrow> u64 \<Rightarrow> u64 set" where
  "foot m 0 t = {t}"
| "foot m (Suc l) t = insert t (\<Union>i \<in> {i. i < 512 \<and> is_tab l (m t i)}. foot m l (child (m t i)))"

fun tree :: "mem \<Rightarrow> nat \<Rightarrow> u64 \<Rightarrow> bool" where
  "tree m 0 t \<longleftrightarrow> True"
| "tree m (Suc l) t \<longleftrightarrow>
     (\<forall>i < 512. is_tab l (m t i) \<longrightarrow> tree m l (child (m t i)) \<and> t \<notin> foot m l (child (m t i))) \<and>
     (\<forall>i < 512. \<forall>j < 512. i \<noteq> j \<and> is_tab l (m t i) \<and> is_tab l (m t j) \<longrightarrow>
        foot m l (child (m t i)) \<inter> foot m l (child (m t j)) = {}) \<and>
     (l = 0 \<longrightarrow> (\<forall>i < 512. bit (m t i) 0 \<and> bit (m t i) 7 \<longrightarrow> m t i AND 0x1FF000 = 0))"

fun walk :: "mem \<Rightarrow> nat \<Rightarrow> u64 \<Rightarrow> u64 \<Rightarrow> (u64 \<times> bool) option" where
  "walk m 0 t v =
     (let e = m t (lidx 0 v) in if bit e 0 then Some (child e + (v AND 0xFFF), bit e 2) else None)"
| "walk m (Suc l) t v =
     (let e = m t (lidx (Suc l) v)
      in if \<not> bit e 0 then None
         else if l = 0 \<and> bit e 7 then Some (child e + (v AND 0x1FFFFF), bit e 2)
         else walk m l (child e) v)"

lemma walk_Suc:
  "walk m (Suc l) t v =
     (let e = m t (lidx (Suc l) v)
      in if is_tab l e then walk m l (child e) v
         else if bit e 0 then Some (child e + (v AND 0x1FFFFF), bit e 2) else None)"
  by (cases "l = 0") (simp_all add: is_tab_def Let_def del: walk.simps(1))

declare walk.simps(2) [simp del]

lemma root_in_foot [simp]: "t \<in> foot m l t"
  by (cases l) auto

lemma child_foot: "i < 512 \<Longrightarrow> is_tab l (m t i) \<Longrightarrow> foot m l (child (m t i)) \<subseteq> foot m (Suc l) t"
  by auto

lemma foot_cong:
  "(\<And>p. p \<in> foot m l t \<Longrightarrow> m' p = m p) \<Longrightarrow>
   foot m' l t = foot m l t \<and> tree m' l t = tree m l t \<and> walk m' l t v = walk m l t v"
proof (induction l arbitrary: t)
  case 0
  then show ?case by simp
next
  case (Suc l)
  have t: "m' t = m t"
    using Suc.prems by simp
  have c: "foot m' l (child (m t i)) = foot m l (child (m t i)) \<and>
      tree m' l (child (m t i)) = tree m l (child (m t i)) \<and>
      walk m' l (child (m t i)) v = walk m l (child (m t i)) v"
    if "i < 512" "is_tab l (m t i)" for i
    using Suc.prems child_foot [of _ l m t, OF that] by (intro Suc.IH) blast
  have "foot m' (Suc l) t = foot m (Suc l) t"
    using c by (simp add: t)
  moreover have "tree m' (Suc l) t = tree m (Suc l) t"
    using c by (auto simp: t)
  moreover have "walk m' (Suc l) t v = walk m (Suc l) t v"
    using c [of "lidx (Suc l) v"] by (simp add: t Let_def walk_Suc)
  ultimately show ?case
    by blast
qed

text \<open>The table at level \<open>k\<close> on the path of address \<open>v\<close>.\<close>

fun tab_at :: "mem \<Rightarrow> nat \<Rightarrow> u64 \<Rightarrow> u64 \<Rightarrow> nat \<Rightarrow> u64 option" where
  "tab_at m 0 t v k = (if k = 0 then Some t else None)"
| "tab_at m (Suc l) t v k =
     (if k = Suc l then Some t
      else if is_tab l (m t (lidx (Suc l) v)) then tab_at m l (child (m t (lidx (Suc l) v))) v k
      else None)"

lemma tab_at_le: "tab_at m l t v k = Some T \<Longrightarrow> k \<le> l"
  by (induction l arbitrary: t) (auto split: if_splits simp: le_Suc_eq)

lemma tab_at_foot: "tab_at m l t v k = Some T \<Longrightarrow> foot m k T \<subseteq> foot m l t"
proof (induction l arbitrary: t)
  case (Suc l)
  show ?case
  proof (cases "k = Suc l")
    case False
    with Suc have "is_tab l (m t (lidx (Suc l) v))"
      "foot m k T \<subseteq> foot m l (child (m t (lidx (Suc l) v)))"
      by (auto split: if_splits)
    with child_foot [of "lidx (Suc l) v" l m t] show ?thesis
      by (simp del: foot.simps)
  qed (use Suc in simp)
qed (auto split: if_splits)

lemma tree_tab_at: "tree m l t \<Longrightarrow> tab_at m l t v k = Some T \<Longrightarrow> tree m k T"
proof (induction l arbitrary: t)
  case (Suc l)
  show ?case
  proof (cases "k = Suc l")
    case False
    with Suc.prems have "tree m l (child (m t (lidx (Suc l) v)))"
      "tab_at m l (child (m t (lidx (Suc l) v))) v k = Some T"
      by (simp_all split: if_splits)
    then show ?thesis
      by (rule Suc.IH)
  qed (use Suc.prems in simp)
qed (auto split: if_splits)

definition agree :: "nat \<Rightarrow> nat \<Rightarrow> u64 \<Rightarrow> u64 \<Rightarrow> bool" where
  "agree k l v w \<longleftrightarrow> (\<forall>j. k < j \<and> j \<le> l \<longrightarrow> lidx j v = lidx j w)"

lemma agree_Suc: "k \<le> l \<Longrightarrow> agree k (Suc l) v w \<longleftrightarrow> lidx (Suc l) v = lidx (Suc l) w \<and> agree k l v w"
  by (auto simp: agree_def le_Suc_eq)

text \<open>A change inside the subtree at \<open>T\<close> that may take new frames from \<open>N\<close> keeps the whole tree,
  and the translation of every address that does not pass through \<open>T\<close>.\<close>

lemma tree_local:
  assumes "tab_at m l t v k = Some T" "tree m l t" "tree m' k T"
    and "foot m' k T \<subseteq> foot m k T \<union> N" "N \<inter> foot m l t = {}"
    and "\<And>p. p \<in> foot m l t \<Longrightarrow> p \<notin> foot m k T \<Longrightarrow> m' p = m p"
  shows "tree m' l t \<and> foot m' l t \<subseteq> foot m l t \<union> N \<and> tab_at m' l t v k = Some T \<and>
    (\<forall>w. walk m' l t w = (if agree k l v w then walk m' k T w else walk m l t w))"
  using assms
proof (induction l arbitrary: t)
  case 0
  then show ?case
    by (auto split: if_splits simp: agree_def)
next
  case (Suc l)
  show ?case
  proof (cases "k = Suc l")
    case True
    with Suc.prems show ?thesis
      by (auto simp: agree_def)
  next
    case False
    let ?i = "lidx (Suc l) v"
    let ?c = "child (m t ?i)"
    have tab: "is_tab l (m t ?i)" and at: "tab_at m l ?c v k = Some T"
      using Suc.prems(1) False by (auto split: if_splits)
    have kl: "k \<le> l"
      using tab_at_le [OF at] .
    note sub = tab_at_foot [OF at]
    have cf: "foot m l ?c \<subseteq> foot m (Suc l) t"
      using tab by (intro child_foot) simp_all
    have tn: "t \<notin> foot m l ?c" and tc: "tree m l ?c"
      using Suc.prems(2) tab by auto
    then have mt: "m' t = m t"
      using Suc.prems(6) [of t] sub by auto
    have ih: "tree m' l ?c \<and> foot m' l ?c \<subseteq> foot m l ?c \<union> N \<and> tab_at m' l ?c v k = Some T \<and>
        (\<forall>w. walk m' l ?c w = (if agree k l v w then walk m' k T w else walk m l ?c w))"
    proof (rule Suc.IH [OF at tc Suc.prems(3,4)])
      show "N \<inter> foot m l ?c = {}"
        using Suc.prems(5) cf by blast
      show "m' p = m p" if "p \<in> foot m l ?c" "p \<notin> foot m k T" for p
        using that cf by (intro Suc.prems(6)) blast+
    qed
    have other: "foot m' l (child (m t j)) = foot m l (child (m t j)) \<and>
        tree m' l (child (m t j)) = tree m l (child (m t j)) \<and>
        walk m' l (child (m t j)) w = walk m l (child (m t j)) w"
      if "j < 512" "is_tab l (m t j)" "j \<noteq> ?i" for j w
    proof (rule foot_cong)
      fix p assume p: "p \<in> foot m l (child (m t j))"
      have "foot m l (child (m t j)) \<inter> foot m l ?c = {}"
        using Suc.prems(2) that tab by (simp del: foot.simps)
      then show "m' p = m p"
        using p sub child_foot [of _ l m t, OF that(1,2)] by (intro Suc.prems(6)) blast+
    qed
    have nj: "foot m l (child (m t j)) \<inter> N = {}" if "j < 512" "is_tab l (m t j)" for j
      using Suc.prems(5) child_foot [of _ l m t, OF that] by blast
    have tn': "t \<notin> foot m' l ?c"
      using ih tn Suc.prems(5) root_in_foot [of t m "Suc l"] by blast
    have dis: "foot m' l ?c \<inter> foot m l (child (m t j)) = {}"
      if "j < 512" "is_tab l (m t j)" "j \<noteq> ?i" for j
    proof -
      have "foot m l (child (m t j)) \<inter> foot m l ?c = {}"
        using Suc.prems(2) that tab by (simp del: foot.simps)
      with nj [OF that(1,2)] ih show ?thesis
        by blast
    qed
    have "tree m' (Suc l) t"
      unfolding tree.simps mt
    proof (intro conjI allI impI)
      fix i assume i: "i < 512" "is_tab l (m t i)"
      show "tree m' l (child (m t i))" "t \<notin> foot m' l (child (m t i))"
        using i other [of i] ih tn' Suc.prems(2) by (cases "i = ?i"; simp)+
    next
      fix i j assume ij: "i < 512" "j < 512" "i \<noteq> j \<and> is_tab l (m t i) \<and> is_tab l (m t j)"
      show "foot m' l (child (m t i)) \<inter> foot m' l (child (m t j)) = {}"
      proof (cases "i = ?i \<or> j = ?i")
        case True
        with ij dis [of i] dis [of j] other [of i] other [of j] show ?thesis
          by auto
      next
        case False
        with ij other [of i] other [of j] Suc.prems(2) show ?thesis
          by simp
      qed
    next
      fix i assume "l = 0" "i < 512" "bit (m t i) 0 \<and> bit (m t i) 7"
      with Suc.prems(2) show "m t i AND 0x1FF000 = 0"
        by simp
    qed
    moreover have "foot m' (Suc l) t \<subseteq> foot m (Suc l) t \<union> N"
    proof -
      have "foot m' l (child (m t i)) \<subseteq> foot m (Suc l) t \<union> N" if "i < 512" "is_tab l (m t i)" for i
        using that other [of i] ih child_foot [of _ l m t, OF that] by (cases "i = ?i") blast+
      then show ?thesis
        by (auto simp: mt)
    qed
    moreover have "tab_at m' (Suc l) t v k = Some T"
      using ih False tab by (simp add: mt)
    moreover have "walk m' (Suc l) t w = (if agree k (Suc l) v w then walk m' k T w else walk m (Suc l) t w)" for w
    proof (cases "lidx (Suc l) w = ?i")
      case True
      with ih tab kl show ?thesis
        by (auto simp: mt Let_def agree_Suc walk_Suc)
    next
      case False
      with other [of "lidx (Suc l) w" w] kl show ?thesis
        by (auto simp: mt Let_def agree_Suc walk_Suc)
    qed
    ultimately show ?thesis
      by blast
  qed
qed

section \<open>Replacing one entry\<close>

lemma zero_sub:
  assumes "m c = (\<lambda>_. 0)"
  shows "tree m l c" "foot m l c = {c}" "walk m l c w = None"
  using assms by (cases l; simp add: is_tab_def walk_Suc)+

lemma copy_sub:
  assumes "tree m l d" "m' c = m d" "c \<notin> foot m l d"
    and "\<And>p. p \<in> foot m l d \<Longrightarrow> p \<noteq> d \<Longrightarrow> m' p = m p"
  shows "tree m' l c \<and> foot m' l c \<subseteq> insert c (foot m l d) \<and> walk m' l c w = walk m l d w"
proof (cases l)
  case 0
  with assms show ?thesis by simp
next
  case (Suc k)
  have ch: "foot m' k (child (m d i)) = foot m k (child (m d i)) \<and>
      tree m' k (child (m d i)) = tree m k (child (m d i)) \<and>
      walk m' k (child (m d i)) w = walk m k (child (m d i)) w"
    if i: "i < 512" "is_tab k (m d i)" for i
  proof (rule foot_cong)
    fix p assume p: "p \<in> foot m k (child (m d i))"
    have "d \<notin> foot m k (child (m d i))"
      using assms(1) i Suc by simp
    with p show "m' p = m p"
      using child_foot [of i k m d, OF i] Suc by (intro assms(4)) auto
  qed
  have sub: "foot m k (child (m d i)) \<subseteq> foot m l d" if "i < 512" "is_tab k (m d i)" for i
    using child_foot [of i k m d, OF that] Suc by simp
  have "tree m' l c"
    using assms(1-3) ch sub Suc by auto
  moreover have "foot m' l c \<subseteq> insert c (foot m l d)"
    using assms(2) ch sub Suc by auto
  moreover have "walk m' l c w = walk m l d w"
    using assms(2) ch [of "lidx (Suc k) w"] Suc by (simp add: walk_Suc Let_def)
  ultimately show ?thesis
    by blast
qed

definition old_sub :: "mem \<Rightarrow> nat \<Rightarrow> u64 \<Rightarrow> nat \<Rightarrow> u64 set" where
  "old_sub m l t i = (if is_tab l (m t i) then foot m l (child (m t i)) else {})"

lemma replace_entry:
  assumes "tree m (Suc l) t" "i < 512" "m' t = (m t)(i := e)" "is_tab l e"
    and "tree m' l (child e)" "foot m' l (child e) \<subseteq> old_sub m l t i \<union> N" "N \<inter> foot m (Suc l) t = {}"
    and "\<And>p. p \<in> foot m (Suc l) t \<Longrightarrow> p \<noteq> t \<Longrightarrow> p \<notin> old_sub m l t i \<Longrightarrow> m' p = m p"
    and "\<And>w. lidx (Suc l) w = i \<Longrightarrow> walk m' l (child e) w = walk m (Suc l) t w"
  shows "tree m' (Suc l) t \<and> foot m' (Suc l) t \<subseteq> foot m (Suc l) t \<union> N \<and>
    (\<forall>w. walk m' (Suc l) t w = walk m (Suc l) t w)"
proof -
  have sub: "foot m l (child (m t j)) \<subseteq> foot m (Suc l) t" if "j < 512" "is_tab l (m t j)" for j
    using child_foot [of j l m t, OF that] .
  have nt: "t \<notin> foot m l (child (m t j))" if "j < 512" "is_tab l (m t j)" for j
    using assms(1) that by simp
  have dis: "foot m l (child (m t j)) \<inter> old_sub m l t i = {}" if "j < 512" "is_tab l (m t j)" "j \<noteq> i" for j
    using assms(1,2) that by (auto simp: old_sub_def simp del: foot.simps)
  have other: "foot m' l (child (m t j)) = foot m l (child (m t j)) \<and>
      tree m' l (child (m t j)) = tree m l (child (m t j)) \<and>
      walk m' l (child (m t j)) w = walk m l (child (m t j)) w"
    if j: "j < 512" "is_tab l (m t j)" "j \<noteq> i" for j w
  proof (rule foot_cong)
    fix p assume "p \<in> foot m l (child (m t j))"
    with sub [OF j(1,2)] nt [OF j(1,2)] dis [OF j] show "m' p = m p"
      by (intro assms(8)) auto
  qed
  have new: "foot m' l (child e) \<inter> foot m l (child (m t j)) = {}"
    if "j < 512" "is_tab l (m t j)" "j \<noteq> i" for j
    using assms(6,7) dis [OF that] sub [OF that(1,2)] by blast
  have te: "t \<notin> foot m' l (child e)"
    using assms(2,6,7) nt [of i] root_in_foot [of t m "Suc l"]
    by (cases "is_tab l (m t i)") (auto simp: old_sub_def)
  have "tree m' (Suc l) t"
    unfolding tree.simps assms(3)
  proof (intro conjI allI impI)
    fix j assume j: "j < 512" "is_tab l (((m t)(i := e)) j)"
    show "tree m' l (child (((m t)(i := e)) j))" "t \<notin> foot m' l (child (((m t)(i := e)) j))"
      using j other [of j] te nt [of j] assms(1,5) by (cases "j = i"; simp)+
  next
    fix j k assume jk: "j < 512" "k < 512"
      "j \<noteq> k \<and> is_tab l (((m t)(i := e)) j) \<and> is_tab l (((m t)(i := e)) k)"
    show "foot m' l (child (((m t)(i := e)) j)) \<inter> foot m' l (child (((m t)(i := e)) k)) = {}"
    proof (cases "j = i \<or> k = i")
      case True
      with jk new [of j] new [of k] other [of j] other [of k] show ?thesis
        by auto
    next
      case False
      with jk other [of j] other [of k] assms(1) show ?thesis
        by simp
    qed
  next
    fix j assume "l = 0" "j < 512" "bit (((m t)(i := e)) j) 0 \<and> bit (((m t)(i := e)) j) 7"
    with assms(1,4) show "((m t)(i := e)) j AND 0x1FF000 = 0"
      by (cases "j = i") (auto simp: is_tab_def)
  qed
  moreover have "foot m' l (child (((m t)(i := e)) j)) \<subseteq> foot m (Suc l) t \<union> N"
    if "j < 512" "is_tab l (((m t)(i := e)) j)" for j
  proof (cases "j = i")
    case True
    then show ?thesis
      using assms(2,6) sub [of i] unfolding old_sub_def
      by (cases "is_tab l (m t i)") (simp_all del: foot.simps, blast+)
  next
    case False
    with that other [of j] sub [of j] show ?thesis
      by auto
  qed
  then have "foot m' (Suc l) t \<subseteq> foot m (Suc l) t \<union> N"
    unfolding foot.simps(2) [of m' l t] assms(3) by (simp add: UN_subset_iff del: foot.simps)
  moreover have "walk m' (Suc l) t w = walk m (Suc l) t w" for w
  proof (cases "lidx (Suc l) w = i")
    case True
    with assms(4,9) show ?thesis
      by (simp add: walk_Suc [of m'] assms(3) Let_def)
  next
    case False
    with other [of "lidx (Suc l) w" w] show ?thesis
      by (simp add: walk_Suc assms(3) Let_def)
  qed
  ultimately show ?thesis
    by blast
qed

end
