(* ===== verification/VmmMap.thy ===== *)
theory VmmMap
  imports PageTree
begin

text \<open>
  Correctness of the page table manager: \<open>space_ok\<close> is the invariant of an address space (its
  tables form a tree of frames that the page allocator does not consider free), every step of
  \<open>vmm_map_page_in\<close> keeps it together with all translations, and the last step changes exactly
  the translation of the page that is mapped.
\<close>

unbundle bit_operations_syntax

section \<open>Addresses and flags\<close>

lemma frame_addr_bits:
  assumes "p < MAX_PAGES" "bit (of_nat p * PAGE_SIZE) n"
  shows "12 \<le> n \<and> n < 52"
proof -
  have e: "of_nat p * PAGE_SIZE = push_bit 12 (of_nat p :: u64)"
    by (simp add: PAGE_SIZE_def push_bit_eq_mult)
  have b: "12 \<le> n" "bit (of_nat p :: u64) (n - 12)"
    using assms(2) unfolding e by (auto simp: bit_push_bit_iff)
  have "take_bit 20 (of_nat p :: u64) = of_nat p"
    using assms(1) by (simp add: MAX_PAGES_def take_bit_of_nat take_bit_nat_eq_self)
  then have "n - 12 < 20"
    using b(2) by (metis bit_take_bit_iff)
  with b show ?thesis
    by simp
qed

lemma child_frame:
  assumes "p < MAX_PAGES"
  shows "child (of_nat p * PAGE_SIZE) = of_nat p * PAGE_SIZE"
  unfolding child_def
  by (rule bit_word_eqI) (use frame_addr_bits [OF assms] in \<open>auto simp: bit_and_iff mask_bits\<close>)

definition no_addr :: "u64 \<Rightarrow> bool" where
  "no_addr f \<longleftrightarrow> f AND PTE_ADDR_MASK = 0"

lemma no_addr_bits: "no_addr f \<Longrightarrow> 12 \<le> n \<Longrightarrow> n < 52 \<Longrightarrow> \<not> bit f n"
  unfolding no_addr_def by (metis bit_0_eq bit_and_iff bot_apply bot_bool_def mask_bits)

lemma no_addrI: "(\<And>n. 12 \<le> n \<Longrightarrow> n < 52 \<Longrightarrow> \<not> bit f n) \<Longrightarrow> no_addr f"
  unfolding no_addr_def by (rule bit_word_eqI) (auto simp: bit_and_iff mask_bits)

lemma child_idem [simp]: "child (child e) = child e"
  by (simp add: child_def and.assoc)

lemma child_or: "child a = a \<Longrightarrow> no_addr f \<Longrightarrow> child (a OR f) = a"
  unfolding child_def
  by (rule bit_word_eqI) (metis bit_and_iff bit_or_iff mask_bits no_addr_bits)

lemma aligned_low_bits: "child a = a \<Longrightarrow> n < 12 \<Longrightarrow> \<not> bit a n"
  unfolding child_def by (metis bit_and_iff mask_bits not_le)

lemma alloc_addr:
  assumes "pmm_alloc_page q = (a, q')" "a \<noteq> 0"
  shows "child a = a" "frame_no a \<in> free_set q" "free_set q' = free_set q - {frame_no a}"
    "pmm_inv q \<Longrightarrow> pmm_inv q'"
proof -
  note d = pmm_alloc_page_SomeD [OF assms]
  have "frame_no a < MAX_PAGES"
    using d(1) pmm.avail_bound by blast
  then show "child a = a"
    using child_frame d(3) by metis
  show "frame_no a \<in> free_set q" "free_set q' = free_set q - {frame_no a}" "pmm_inv q \<Longrightarrow> pmm_inv q'"
    using d by auto
qed

section \<open>The invariant and its steps\<close>

definition space_ok :: "vmm_state \<Rightarrow> u64 \<Rightarrow> bool" where
  "space_ok s cr3 \<longleftrightarrow> tree (pmem s) 3 cr3 \<and> (\<forall>t \<in> foot (pmem s) 3 cr3. frame_no t \<notin> free_set (vpmm s)) \<and>
     pmm_inv (vpmm s)"

definition step_ok :: "u64 \<Rightarrow> u64 set \<Rightarrow> vmm_state \<Rightarrow> vmm_state \<Rightarrow> bool" where
  "step_ok cr3 V s s' \<longleftrightarrow> space_ok s' cr3 \<and>
     (\<forall>w. walk (pmem s') 3 cr3 w = walk (pmem s) 3 cr3 w) \<and>
     free_set (vpmm s') \<subseteq> free_set (vpmm s) \<and>
     kernel_pml4_phys s' = kernel_pml4_phys s \<and> cr3_reg s' = cr3_reg s \<and>
     (\<forall>p. frame_no p \<notin> free_set (vpmm s) \<longrightarrow> p \<notin> V \<longrightarrow> pmem s' p = pmem s p)"

lemma step_ok_refl: "space_ok s cr3 \<Longrightarrow> step_ok cr3 V s s"
  by (simp add: step_ok_def)

lemma step_ok_trans:
  "step_ok cr3 V s s1 \<Longrightarrow> step_ok cr3 W s1 s2 \<Longrightarrow> step_ok cr3 (V \<union> W) s s2"
  unfolding step_ok_def by (auto simp: subset_iff)

lemma step_ok_mono: "step_ok cr3 V s s' \<Longrightarrow> V \<subseteq> W \<Longrightarrow> step_ok cr3 W s s'"
  by (auto simp: step_ok_def)

lemma walk_tab_at:
  "tab_at m l t v k = Some T \<Longrightarrow> agree k l v w \<Longrightarrow> walk m l t w = walk m k T w"
proof (induction l arbitrary: t)
  case (Suc l)
  show ?case
  proof (cases "k = Suc l")
    case False
    with Suc.prems have at: "is_tab l (m t (lidx (Suc l) v))"
      "tab_at m l (child (m t (lidx (Suc l) v))) v k = Some T"
      by (auto split: if_splits)
    then have "agree k l v w" "lidx (Suc l) w = lidx (Suc l) v"
      using Suc.prems(2) agree_Suc [OF tab_at_le [OF at(2)], of v w] by auto
    with at Suc.IH [OF at(2)] show ?thesis
      by (simp add: walk_Suc Let_def)
  qed (use Suc.prems in simp)
qed (auto split: if_splits)

lemma tab_at_in_foot: "tab_at m l t v k = Some T \<Longrightarrow> T \<in> foot m l t"
  using tab_at_foot root_in_foot by blast

lemma install:
  assumes ok: "space_ok s cr3" and at: "tab_at (pmem s) 3 cr3 v (Suc l) = Some T"
    and m': "pmem s' T = (pmem s T)(lidx (Suc l) v := e)" "is_tab l e"
    and sub: "tree (pmem s') l (child e)"
      "foot (pmem s') l (child e) \<subseteq> old_sub (pmem s) l T (lidx (Suc l) v) \<union> N"
    and N: "\<And>a. a \<in> N \<Longrightarrow> frame_no a \<in> free_set (vpmm s) \<and> frame_no a \<notin> free_set (vpmm s')"
    and rest: "\<And>p. p \<noteq> T \<Longrightarrow> p \<notin> N \<Longrightarrow> pmem s' p = pmem s p"
    and wk: "\<And>w. lidx (Suc l) w = lidx (Suc l) v \<Longrightarrow>
      walk (pmem s') l (child e) w = walk (pmem s) (Suc l) T w"
    and st: "free_set (vpmm s') \<subseteq> free_set (vpmm s)" "pmm_inv (vpmm s')"
      "kernel_pml4_phys s' = kernel_pml4_phys s" "cr3_reg s' = cr3_reg s"
  shows "step_ok cr3 {T} s s' \<and> tab_at (pmem s') 3 cr3 v (Suc l) = Some T"
proof -
  let ?m = "pmem s" and ?m' = "pmem s'"
  have tr: "tree ?m 3 cr3" and nf: "\<And>t. t \<in> foot ?m 3 cr3 \<Longrightarrow> frame_no t \<notin> free_set (vpmm s)"
    using ok by (auto simp: space_ok_def)
  have Nd: "N \<inter> foot ?m 3 cr3 = {}"
    using N nf by blast
  have trT: "tree ?m (Suc l) T"
    using tree_tab_at [OF tr at] .
  note sf = tab_at_foot [OF at]
  have loc: "tree ?m' (Suc l) T \<and> foot ?m' (Suc l) T \<subseteq> foot ?m (Suc l) T \<union> N \<and>
      (\<forall>w. walk ?m' (Suc l) T w = walk ?m (Suc l) T w)"
  proof (rule replace_entry [OF trT lidx_less m' sub])
    show "N \<inter> foot ?m (Suc l) T = {}"
      using Nd sf by blast
    show "?m' p = ?m p" if "p \<in> foot ?m (Suc l) T" "p \<noteq> T" for p
      using that Nd sf rest by blast
  qed (rule wk)
  have glob: "tree ?m' 3 cr3 \<and> foot ?m' 3 cr3 \<subseteq> foot ?m 3 cr3 \<union> N \<and> tab_at ?m' 3 cr3 v (Suc l) = Some T \<and>
      (\<forall>w. walk ?m' 3 cr3 w = (if agree (Suc l) 3 v w then walk ?m' (Suc l) T w else walk ?m 3 cr3 w))"
  proof (rule tree_local [OF at tr _ _ Nd])
    show "?m' p = ?m p" if "p \<in> foot ?m 3 cr3" "p \<notin> foot ?m (Suc l) T" for p
      using that Nd root_in_foot [of T ?m "Suc l"] by (intro rest) blast+
  qed (use loc in blast)+
  have wall: "walk ?m' 3 cr3 w = walk ?m 3 cr3 w" for w
  proof (cases "agree (Suc l) 3 v w")
    case True
    then show ?thesis
      using glob loc walk_tab_at [OF at True] by simp
  next
    case False
    with glob show ?thesis by simp
  qed
  have nf': "frame_no t \<notin> free_set (vpmm s')" if "t \<in> foot ?m' 3 cr3" for t
  proof -
    have "t \<in> foot ?m 3 cr3 \<or> t \<in> N"
      using that glob by blast
    then show ?thesis
      using nf N st(1) by blast
  qed
  have "space_ok s' cr3"
    unfolding space_ok_def using glob nf' st(2) by blast
  moreover have "\<forall>p. frame_no p \<notin> free_set (vpmm s) \<longrightarrow> p \<notin> {T} \<longrightarrow> ?m' p = ?m p"
    using rest N by blast
  ultimately show ?thesis
    unfolding step_ok_def using wall st glob by blast
qed

lemma tab_at_down:
  "tab_at m L t v (Suc l) = Some T \<Longrightarrow> is_tab l (m T (lidx (Suc l) v)) \<Longrightarrow>
   tab_at m L t v l = Some (child (m T (lidx (Suc l) v)))"
proof (induction L arbitrary: t)
  case (Suc L)
  show ?case
  proof (cases "L = l")
    case True
    with Suc.prems tab_at_le [of m l _ v "Suc l" T] show ?thesis
      by (cases l) (auto split: if_splits)
  next
    case False
    with Suc.prems have at: "is_tab L (m t (lidx (Suc L) v))"
      "tab_at m L (child (m t (lidx (Suc L) v))) v (Suc l) = Some T"
      by (auto split: if_splits)
    moreover have "l \<noteq> Suc L"
      using tab_at_le [OF at(2)] by simp
    ultimately show ?thesis
      using Suc.IH Suc.prems(2) by simp
  qed
qed simp

lemma alloc_none_state: "pmm_alloc_page (vpmm s) = (0, q) \<Longrightarrow> s\<lparr>vpmm := q\<rparr> = s"
  using pmm.alloc_none by fastforce

lemma fresh_not_in:
  assumes "space_ok s cr3" "frame_no a \<in> free_set (vpmm s)"
  shows "a \<notin> foot (pmem s) 3 cr3"
  using assms by (auto simp: space_ok_def)

lemma copy_entry_bits:
  assumes "child a = a"
  shows "child (a OR (x AND NOT PTE_ADDR_MASK)) = a"
    "n < 12 \<Longrightarrow> bit (a OR (x AND NOT PTE_ADDR_MASK)) n \<longleftrightarrow> bit x n"
proof -
  show "child (a OR (x AND NOT PTE_ADDR_MASK)) = a"
    using assms by (intro child_or no_addrI) (auto simp: bit_and_iff bit_not_iff mask_bits)
  show "n < 12 \<Longrightarrow> bit (a OR (x AND NOT PTE_ADDR_MASK)) n \<longleftrightarrow> bit x n"
    using aligned_low_bits [OF assms, of n]
    by (auto simp: bit_and_iff bit_or_iff bit_not_iff mask_bits)
qed

lemma ensure_private_entry_step:
  assumes ok: "space_ok s cr3" and at: "tab_at (pmem s) 3 cr3 v (Suc l) = Some T" and "0 < l"
    and r: "ensure_private_entry c T (lidx (Suc l) v) f s = (r, s')"
  defines "e \<equiv> pmem s T (lidx (Suc l) v)" and "e' \<equiv> pmem s' T (lidx (Suc l) v)"
  shows "step_ok cr3 {T} s s' \<and> tab_at (pmem s') 3 cr3 v (Suc l) = Some T \<and>
    (r = 0 \<and> c AND PTE_ADDR_MASK \<noteq> kernel_pml4_phys s \<and> bit e' 0 \<longrightarrow>
       bit e' 9 \<and> (frame_no (child e') \<in> free_set (vpmm s) \<or> e' = e))"
proof (cases "c AND PTE_ADDR_MASK = kernel_pml4_phys s \<or> \<not> bit e 0 \<or> bit e 9")
  case True
  then have "r = 0" "s' = s"
    using r by (auto simp: ensure_private_entry_def entry_bits e_def split: if_splits)
  with True ok at show ?thesis
    by (auto simp: step_ok_refl e_def e'_def)
next
  case False
  obtain a q where al: "pmm_alloc_page (vpmm s) = (a, q)"
    by (cases "pmm_alloc_page (vpmm s)")
  show ?thesis
  proof (cases "a = 0")
    case True
    then have "r = -1" "s' = s"
      using r False al alloc_none_state [of s q]
      by (auto simp: ensure_private_entry_def entry_bits e_def copy_table_page_def split: if_splits)
    with ok at show ?thesis
      by (simp add: step_ok_refl)
  next
    case nz: False
    note aa = alloc_addr [OF al nz]
    have af: "a \<notin> foot (pmem s) 3 cr3"
      using fresh_not_in [OF ok aa(2)] .
    then have aT: "a \<noteq> T"
      using tab_at_in_foot [OF at] by auto
    define n where "n = a OR ((e OR f OR PTE_PRIVATE_TABLE) AND NOT PTE_ADDR_MASK)"
    have s': "s' = set_entry T (lidx (Suc l) v) n (s\<lparr>vpmm := q, pmem := (pmem s)(a := pmem s (child e))\<rparr>)"
      and r0: "r = 0"
      using r False al nz aT
      by (auto simp: ensure_private_entry_def entry_bits e_def copy_table_page_def child_def n_def
          split: if_splits)
    have nb: "child n = a" "bit n 0" "bit n 9"
      using copy_entry_bits [OF aa(1)] False by (auto simp: n_def bit_or_iff flag_bits)
    have tab: "is_tab l e" "is_tab l n"
      using False nb \<open>0 < l\<close> by (auto simp: is_tab_def)
    have tr: "tree (pmem s) (Suc l) T"
      using tree_tab_at [OF _ at] ok by (simp add: space_ok_def)
    have sub: "foot (pmem s) l (child e) \<subseteq> foot (pmem s) 3 cr3" "T \<notin> foot (pmem s) l (child e)"
      using tab_at_foot [OF at] child_foot [of "lidx (Suc l) v" l "pmem s" T] tab(1) tr
      unfolding e_def by (auto simp del: foot.simps)
    have cs: "tree (pmem s') l a \<and> foot (pmem s') l a \<subseteq> insert a (foot (pmem s) l (child e)) \<and>
        walk (pmem s') l a w = walk (pmem s) l (child e) w" for w
    proof (rule copy_sub)
      show "tree (pmem s) l (child e)"
        using tr tab(1) by (simp add: e_def)
      show "pmem s' a = pmem s (child e)" "a \<notin> foot (pmem s) l (child e)"
        using aT af sub by (auto simp: s' set_entry_def)
      show "pmem s' p = pmem s p" if "p \<in> foot (pmem s) l (child e)" for p
        using that af sub by (auto simp: s' set_entry_def)
    qed
    have "step_ok cr3 {T} s s' \<and> tab_at (pmem s') 3 cr3 v (Suc l) = Some T"
    proof (rule install [OF ok at, of s' n "{a}"])
      show "pmem s' T = (pmem s T)(lidx (Suc l) v := n)"
        using aT by (simp add: s' set_entry_def)
      show "foot (pmem s') l (child n) \<subseteq> old_sub (pmem s) l T (lidx (Suc l) v) \<union> {a}"
        using cs tab(1) nb(1) by (simp add: old_sub_def e_def)
      show "walk (pmem s') l (child n) w = walk (pmem s) (Suc l) T w"
        if "lidx (Suc l) w = lidx (Suc l) v" for w
        using cs that tab(1) nb(1) by (simp add: walk_Suc e_def)
    qed (use tab nb cs aa ok in \<open>auto simp: s' set_entry_def space_ok_def\<close>)
    moreover have "e' = n"
      by (simp add: e'_def s' set_entry_def)
    ultimately show ?thesis
      using nb aa(2) by simp
  qed
qed

definition pflags :: "u64 \<Rightarrow> bool" where
  "pflags f \<longleftrightarrow> no_addr f \<and> bit f 0 \<and> \<not> bit f 7"

lemma new_entry_bits:
  assumes "child a = a" "pflags f"
  shows "child (a OR f OR PTE_PRIVATE_TABLE) = a" "bit (a OR f OR PTE_PRIVATE_TABLE) 0"
    "bit (a OR f OR PTE_PRIVATE_TABLE) 9" "\<not> bit (a OR f OR PTE_PRIVATE_TABLE) 7"
    "is_tab l (a OR f OR PTE_PRIVATE_TABLE)"
proof -
  have "no_addr (f OR PTE_PRIVATE_TABLE)"
    using assms(2) no_addr_bits [of f] by (intro no_addrI) (auto simp: pflags_def bit_or_iff flag_bits)
  then show "child (a OR f OR PTE_PRIVATE_TABLE) = a"
    using child_or [OF assms(1)] by (simp add: or.assoc)
  show "bit (a OR f OR PTE_PRIVATE_TABLE) 0" "bit (a OR f OR PTE_PRIVATE_TABLE) 9"
    "\<not> bit (a OR f OR PTE_PRIVATE_TABLE) 7" "is_tab l (a OR f OR PTE_PRIVATE_TABLE)"
    using assms(2) aligned_low_bits [OF assms(1), of 7]
    by (auto simp: pflags_def bit_or_iff flag_bits is_tab_def)
qed

lemma or_user_bits:
  "child (e OR PTE_USER) = child e" "is_tab l (e OR PTE_USER) = is_tab l e"
  "bit (e OR PTE_USER) 9 = bit e 9" "bit (e OR PTE_USER) 0 = bit e 0"
proof -
  show "child (e OR PTE_USER) = child e"
    unfolding child_def
    by (rule bit_word_eqI) (auto simp: bit_and_iff bit_or_iff flag_bits mask_bits)
  show "is_tab l (e OR PTE_USER) = is_tab l e" "bit (e OR PTE_USER) 9 = bit e 9"
    "bit (e OR PTE_USER) 0 = bit e 0"
    by (auto simp: is_tab_def bit_or_iff flag_bits)
qed

lemma ensure_entry_step:
  assumes ok: "space_ok s cr3" and at: "tab_at (pmem s) 3 cr3 v (Suc l) = Some T"
    and pf: "pflags pf" and r: "ensure_entry T (lidx (Suc l) v) pf fl s = (r, s')"
  defines "e \<equiv> pmem s T (lidx (Suc l) v)" and "e' \<equiv> pmem s' T (lidx (Suc l) v)"
  assumes nh: "bit e 0 \<Longrightarrow> is_tab l e"
  shows "step_ok cr3 {T} s s' \<and>
    (r = 0 \<longrightarrow> tab_at (pmem s') 3 cr3 v (Suc l) = Some T \<and> is_tab l e' \<and>
       (if bit e 0 then child e' = child e \<and> bit e' 9 = bit e 9
        else bit e' 9 \<and> frame_no (child e') \<in> free_set (vpmm s)))"
proof (cases "bit e 0")
  case True
  note tab = nh [OF True]
  have r0: "r = 0" and s': "s' = (if fl AND PTE_USER \<noteq> 0 then set_entry T (lidx (Suc l) v) (e OR PTE_USER) s else s)"
    using r True by (auto simp: ensure_entry_def entry_bits e_def split: if_splits)
  have tr: "tree (pmem s) (Suc l) T"
    using tree_tab_at [OF _ at] ok by (simp add: space_ok_def)
  have T: "T \<notin> foot (pmem s) l (child e)" and trc: "tree (pmem s) l (child e)"
    using tr tab by (auto simp: e_def)
  have fc: "foot (pmem (set_entry T i x s)) l (child e) = foot (pmem s) l (child e) \<and>
      tree (pmem (set_entry T i x s)) l (child e) = tree (pmem s) l (child e) \<and>
      walk (pmem (set_entry T i x s)) l (child e) w = walk (pmem s) l (child e) w" for i x w
    by (rule foot_cong) (use T in \<open>auto simp: set_entry_def\<close>)
  have "step_ok cr3 {T} s (set_entry T (lidx (Suc l) v) (e OR PTE_USER) s) \<and>
      tab_at (pmem (set_entry T (lidx (Suc l) v) (e OR PTE_USER) s)) 3 cr3 v (Suc l) = Some T"
  proof (rule install [OF ok at, of _ "e OR PTE_USER" "{}"])
    show "walk (pmem (set_entry T (lidx (Suc l) v) (e OR PTE_USER) s)) l (child (e OR PTE_USER)) w =
        walk (pmem s) (Suc l) T w" if "lidx (Suc l) w = lidx (Suc l) v" for w
      using that tab fc by (simp add: or_user_bits walk_Suc e_def)
  qed (use tab fc trc ok in \<open>auto simp: or_user_bits old_sub_def e_def set_entry_def space_ok_def\<close>)
  with True tab ok at show ?thesis
    by (auto simp: s' e'_def e_def step_ok_refl or_user_bits set_entry_def)
next
  case False
  obtain a q where al: "pmm_alloc_page (vpmm s) = (a, q)"
    by (cases "pmm_alloc_page (vpmm s)")
  show ?thesis
  proof (cases "a = 0")
    case True
    then have "r = -1" "s' = s"
      using r False al alloc_none_state [of s q]
      by (auto simp: ensure_entry_def entry_bits e_def alloc_table_page_def)
    with ok show ?thesis
      by (simp add: step_ok_refl)
  next
    case nz: False
    note aa = alloc_addr [OF al nz]
    have aT: "a \<noteq> T"
      using fresh_not_in [OF ok aa(2)] tab_at_in_foot [OF at] by auto
    define n where "n = a OR pf OR PTE_PRIVATE_TABLE"
    have s': "s' = set_entry T (lidx (Suc l) v) n (s\<lparr>vpmm := q, pmem := (pmem s)(a := (\<lambda>_. 0))\<rparr>)"
      and r0: "r = 0"
      using r False al nz by (auto simp: ensure_entry_def entry_bits e_def alloc_table_page_def n_def)
    note nb = new_entry_bits [OF aa(1) pf, folded n_def]
    have z: "pmem s' a = (\<lambda>_. 0)"
      using aT by (simp add: s' set_entry_def)
    have "step_ok cr3 {T} s s' \<and> tab_at (pmem s') 3 cr3 v (Suc l) = Some T"
    proof (rule install [OF ok at, of s' n "{a}"])
      show "pmem s' T = (pmem s T)(lidx (Suc l) v := n)"
        using aT by (simp add: s' set_entry_def)
      show "walk (pmem s') l (child n) w = walk (pmem s) (Suc l) T w"
        if "lidx (Suc l) w = lidx (Suc l) v" for w
        using zero_sub(3) [of "pmem s'" a l w, OF z] False that nb(1)
        by (auto simp: walk_Suc e_def is_tab_def Let_def)
    qed (use nb zero_sub [of "pmem s'" a, OF z] aa ok in \<open>auto simp: s' set_entry_def space_ok_def\<close>)
    moreover have "e' = n"
      by (simp add: e'_def s' set_entry_def)
    ultimately show ?thesis
      using nb aa(2) False by simp
  qed
qed

section \<open>Splitting a 2 MB page\<close>

lemma const_masks:
  "(0x1FF000 :: u64) = push_bit 12 (mask 9)" "(0xFFF :: u64) = mask 12" "(0x1FFFFF :: u64) = mask 21"
  by (simp_all add: mask_eq_exp_minus_1)

lemma pt_index_part: "of_nat (lidx 0 w) * PAGE_SIZE = w AND 0x1FF000"
proof -
  have "of_nat (lidx 0 w) = drop_bit 12 w AND (mask 9 :: u64)"
    by (simp add: lidx_def mask_eq_exp_minus_1)
  moreover have "PAGE_SIZE = 2 ^ 12"
    by (simp add: PAGE_SIZE_def)
  ultimately have "of_nat (lidx 0 w) * PAGE_SIZE = push_bit 12 (drop_bit 12 w AND (mask 9 :: u64))"
    by (simp only: push_bit_eq_mult)
  also have "\<dots> = w AND 0x1FF000"
    unfolding const_masks by (rule bit_word_eqI) (auto simp: bit_simps)
  finally show ?thesis .
qed

lemma const_bits: "bit (0x1FF000 :: u64) n \<longleftrightarrow> 12 \<le> n \<and> n < 21"
  unfolding const_masks by (auto simp: bit_push_bit_iff bit_mask_iff)

lemma part_bits:
  "bit (w AND 0x1FF000 :: u64) n \<longleftrightarrow> bit w n \<and> 12 \<le> n \<and> n < 21"
  "bit (w AND 0xFFF :: u64) n \<longleftrightarrow> bit w n \<and> n < 12"
  "bit (w AND 0x1FFFFF :: u64) n \<longleftrightarrow> bit w n \<and> n < 21"
  unfolding const_masks by (auto simp: bit_and_iff bit_push_bit_iff bit_mask_iff)

lemma child_bits: "bit (child e) n \<longleftrightarrow> bit e n \<and> 12 \<le> n \<and> n < 52"
  by (simp add: child_def bit_and_iff mask_bits)

lemma part_sum: "(w AND 0x1FF000) + (w AND 0xFFF) = (w AND 0x1FFFFF :: u64)"
proof -
  have "(w AND 0x1FF000) + (w AND 0xFFF) = (w AND 0x1FF000) OR (w AND 0xFFF :: u64)"
    by (rule disjunctive_add) (simp only: part_bits, linarith)
  also have "\<dots> = w AND 0x1FFFFF"
    by (rule bit_word_eqI) (simp only: part_bits bit_or_iff, linarith)
  finally show ?thesis .
qed

lemma split_entry:
  assumes "e AND 0x1FF000 = 0" "bit e 0"
    and n: "n = (child e + of_nat (lidx 0 w) * PAGE_SIZE) OR (e AND NOT PTE_ADDR_MASK AND NOT PTE_HUGE)"
  shows "bit n 0" "bit n 2 = bit e 2" "child n + (w AND 0xFFF) = child e + (w AND 0x1FFFFF)"
proof -
  have z: "\<not> (bit e n \<and> 12 \<le> n \<and> n < 21)" for n
    using part_bits(1) [of e n] unfolding assms(1) by simp
  have sum: "child e + (w AND 0x1FF000) = child e OR (w AND 0x1FF000)"
    by (rule disjunctive_add) (use z in \<open>simp only: part_bits child_bits, blast\<close>)
  have n': "n = (child e OR (w AND 0x1FF000)) OR (e AND NOT PTE_ADDR_MASK AND NOT PTE_HUGE)"
    by (simp only: n pt_index_part sum)
  have nb: "bit n i \<longleftrightarrow> (bit e i \<and> 12 \<le> i \<and> i < 52) \<or> (bit w i \<and> 12 \<le> i \<and> i < 21) \<or>
      (bit e i \<and> \<not> (12 \<le> i \<and> i < 52) \<and> i \<noteq> 7)" if "i < 64" for i
    using that unfolding n' by (simp only: bit_or_iff child_bits const_bits bit_and_iff bit_not_iff
      mask_bits flag_bits) auto
  have "child n = child e OR (w AND 0x1FF000)"
  proof (rule bit_word_eqI)
    fix i assume "i < LENGTH(64)"
    then have "i < 64" by simp
    then show "bit (child n) i \<longleftrightarrow> bit (child e OR (w AND 0x1FF000)) i"
      using nb [of i] by (simp only: child_bits part_bits bit_or_iff) auto
  qed
  then show "child n + (w AND 0xFFF) = child e + (w AND 0x1FFFFF)"
    unfolding part_sum [symmetric] by (simp only: sum [symmetric] add.assoc)
  show "bit n 0" "bit n 2 = bit e 2"
    using assms(2) nb [of 0] nb [of 2] by simp_all
qed

lemma split_huge_step:
  assumes ok: "space_ok s cr3" and at: "tab_at (pmem s) 3 cr3 v (Suc 0) = Some T"
    and pf: "pflags pf" and r: "split_huge T (lidx (Suc 0) v) pf s = (r, s')"
  defines "e \<equiv> pmem s T (lidx (Suc 0) v)" and "e' \<equiv> pmem s' T (lidx (Suc 0) v)"
  shows "step_ok cr3 {T} s s' \<and>
    (r = 0 \<longrightarrow> tab_at (pmem s') 3 cr3 v (Suc 0) = Some T \<and> (bit e' 0 \<longrightarrow> is_tab 0 e') \<and>
       (if bit e 0 \<and> bit e 7 then bit e' 0 \<and> bit e' 9 \<and> frame_no (child e') \<in> free_set (vpmm s)
        else e' = e))"
proof (cases "bit e 0 \<and> bit e 7")
  case False
  then have "r = 0" "s' = s"
    using r by (auto simp: split_huge_def entry_bits e_def split: if_splits)
  with False ok at show ?thesis
    by (auto simp: step_ok_refl e_def e'_def is_tab_def)
next
  case True
  obtain a q where al: "pmm_alloc_page (vpmm s) = (a, q)"
    by (cases "pmm_alloc_page (vpmm s)")
  show ?thesis
  proof (cases "a = 0")
    case z: True
    then have "r = -1" "s' = s"
      using r True al alloc_none_state [of s q]
      by (auto simp: split_huge_def entry_bits e_def alloc_table_page_def)
    with ok show ?thesis
      by (simp add: step_ok_refl)
  next
    case nz: False
    note aa = alloc_addr [OF al nz]
    have aT: "a \<noteq> T"
      using fresh_not_in [OF ok aa(2)] tab_at_in_foot [OF at] by auto
    define n where "n = a OR pf OR PTE_PRIVATE_TABLE"
    define F where "F = (\<lambda>i. if i < 512 then (child e + of_nat i * PAGE_SIZE) OR
        (e AND NOT PTE_ADDR_MASK AND NOT PTE_HUGE) else 0)"
    have s': "s' = set_entry T (lidx (Suc 0) v) n (s\<lparr>vpmm := q, pmem := (pmem s)(a := F)\<rparr>)"
      and r0: "r = 0"
      using r True al nz
      by (auto simp: split_huge_def entry_bits e_def alloc_table_page_def n_def F_def child_def Let_def
          cong: if_cong)
    note nb = new_entry_bits [OF aa(1) pf, folded n_def]
    have ma: "pmem s' a = F"
      using aT by (simp add: s' set_entry_def)
    have "tree (pmem s) (Suc 0) T"
      using tree_tab_at [OF _ at] ok by (simp add: space_ok_def)
    then have al2: "e AND 0x1FF000 = 0"
      using True by (simp add: e_def)
    have wa: "walk (pmem s') 0 a w = Some (child e + (w AND 0x1FFFFF), bit e 2)" for w
      using split_entry [OF al2 _ refl, of w] True by (simp add: ma F_def)
    have "step_ok cr3 {T} s s' \<and> tab_at (pmem s') 3 cr3 v (Suc 0) = Some T"
    proof (rule install [OF ok at, of s' n "{a}"])
      show "pmem s' T = (pmem s T)(lidx (Suc 0) v := n)"
        using aT by (simp add: s' set_entry_def)
      show "walk (pmem s') 0 (child n) w = walk (pmem s) (Suc 0) T w"
        if "lidx (Suc 0) w = lidx (Suc 0) v" for w
        using wa True that nb(1) by (simp add: walk_Suc e_def is_tab_def Let_def del: walk.simps)
    qed (use nb aa ok in \<open>auto simp: s' set_entry_def space_ok_def\<close>)
    moreover have "e' = n"
      by (simp add: e'_def s' set_entry_def)
    ultimately show ?thesis
      using nb aa(2) True by simp
  qed
qed

section \<open>The whole mapping operation\<close>

definition same_page :: "u64 \<Rightarrow> u64 \<Rightarrow> bool" where
  "same_page v w \<longleftrightarrow> lidx 3 v = lidx 3 w \<and> lidx 2 v = lidx 2 w \<and> lidx 1 v = lidx 1 w \<and> lidx 0 v = lidx 0 w"

lemma same_page_agree: "same_page v w \<longleftrightarrow> agree 0 3 v w \<and> lidx 0 v = lidx 0 w"
proof -
  have "agree 0 3 v w \<longleftrightarrow> lidx 3 v = lidx 3 w \<and> lidx 2 v = lidx 2 w \<and> lidx 1 v = lidx 1 w"
  proof -
    have "0 < j \<and> j \<le> 3 \<longleftrightarrow> j = 3 \<or> j = 2 \<or> j = (1 :: nat)" for j
      by auto
    then show ?thesis
      unfolding agree_def by (simp only:) blast
  qed
  then show ?thesis
    by (auto simp: same_page_def)
qed

lemma index_lidx:
  "PML4_INDEX v = lidx 3 v" "PDPT_INDEX v = lidx 2 v" "PD_INDEX v = lidx 1 v" "PT_INDEX v = lidx 0 v"
  by (simp_all add: PML4_INDEX_def PDPT_INDEX_def PD_INDEX_def PT_INDEX_def lidx_def)

lemma lidx_masked:
  assumes "l \<le> 3"
  shows "lidx l (v AND PTE_ADDR_MASK) = lidx l v"
proof -
  have "drop_bit (12 + 9 * l) (v AND PTE_ADDR_MASK) AND mask 9 = drop_bit (12 + 9 * l) v AND (mask 9 :: u64)"
    by (rule bit_word_eqI) (use assms in \<open>auto simp: bit_and_iff bit_drop_bit_eq bit_mask_iff mask_bits\<close>)
  then show ?thesis
    by (simp add: lidx_def mask_eq_exp_minus_1)
qed

lemma set_leaf:
  assumes ok: "space_ok s cr3" and at: "tab_at (pmem s) 3 cr3 v 0 = Some T"
    and s'_def: "s' = set_entry T (lidx 0 v) n s"
  shows "space_ok s' cr3 \<and>
    (\<forall>w. walk (pmem s') 3 cr3 w =
      (if same_page v w then if bit n 0 then Some (child n + (w AND 0xFFF), bit n 2) else None
       else walk (pmem s) 3 cr3 w))"
proof -
  let ?m = "pmem s" and ?m' = "pmem s'"
  have tr: "tree ?m 3 cr3"
    using ok by (simp add: space_ok_def)
  have mT: "?m' T = (?m T)(lidx 0 v := n)" "\<And>p. p \<noteq> T \<Longrightarrow> ?m' p = ?m p"
    by (simp_all add: s'_def set_entry_def)
  have glob: "tree ?m' 3 cr3 \<and> foot ?m' 3 cr3 \<subseteq> foot ?m 3 cr3 \<union> {} \<and> tab_at ?m' 3 cr3 v 0 = Some T \<and>
      (\<forall>w. walk ?m' 3 cr3 w = (if agree 0 3 v w then walk ?m' 0 T w else walk ?m 3 cr3 w))"
    by (rule tree_local [OF at tr]) (use mT in auto)
  have "walk ?m' 3 cr3 w =
      (if same_page v w then if bit n 0 then Some (child n + (w AND 0xFFF), bit n 2) else None
       else walk ?m 3 cr3 w)" for w
  proof (cases "agree 0 3 v w")
    case True
    then have "walk ?m 3 cr3 w = walk ?m 0 T w"
      by (rule walk_tab_at [OF at])
    with True glob show ?thesis
      by (cases "lidx 0 v = lidx 0 w") (auto simp: same_page_agree mT(1) Let_def)
  next
    case False
    with glob show ?thesis
      by (simp add: same_page_agree)
  qed
  moreover have "space_ok s' cr3"
    using ok glob by (auto simp: space_ok_def s'_def set_entry_def)
  ultimately show ?thesis
    by blast
qed

lemma and_then_assoc: "and_then (and_then p k) f = and_then p (\<lambda>s. and_then (k s) f)"
  by (simp add: and_then_def)

lemma and_then_cases:
  assumes "and_then p k = (r, s')"
  obtains (stop) s1 r1 where "p = (r1, s1)" "r1 \<noteq> 0" "r = -1" "s' = s1"
  | (go) s1 where "p = (0, s1)" "k s1 = (r, s')"
  using assms by (cases p) (auto simp: and_then_def split: if_splits)

lemma descend:
  assumes ok: "space_ok s cr3" and at: "tab_at (pmem s) 3 cr3 v (Suc l) = Some T" and "0 < l" "pflags pf"
    and r: "and_then (ensure_private_entry c T (lidx (Suc l) v) pf s)
              (ensure_entry T (lidx (Suc l) v) pf fl) = (r, s')"
  defines "e \<equiv> pmem s T (lidx (Suc l) v)" and "e' \<equiv> pmem s' T (lidx (Suc l) v)"
  shows "step_ok cr3 {T} s s' \<and>
    (r = 0 \<longrightarrow> tab_at (pmem s') 3 cr3 v (Suc l) = Some T \<and> tab_at (pmem s') 3 cr3 v l = Some (child e') \<and>
      (c AND PTE_ADDR_MASK \<noteq> kernel_pml4_phys s \<longrightarrow> bit e' 9 \<and>
        (frame_no (child e') \<in> free_set (vpmm s) \<or> bit e 0 \<and> bit e 9 \<and> child e' = child e)))"
  using r
proof (cases rule: and_then_cases)
  case (stop s1 r1)
  with ensure_private_entry_step [OF ok at \<open>0 < l\<close> stop(1)] show ?thesis
    by simp
next
  case (go s1)
  let ?e1 = "pmem s1 T (lidx (Suc l) v)"
  have a: "step_ok cr3 {T} s s1" "tab_at (pmem s1) 3 cr3 v (Suc l) = Some T"
    "c AND PTE_ADDR_MASK \<noteq> kernel_pml4_phys s \<Longrightarrow> bit ?e1 0 \<Longrightarrow>
       bit ?e1 9 \<and> (frame_no (child ?e1) \<in> free_set (vpmm s) \<or> ?e1 = e)"
    using ensure_private_entry_step [OF ok at \<open>0 < l\<close> go(1)] by (auto simp: e_def)
  have ok1: "space_ok s1 cr3" and fs: "free_set (vpmm s1) \<subseteq> free_set (vpmm s)"
    using a(1) by (auto simp: step_ok_def)
  have "bit ?e1 0 \<Longrightarrow> is_tab l ?e1"
    using \<open>0 < l\<close> by (simp add: is_tab_def)
  note b = ensure_entry_step [OF ok1 a(2) \<open>pflags pf\<close> go(2) this]
  have "step_ok cr3 {T} s s'"
    using step_ok_trans [OF a(1), of "{T}" s'] b by simp
  moreover have "c AND PTE_ADDR_MASK \<noteq> kernel_pml4_phys s \<longrightarrow> bit e' 9 \<and>
        (frame_no (child e') \<in> free_set (vpmm s) \<or> bit e 0 \<and> bit e 9 \<and> child e' = child e)" if "r = 0"
    using a(3) b that fs unfolding e'_def by (cases "bit ?e1 0") auto
  moreover have "tab_at (pmem s') 3 cr3 v l = Some (child e')" if "r = 0"
    using b that tab_at_down [of "pmem s'" 3 cr3 v l T] unfolding e'_def by blast
  ultimately show ?thesis
    using b by blast
qed

lemma descend_pd:
  assumes ok: "space_ok s cr3" and at: "tab_at (pmem s) 3 cr3 v (Suc 0) = Some T" and "pflags pf"
    and r: "and_then (split_huge T (lidx (Suc 0) v) pf s) (ensure_entry T (lidx (Suc 0) v) pf fl) = (r, s')"
  defines "e \<equiv> pmem s T (lidx (Suc 0) v)" and "e' \<equiv> pmem s' T (lidx (Suc 0) v)"
  shows "step_ok cr3 {T} s s' \<and>
    (r = 0 \<longrightarrow> tab_at (pmem s') 3 cr3 v (Suc 0) = Some T \<and> tab_at (pmem s') 3 cr3 v 0 = Some (child e') \<and>
      (frame_no (child e') \<in> free_set (vpmm s) \<and> bit e' 9 \<or>
       is_tab 0 e \<and> child e' = child e \<and> bit e' 9 = bit e 9))"
  using r
proof (cases rule: and_then_cases)
  case (stop s1 r1)
  with split_huge_step [OF ok at \<open>pflags pf\<close> stop(1)] show ?thesis
    by simp
next
  case (go s1)
  let ?e1 = "pmem s1 T (lidx (Suc 0) v)"
  note a = split_huge_step [OF ok at \<open>pflags pf\<close> go(1), folded e_def, simplified]
  have ok1: "space_ok s1 cr3" and fs: "free_set (vpmm s1) \<subseteq> free_set (vpmm s)"
    and nh: "bit ?e1 0 \<Longrightarrow> is_tab 0 ?e1" and at1: "tab_at (pmem s1) 3 cr3 v (Suc 0) = Some T"
    and st1: "step_ok cr3 {T} s s1"
    using a by (auto simp: step_ok_def)
  note b = ensure_entry_step [OF ok1 at1 \<open>pflags pf\<close> go(2) nh]
  have "step_ok cr3 {T} s s'"
    using step_ok_trans [OF st1, of "{T}" s'] b by simp
  moreover have "frame_no (child e') \<in> free_set (vpmm s) \<and> bit e' 9 \<or>
       is_tab 0 e \<and> child e' = child e \<and> bit e' 9 = bit e 9" if "r = 0"
    using a b that fs unfolding e'_def
    by (cases "bit e 0 \<and> bit e 7"; cases "bit ?e1 0") (auto simp: is_tab_def)
  moreover have "tab_at (pmem s') 3 cr3 v 0 = Some (child e')" if "r = 0"
    using b that tab_at_down [of "pmem s'" 3 cr3 v 0 T] unfolding e'_def by blast
  ultimately show ?thesis
    using b by blast
qed

lemma parent_pflags: "pflags (PTE_PRESENT OR PTE_WRITABLE OR (if b then PTE_USER else 0))"
  unfolding pflags_def by (auto intro!: no_addrI simp: bit_or_iff flag_bits)

lemma numeral_levels: "(3 :: nat) = Suc 2" "(2 :: nat) = Suc 1" "(1 :: nat) = Suc 0"
  by simp_all

lemma map_page_path:
  assumes c: "child cr3 = c" "c \<noteq> 0" and ok: "space_ok s0 c"
    and r: "vmm_map_page_in cr3 virt phys flags s0 = (r, s')"
  obtains (fail) V where "r = -1" "step_ok c V s0 s'"
  | (mapped) s1 pt V where "r = 0" "step_ok c V s0 s1" "tab_at (pmem s1) 3 c virt 0 = Some pt"
      "pmem s' = pmem (set_entry pt (lidx 0 virt) (child phys OR (flags AND NOT PTE_ADDR_MASK) OR PTE_PRESENT) s1)"
      "vpmm s' = vpmm s1" "kernel_pml4_phys s' = kernel_pml4_phys s1" "cr3_reg s' = cr3_reg s1"
proof -
  define fl where "fl = flags AND NOT PTE_ADDR_MASK"
  define pf where "pf = PTE_PRESENT OR PTE_WRITABLE OR (if fl AND PTE_USER \<noteq> 0 then PTE_USER else 0)"
  have pfl: "pflags pf"
    unfolding pf_def by (rule parent_pflags)
  define last where "last pt s = (let s1 = set_entry pt (lidx 0 virt) (child phys OR fl OR PTE_PRESENT) s
      in (0 :: int, if c = child (vmm_get_cr3 s1) then vmm_invlpg (child virt) s1 else s1))"
    for pt s
  have lm: "lidx 3 (child virt) = lidx 3 virt" "lidx 2 (child virt) = lidx 2 virt"
    "lidx 1 (child virt) = lidx 1 virt" "lidx 0 (child virt) = lidx 0 virt"
    by (simp_all add: child_def lidx_masked)
  have eq: "and_then (and_then (ensure_private_entry c c (lidx 3 virt) pf s0) (ensure_entry c (lidx 3 virt) pf fl))
     (\<lambda>s. let pdpt = child (pmem s c (lidx 3 virt)) in
      and_then (and_then (ensure_private_entry c pdpt (lidx 2 virt) pf s) (ensure_entry pdpt (lidx 2 virt) pf fl))
     (\<lambda>s. let pd = child (pmem s pdpt (lidx 2 virt)) in
      and_then (and_then (split_huge pd (lidx 1 virt) pf s) (ensure_entry pd (lidx 1 virt) pf fl))
     (\<lambda>s. last (child (pmem s pd (lidx 1 virt))) s))) = (r, s')"
    using r c(2) unfolding vmm_map_page_in_def Let_def index_lidx child_def [symmetric] c(1) lm
      last_def pf_def fl_def and_then_assoc
    by (simp only: if_False)
  have at0: "tab_at (pmem s0) 3 c virt (Suc 2) = Some c"
    by (simp add: numeral_3_eq_3)
  show thesis
    using eq
  proof (cases rule: and_then_cases)
    case (stop s1 r1)
    with descend [OF ok at0 _ pfl, of c fl r1 s1] show thesis
      by (intro fail) auto
  next
    case g1: (go s1)
    define pdpt where "pdpt = child (pmem s1 c (lidx 3 virt))"
    have d1: "step_ok c {c} s0 s1" "tab_at (pmem s1) 3 c virt (Suc 1) = Some pdpt"
      using descend [OF ok at0 _ pfl, of c fl 0 s1] g1(1) unfolding pdpt_def by (simp_all add: numeral_3_eq_3 numeral_2_eq_2)
    have ok1: "space_ok s1 c"
      using d1(1) by (simp add: step_ok_def)
    from g1(2) show thesis
      unfolding Let_def pdpt_def [symmetric]
    proof (cases rule: and_then_cases)
      case (stop s2 r2)
      with descend [OF ok1 d1(2) _ pfl, of c fl r2 s2] step_ok_trans [OF d1(1)] show thesis
        by (intro fail) (auto simp: numeral_2_eq_2)
    next
      case g2: (go s2)
      define pd where "pd = child (pmem s2 pdpt (lidx 2 virt))"
      have d2: "step_ok c {pdpt} s1 s2" "tab_at (pmem s2) 3 c virt (Suc 0) = Some pd"
        using descend [OF ok1 d1(2) _ pfl, of c fl 0 s2] g2(1) unfolding pd_def
        by (simp_all add: numeral_2_eq_2)
      have ok2: "space_ok s2 c"
        using d2(1) by (simp add: step_ok_def)
      from g2(2) show thesis
        unfolding pd_def [symmetric]
      proof (cases rule: and_then_cases)
        case (stop s3 r3)
        with descend_pd [OF ok2 d2(2) pfl, of fl r3 s3]
          step_ok_trans [OF step_ok_trans [OF d1(1) d2(1)]] show thesis
          by (intro fail) auto
      next
        case g3: (go s3)
        have d3: "step_ok c {pd} s2 s3" "tab_at (pmem s3) 3 c virt 0 = Some (child (pmem s3 pd (lidx 1 virt)))"
          using descend_pd [OF ok2 d2(2) pfl, of fl 0 s3] g3(1) by simp_all
        note st = step_ok_trans [OF step_ok_trans [OF d1(1) d2(1)] d3(1)]
        from g3(2) show thesis
          by (intro mapped [OF _ st d3(2)])
            (auto simp: last_def Let_def vmm_invlpg_def set_entry_def fl_def split: if_splits)
      qed
    qed
  qed
qed

lemma get_physical_walk:
  assumes "child cr3 \<noteq> 0"
  shows "vmm_get_physical_in cr3 v s =
    (case walk (pmem s) 3 (child cr3) v of None \<Rightarrow> 0 | Some (a, u) \<Rightarrow> a)"
proof -
  have "walk (pmem s) 3 (child cr3) v = walk (pmem s) (Suc (Suc (Suc 0))) (child cr3) v"
    by (simp only: numeral_3_eq_3)
  then show ?thesis
    using assms unfolding vmm_get_physical_in_def index_lidx child_def [symmetric] Let_def entry_bits
    by (simp add: walk_Suc is_tab_def Let_def numeral_3_eq_3 numeral_2_eq_2)
qed

section \<open>Properties\<close>

text \<open>C2. \<open>vmm_map_page_in\<close> on a well-formed address space returns 0 or -1 and leaves it well
  formed. On success the 4 KiB page of \<open>virt\<close> translates to \<open>phys\<close>; the translation of every
  other page is unchanged, although tables are copied and 2 MB pages are split on the way. On
  failure no translation changes.\<close>
theorem vmm_map_page_in_correct:
  assumes "child cr3 \<noteq> 0" "space_ok s (child cr3)"
    and "vmm_map_page_in cr3 virt phys flags s = (r, s')"
  shows "(r = 0 \<or> r = -1) \<and> space_ok s' (child cr3) \<and>
    (\<forall>w. vmm_get_physical_in cr3 w s' =
      (if r = 0 \<and> same_page virt w then (phys AND PTE_ADDR_MASK) + (w AND 0xFFF)
       else vmm_get_physical_in cr3 w s))"
  using refl assms(1-3)
proof (cases rule: map_page_path)
  case (fail V)
  then show ?thesis
    using assms(1) by (simp add: step_ok_def get_physical_walk)
next
  case (mapped s1 pt V)
  define n where "n = child phys OR (flags AND NOT PTE_ADDR_MASK) OR PTE_PRESENT"
  have "no_addr ((flags AND NOT PTE_ADDR_MASK) OR PTE_PRESENT)"
    by (rule no_addrI) (auto simp: bit_or_iff bit_and_iff bit_not_iff mask_bits flag_bits)
  then have n: "child n = child phys" "bit n 0"
    using child_or [of "child phys"] by (auto simp: n_def or.assoc bit_or_iff flag_bits)
  have ok1: "space_ok s1 (child cr3)" and w1: "\<And>w. walk (pmem s1) 3 (child cr3) w = walk (pmem s) 3 (child cr3) w"
    using mapped(2) by (auto simp: step_ok_def)
  note sl = set_leaf [OF ok1 mapped(3) refl, of n]
  have "space_ok s' (child cr3)"
    using sl mapped(4,5) by (simp add: space_ok_def n_def set_entry_def)
  moreover have "walk (pmem s') 3 (child cr3) w =
      (if same_page virt w then Some (child phys + (w AND 0xFFF), bit n 2) else walk (pmem s) 3 (child cr3) w)" for w
    using sl n w1 unfolding mapped(4) n_def [symmetric] by simp
  ultimately show ?thesis
    using mapped(1) assms(1) by (simp add: get_physical_walk child_def)
qed

definition demo_tables :: "u64 \<Rightarrow> nat \<Rightarrow> u64" where
  "demo_tables t i =
     (if i \<noteq> 0 then 0 else if t = 0x1000 then 0x2207 else if t = 0x2000 then 0x3207
      else if t = 0x3000 then 0x4207 else 0)"

definition demo_space :: vmm_state where
  "demo_space = \<lparr>vpmm = one_free, pmem = demo_tables, cr3_reg = 0x1000, efer = 0, invlpgs = [],
     kernel_pml4_phys = 0x9000, nx_available = False\<rparr>"

lemma demo_tab: "is_tab l (demo_tables t i) \<longleftrightarrow> i = 0 \<and> (t = 0x1000 \<or> t = 0x2000 \<or> t = 0x3000)"
  by (auto simp: demo_tables_def is_tab_def)

lemma single_table:
  assumes "\<And>i. is_tab l (m t i) \<longleftrightarrow> i = 0" "\<And>i. i < 512 \<Longrightarrow> i \<noteq> 0 \<Longrightarrow> m t i = 0"
  shows "foot m (Suc l) t = insert t (foot m l (child (m t 0)))"
    "tree m (Suc l) t \<longleftrightarrow> tree m l (child (m t 0)) \<and> t \<notin> foot m l (child (m t 0))"
proof -
  have "{i. i < 512 \<and> is_tab l (m t i)} = {0}"
    unfolding assms(1) by auto
  then show "foot m (Suc l) t = insert t (foot m l (child (m t 0)))"
    by simp
  have h: "l = 0 \<longrightarrow> (\<forall>i < 512. bit (m t i) 0 \<and> bit (m t i) 7 \<longrightarrow> m t i AND 0x1FF000 = 0)"
  proof (intro impI allI)
    fix i assume i: "l = 0" "i < 512" "bit (m t i) 0 \<and> bit (m t i) 7"
    then have "\<not> is_tab l (m t i)"
      by (simp add: is_tab_def)
    then have "i \<noteq> 0"
      using assms(1) by blast
    then show "m t i AND 0x1FF000 = 0"
      using assms(2) i(2) by simp
  qed
  have one: "(\<forall>i < 512. i = 0 \<longrightarrow> P i) \<longleftrightarrow> P 0" for P :: "nat \<Rightarrow> bool"
    by auto
  have none: "(\<forall>i < 512. \<forall>j < 512. i \<noteq> j \<and> i = 0 \<and> j = 0 \<longrightarrow> Q i j) \<longleftrightarrow> True" for Q :: "nat \<Rightarrow> nat \<Rightarrow> bool"
    by auto
  show "tree m (Suc l) t \<longleftrightarrow> tree m l (child (m t 0)) \<and> t \<notin> foot m l (child (m t 0))"
    unfolding tree.simps assms(1) one none using h by blast
qed

lemma demo_space_ok: "space_ok demo_space 0x1000"
proof -
  have c: "child (demo_tables 0x1000 0) = 0x2000" "child (demo_tables 0x2000 0) = 0x3000"
    "child (demo_tables 0x3000 0) = 0x4000"
    by (simp_all add: demo_tables_def child_def PTE_ADDR_MASK_def)
  have z: "demo_tables t i = 0" if "i \<noteq> 0" for t i
    using that by (simp add: demo_tables_def)
  have i: "is_tab l (demo_tables t i) \<longleftrightarrow> i = 0" if "t = 0x1000 \<or> t = 0x2000 \<or> t = 0x3000" for l t i
    using that by (auto simp: demo_tab)
  note st = single_table [where m = demo_tables, OF i z]
  have s3: "tree demo_tables (Suc 0) 0x3000" "foot demo_tables (Suc 0) 0x3000 = {0x3000, 0x4000}"
    using st [of "0x3000" 0] unfolding c by simp_all
  have s2: "tree demo_tables (Suc (Suc 0)) 0x2000"
    "foot demo_tables (Suc (Suc 0)) 0x2000 = {0x2000, 0x3000, 0x4000}"
    using st [of "0x2000" "Suc 0"] s3 unfolding c by (simp_all del: foot.simps tree.simps)
  have t: "tree demo_tables 3 0x1000" and f: "foot demo_tables 3 0x1000 = {0x1000, 0x2000, 0x3000, 0x4000}"
    using st [of "0x1000" "Suc (Suc 0)"] s2 unfolding c numeral_3_eq_3
    by (simp_all del: foot.simps tree.simps)
  show ?thesis
    unfolding space_ok_def using t f one_free_set
    by (simp add: demo_space_def frame_no_def PAGE_SIZE_def)
qed

lemma demo_map_status: "fst (vmm_map_page_in 0x1000 0x5000 0x77000 3 demo_space) = 0"
proof -
  let ?t = "\<lambda>t. t = (0x1000 :: u64) \<or> t = 0x2000 \<or> t = 0x3000"
  have e: "pmem demo_space t 0 AND PTE_PRESENT \<noteq> 0" "pmem demo_space t 0 AND PTE_PRIVATE_TABLE \<noteq> 0"
    "pmem demo_space t 0 AND PTE_HUGE = 0" if "?t t" for t
    using that by (auto simp: demo_space_def demo_tables_def PTE_PRESENT_def PTE_PRIVATE_TABLE_def PTE_HUGE_def)
  have c: "pmem demo_space 0x1000 0 AND PTE_ADDR_MASK = 0x2000" "pmem demo_space 0x2000 0 AND PTE_ADDR_MASK = 0x3000"
    by (simp_all add: demo_space_def demo_tables_def PTE_ADDR_MASK_def)
  have p: "ensure_private_entry c t 0 f demo_space = (0, demo_space)" if "?t t" for c t f
    using e [OF that] by (simp add: ensure_private_entry_def)
  have q: "ensure_entry t 0 f (3 AND NOT PTE_ADDR_MASK) demo_space = (0, demo_space)" if "?t t" for t f
    using e(1) [OF that] by (simp add: ensure_entry_def PTE_ADDR_MASK_def PTE_USER_def)
  have h: "split_huge t 0 f demo_space = (0, demo_space)" if "?t t" for t f
    using e [OF that] by (simp add: split_huge_def)
  have x: "0x1000 AND PTE_ADDR_MASK = 0x1000" "PML4_INDEX (0x5000 AND PTE_ADDR_MASK) = 0"
    "PDPT_INDEX (0x5000 AND PTE_ADDR_MASK) = 0" "PD_INDEX (0x5000 AND PTE_ADDR_MASK) = 0"
    by (simp_all add: PTE_ADDR_MASK_def PML4_INDEX_def PDPT_INDEX_def PD_INDEX_def)
  show ?thesis
    unfolding vmm_map_page_in_def Let_def x by (simp add: p q h c and_then_def)
qed

theorem vmm_map_page_in_correct_witness:
  "vmm_get_physical_in 0x1000 0x5123 (snd (vmm_map_page_in 0x1000 0x5000 0x77000 3 demo_space)) = 0x77123 \<and>
   vmm_get_physical_in 0x1000 0x6123 (snd (vmm_map_page_in 0x1000 0x5000 0x77000 3 demo_space)) = 0"
proof -
  let ?r = "vmm_map_page_in 0x1000 0x5000 0x77000 3 demo_space"
  have c: "child 0x1000 = 0x1000"
    by (simp add: child_def PTE_ADDR_MASK_def)
  have "same_page 0x5000 0x5123" "\<not> same_page 0x5000 0x6123"
    by (simp_all add: same_page_def lidx_def)
  moreover have "vmm_get_physical_in 0x1000 0x6123 demo_space = 0"
    by (simp add: vmm_get_physical_in_def demo_space_def demo_tables_def PTE_ADDR_MASK_def PTE_PRESENT_def
        PTE_HUGE_def PML4_INDEX_def PDPT_INDEX_def PD_INDEX_def PT_INDEX_def Let_def)
  moreover have "?r = (0, snd ?r)"
    using demo_map_status by (simp add: prod_eq_iff)
  note vmm_map_page_in_correct [OF _ _ this]
  ultimately show ?thesis
    using demo_space_ok c by (simp add: PTE_ADDR_MASK_def)
qed

lemma lidx_child:
  "lidx 3 (child v) = lidx 3 v" "lidx 2 (child v) = lidx 2 v"
  "lidx 1 (child v) = lidx 1 v" "lidx 0 (child v) = lidx 0 v"
  unfolding child_def by (rule lidx_masked, simp)+

lemma unmap_page_cases:
  assumes c: "child cr3 \<noteq> 0"
  obtains (none) "vmm_unmap_page_in cr3 virt s = (0, s)" "\<And>pt. tab_at (pmem s) 3 (child cr3) virt 0 \<noteq> Some pt"
  | (leaf) pt s' where "tab_at (pmem s) 3 (child cr3) virt 0 = Some pt"
      "vmm_unmap_page_in cr3 virt s = (child (pmem s pt (lidx 0 virt)), s')"
      "pmem s' = pmem (set_entry pt (lidx 0 virt) 0 s)" "vpmm s' = vpmm s"
proof -
  define e4 where "e4 = pmem s (child cr3) (lidx 3 virt)"
  define e3 where "e3 = pmem s (child e4) (lidx 2 virt)"
  define e2 where "e2 = pmem s (child e3) (lidx 1 virt)"
  have at: "tab_at (pmem s) 3 (child cr3) virt 0 =
      (if bit e4 0 \<and> bit e3 0 \<and> bit e2 0 \<and> \<not> bit e2 7 then Some (child e2) else None)"
    by (simp add: numeral_3_eq_3 numeral_2_eq_2 is_tab_def e4_def e3_def e2_def)
  show thesis
  proof (cases "bit e4 0 \<and> bit e3 0 \<and> bit e2 0 \<and> \<not> bit e2 7")
    case True
    define s1 where "s1 = set_entry (child e2) (lidx 0 virt) 0 s"
    have eq: "vmm_unmap_page_in cr3 virt s = (child (pmem s (child e2) (lidx 0 virt)),
        if child cr3 = child (vmm_get_cr3 s1) then vmm_invlpg (child virt) s1 else s1)"
      using c True unfolding vmm_unmap_page_in_def child_def [symmetric] index_lidx Let_def entry_bits
        lidx_child s1_def e2_def e3_def e4_def
      by simp
    show thesis
      by (rule leaf [OF _ eq]) (use True at in \<open>auto simp: s1_def vmm_invlpg_def set_entry_def\<close>)
  next
    case False
    then have "vmm_unmap_page_in cr3 virt s = (0, s)"
      using c unfolding vmm_unmap_page_in_def child_def [symmetric] index_lidx Let_def entry_bits
        lidx_child e2_def e3_def e4_def
      by auto
    moreover have "tab_at (pmem s) 3 (child cr3) virt 0 = None"
      unfolding at by (rule if_not_P [OF False])
    ultimately show thesis
      by (intro none) simp_all
  qed
qed

lemma walk_leaf_None:
  assumes "tab_at m 3 c v 0 = Some pt" "same_page v w"
  shows "walk m 3 c w = walk m 0 pt w"
  using walk_tab_at [OF assms(1)] assms(2) by (simp add: same_page_agree)

text \<open>C28. \<open>vmm_unmap_page_in\<close> on a well-formed address space leaves it well formed. If the page of
  \<open>virt\<close> has a page-table entry, exactly that page becomes unmapped and the call returns the
  frame that its entry held; inside a 2 MB page or without a table it returns 0 and changes
  nothing.\<close>
theorem vmm_unmap_page_in_correct:
  assumes "child cr3 \<noteq> 0" "space_ok s (child cr3)" "vmm_unmap_page_in cr3 virt s = (old, s')"
  shows "space_ok s' (child cr3) \<and>
    (case tab_at (pmem s) 3 (child cr3) virt 0 of
       None \<Rightarrow> old = 0 \<and> s' = s
     | Some pt \<Rightarrow> old = pmem s pt (PT_INDEX virt) AND PTE_ADDR_MASK \<and>
         (\<forall>w. vmm_get_physical_in cr3 w s' =
            (if same_page virt w then 0 else vmm_get_physical_in cr3 w s)))"
  using assms(1)
proof (cases rule: unmap_page_cases [of cr3 virt s])
  case none
  then have "tab_at (pmem s) 3 (child cr3) virt 0 = None"
    by (cases "tab_at (pmem s) 3 (child cr3) virt 0") auto
  with none assms show ?thesis
    by simp
next
  case (leaf pt t)
  then have t: "t = s'" "old = child (pmem s pt (lidx 0 virt))"
    using assms(3) by auto
  note sl = set_leaf [OF assms(2) leaf(1) refl, of 0]
  have "space_ok s' (child cr3)"
    using sl leaf(3,4) t by (simp add: space_ok_def set_entry_def)
  with sl leaf t assms(1) show ?thesis
    by (simp add: get_physical_walk index_lidx child_def)
qed

theorem vmm_unmap_page_in_correct_witness:
  "space_ok (snd (vmm_unmap_page_in 0x1000 0x5000 demo_space)) 0x1000 \<and>
   fst (vmm_unmap_page_in 0x1000 0x5000 demo_space) = 0"
proof -
  let ?r = "vmm_unmap_page_in 0x1000 0x5000 demo_space"
  have c: "child 0x1000 = 0x1000"
    by (simp add: child_def PTE_ADDR_MASK_def)
  have z: "pmem demo_space pt (PT_INDEX 0x5000) AND PTE_ADDR_MASK = 0" for pt
    by (simp add: demo_space_def demo_tables_def PT_INDEX_def)
  show ?thesis
    using vmm_unmap_page_in_correct [OF _ _ prod.collapse [of ?r, symmetric]] demo_space_ok c z
    by (auto split: option.splits)
qed

section \<open>User ranges\<close>

lemma user_range_loop_sound:
  assumes "user_range_loop cr3 page e s = Some True" "unat page mod 4096 = 0" "unat e + 4096 \<le> 2 ^ 64"
    and "unat page \<le> unat a" "unat a < unat e"
  shows "vmm_user_page_ok cr3 (a AND NOT (PAGE_SIZE - 1)) s"
  using assms
proof (induction "unat e - unat page" arbitrary: page rule: less_induct)
  case less
  have lt: "page < e"
    using less.prems by (simp add: word_less_nat_alt)
  have st: "vmm_user_page_ok cr3 page s" "user_range_loop cr3 (page + PAGE_SIZE) e s = Some True"
    using less.prems(1) lt by (subst (asm) user_range_loop.simps; auto split: if_splits)+
  have up: "unat (page + PAGE_SIZE) = unat page + 4096"
    using less.prems by (simp add: PAGE_SIZE_def unat_word_ariths)
  show ?case
  proof (cases "unat a < unat page + 4096")
    case True
    have "unat (a AND NOT (PAGE_SIZE - 1)) = unat a div 4096 * 4096"
      by (simp add: PAGE_SIZE_def flip: unat_page_align)
    also have "\<dots> = unat page"
    proof -
      obtain k where k: "unat page = 4096 * k"
        using less.prems(2) by auto
      then have "unat a div 4096 = k"
        using True less.prems(4) by (intro div_nat_eqI) auto
      with k show ?thesis by simp
    qed
    finally have "a AND NOT (PAGE_SIZE - 1) = page"
      by (simp only: word_unat_eq_iff)
    with st(1) show ?thesis
      by simp
  next
    case False
    then show ?thesis
      using less.prems st(2) up by (intro less.hyps [of "page + PAGE_SIZE"]) auto
  qed
qed

lemma user_range_loop_returns:
  assumes "unat e + 4096 \<le> 2 ^ 64"
  shows "user_range_loop cr3 page e s \<noteq> None"
proof (induction "unat e - unat page" arbitrary: page rule: less_induct)
  case less
  show ?case
  proof (cases "page < e \<and> vmm_user_page_ok cr3 page s")
    case True
    then have "unat page < unat e"
      by (simp add: word_less_nat_alt)
    then have "unat (page + PAGE_SIZE) = unat page + 4096"
      using assms by (simp add: PAGE_SIZE_def unat_word_ariths)
    then have "user_range_loop cr3 (page + PAGE_SIZE) e s \<noteq> None"
      using \<open>unat page < unat e\<close> by (intro less) simp
    then show ?thesis
      using True by (subst user_range_loop.simps) simp
  next
    case False
    then show ?thesis
      by (subst user_range_loop.simps) auto
  qed
qed

text \<open>Past the last page boundary the loop wraps to address 0 and never accepts.\<close>

lemma user_range_loop_top:
  assumes run: "user_range_loop cr3 page e s = Some True" and al: "unat page mod 4096 = 0"
  shows "unat e + 4096 \<le> 2 ^ 64"
proof (rule ccontr)
  assume e: "\<not> unat e + 4096 \<le> 2 ^ 64"
  have "unat page mod 4096 = 0 \<longrightarrow> unat e + 4096 > 2 ^ 64 \<longrightarrow> True = False"
  proof (rule user_range_loop.raw_induct [where P = "\<lambda>cr3 page e s y. unat page mod 4096 = 0 \<longrightarrow> unat e + 4096 > 2 ^ 64 \<longrightarrow> y = False", OF _ run], intro impI)
    fix f :: "u64 \<Rightarrow> u64 \<Rightarrow> u64 \<Rightarrow> vmm_state \<Rightarrow> bool option" and cr3 page e s y
    assume IH: "\<And>cr3 page e s y. f cr3 page e s = Some y \<Longrightarrow> unat page mod 4096 = 0 \<longrightarrow> unat e + 4096 > 2 ^ 64 \<longrightarrow> y = False"
      and b: "(if page < e then if \<not> vmm_user_page_ok cr3 page s then Some False else f cr3 (page + PAGE_SIZE) e s
               else Some True) = Some y"
      and p: "unat page mod 4096 = 0" and e: "unat e + 4096 > 2 ^ 64"
    obtain n where n: "unat page = 4096 * n"
      using p by (auto simp: mod_eq_0_iff_dvd)
    have "unat page < 2 ^ 64"
      using unsigned_less [of page, where ?'a = nat] by simp
    then have "unat page + 4096 \<le> 2 ^ 64"
      unfolding n by simp
    then have lt: "page < e"
      using e by (simp add: word_less_nat_alt)
    have "unat (page + PAGE_SIZE) mod 4096 = 0"
      using mod_mod_cancel [of 4096 "2 ^ 64" "unat page + 4096"] p by (simp add: PAGE_SIZE_def unat_word_ariths)
    then show "y = False"
      using b lt IH [of cr3 "page + PAGE_SIZE" e s y] e by (auto split: if_splits)
  qed
  then show False
    using al e by simp
qed

lemma vmm_user_range_ok_pages:
  assumes run: "vmm_user_range_ok cr3 virt sz s = Some True" and a: "unat virt \<le> unat a" "unat a < unat virt + unat sz"
  shows "vmm_user_page_ok cr3 (a AND NOT 0xFFF) s"
proof -
  have m: "PAGE_SIZE - 1 = 0xFFF"
    by (simp add: PAGE_SIZE_def)
  have p: "unat (virt AND NOT 0xFFF) = unat virt div 4096 * 4096"
    by (simp flip: unat_page_align)
  have l: "user_range_loop cr3 (virt AND NOT 0xFFF) (virt + sz) s = Some True" and nw: "\<not> virt + sz < virt"
    using run by (auto simp: vmm_user_range_ok_def m split: if_splits)
  have e: "unat (virt + sz) = unat virt + unat sz"
    using nw unsigned_less [of sz, where ?'a = nat] by (auto simp: unat_plus_if' word_less_nat_alt split: if_splits)
  show ?thesis
    using user_range_loop_sound [OF l _ user_range_loop_top [OF l], of a] a e p unfolding m
    by (auto intro: order_trans [OF div_times_less_eq_dividend])
qed



end
