(* ===== verification/Ramfs.thy ===== *)
theory Ramfs
  imports CString "HOL-Library.Monad_Syntax"
begin

text \<open>
  The RAM file system (\<open>kernel/fs/ramfs.c\<close>): sixteen slots with a 32-byte name and 512 bytes of
  data. A name argument is the string before its terminator; a data argument is the caller's
  buffer. \<open>None\<close> is an access outside a buffer. The theory proves the invariant of the table and
  that create, read and delete implement a finite map from names to contents, the contract
  stated as the locale \<open>file_store\<close>.
\<close>

section \<open>State and operations\<close>

definition MAX_FILES :: nat where "MAX_FILES = 16"
definition MAX_FILENAME :: nat where "MAX_FILENAME = 32"
definition MAX_FILESIZE :: nat where "MAX_FILESIZE = 512"

record ramfs_file =
  rf_name :: string
  rf_data :: string
  rf_size :: u32
  rf_used :: bool

record ramfs_state =
  rfiles :: "ramfs_file list"
  rfile_count :: int

definition ramfs_init :: ramfs_state where
  "ramfs_init = \<lparr>rfiles = replicate MAX_FILES \<lparr>rf_name = replicate MAX_FILENAME NUL,
     rf_data = replicate MAX_FILESIZE NUL, rf_size = 0, rf_used = False\<rparr>, rfile_count = 0\<rparr>"

definition file_matches :: "string \<Rightarrow> ramfs_file \<Rightarrow> bool" where
  "file_matches name f \<longleftrightarrow> rf_used f \<and> strcmp (rf_name f) (cstr name) = Some 0"

text \<open>The common tail of both branches of \<open>ramfs_create\<close>.\<close>

definition store_data :: "string \<Rightarrow> u32 \<Rightarrow> ramfs_file \<Rightarrow> ramfs_file option" where
  "store_data data sz f = do {
     d \<leftarrow> memcpy (rf_data f) data (unat sz);
     Some (f\<lparr>rf_data := (if unat sz < MAX_FILESIZE then d[unat sz := NUL] else d), rf_size := sz\<rparr>) }"

definition ramfs_create :: "string \<Rightarrow> string \<Rightarrow> u32 \<Rightarrow> ramfs_state \<Rightarrow> (int \<times> ramfs_state) option" where
  "ramfs_create name data sz s =
     (if unat sz > MAX_FILESIZE then Some (-1, s)
      else case find_idx (file_matches name) (rfiles s) of
        Some i \<Rightarrow> do {
          d \<leftarrow> memset (rf_data (rfiles s ! i)) NUL MAX_FILESIZE;
          f \<leftarrow> store_data data sz ((rfiles s ! i)\<lparr>rf_data := d\<rparr>);
          Some (0, s\<lparr>rfiles := (rfiles s)[i := f]\<rparr>) }
      | None \<Rightarrow>
          (case find_idx (\<lambda>f. \<not> rf_used f) (rfiles s) of
             Some i \<Rightarrow> do {
               n \<leftarrow> strncpy (rf_name (rfiles s ! i)) (cstr name) (MAX_FILENAME - 1);
               f \<leftarrow> store_data data sz ((rfiles s ! i)\<lparr>rf_used := True,
                     rf_name := n[MAX_FILENAME - 1 := NUL]\<rparr>);
               Some (0, s\<lparr>rfiles := (rfiles s)[i := f], rfile_count := rfile_count s + 1\<rparr>) }
           | None \<Rightarrow> Some (-1, s)))"

text \<open>The result is the status, the caller's buffer and the value behind \<open>size\<close>.\<close>

definition ramfs_read ::
    "string \<Rightarrow> string \<Rightarrow> u32 \<Rightarrow> u32 \<Rightarrow> ramfs_state \<Rightarrow> (int \<times> string \<times> u32) option" where
  "ramfs_read name buffer sz max_size s =
     (case find_idx (file_matches name) (rfiles s) of
        Some i \<Rightarrow>
          (let f = rfiles s ! i in
           if rf_size f > max_size then Some (-1, buffer, rf_size f)
           else do {
             b \<leftarrow> memcpy buffer (rf_data f) (unat (rf_size f));
             Some (0, b, rf_size f) })
      | None \<Rightarrow> Some (-1, buffer, sz))"

definition ramfs_delete :: "string \<Rightarrow> ramfs_state \<Rightarrow> (int \<times> ramfs_state) option" where
  "ramfs_delete name s =
     (case find_idx (file_matches name) (rfiles s) of
        Some i \<Rightarrow> do {
          n \<leftarrow> memset (rf_name (rfiles s ! i)) NUL MAX_FILENAME;
          d \<leftarrow> memset (rf_data (rfiles s ! i)) NUL MAX_FILESIZE;
          Some (0, s\<lparr>rfiles := (rfiles s)[i := (rfiles s ! i)\<lparr>rf_used := False, rf_size := 0,
                         rf_name := n, rf_data := d\<rparr>],
                     rfile_count := rfile_count s - 1\<rparr>) }
      | None \<Rightarrow> Some (-1, s))"

definition ramfs_list :: "ramfs_state \<Rightarrow> int" where
  "ramfs_list s = rfile_count s"

definition ramfs_get_files :: "ramfs_state \<Rightarrow> ramfs_file list" where
  "ramfs_get_files s = rfiles s"

definition ramfs_get_file_count :: "ramfs_state \<Rightarrow> int" where
  "ramfs_get_file_count s = rfile_count s"

definition ramfs_mkdir :: "string \<Rightarrow> int" where "ramfs_mkdir name = -1"
definition ramfs_rmdir :: "string \<Rightarrow> int" where "ramfs_rmdir name = -1"
definition ramfs_chdir :: "string \<Rightarrow> int" where "ramfs_chdir name = -1"
definition ramfs_getcwd :: string where "ramfs_getcwd = ''/''"

section \<open>Invariant and abstraction\<close>

definition file_wf :: "ramfs_file \<Rightarrow> bool" where
  "file_wf f \<longleftrightarrow> length (rf_name f) = 32 \<and> length (rf_data f) = 512 \<and> unat (rf_size f) \<le> 512 \<and>
     NUL \<in> set (rf_name f)"

definition ramfs_inv :: "ramfs_state \<Rightarrow> bool" where
  "ramfs_inv s \<longleftrightarrow> length (rfiles s) = 16 \<and> (\<forall>f \<in> set (rfiles s). file_wf f) \<and>
     (\<forall>i < 16. \<forall>j < 16. i \<noteq> j \<and> rf_used (rfiles s ! i) \<and> rf_used (rfiles s ! j) \<longrightarrow>
        c_content (rf_name (rfiles s ! i)) \<noteq> c_content (rf_name (rfiles s ! j))) \<and>
     rfile_count s = int (length (filter rf_used (rfiles s)))"

definition file_content :: "ramfs_file \<Rightarrow> string" where
  "file_content f = take (unat (rf_size f)) (rf_data f)"

definition ramfs_map :: "ramfs_state \<Rightarrow> string \<Rightarrow> string option" where
  "ramfs_map s name = map_option (\<lambda>i. file_content (rfiles s ! i)) (find_idx (file_matches name) (rfiles s))"

definition good_name :: "string \<Rightarrow> bool" where
  "good_name n \<longleftrightarrow> NUL \<notin> set n \<and> length n < 32"

lemma file_matches_iff:
  "file_wf f \<Longrightarrow> NUL \<notin> set n \<Longrightarrow> file_matches n f \<longleftrightarrow> rf_used f \<and> c_content (rf_name f) = n"
  using strcmp_content [of "rf_name f" "cstr n"]
  by (auto simp: file_matches_def file_wf_def c_content_def takeWhile_until)

lemma store_data_spec:
  assumes "length (rf_data f) = 512" "unat sz \<le> 512" "unat sz \<le> length data"
  obtains g where "store_data data sz f = Some g" "rf_name g = rf_name f" "rf_used g = rf_used f"
    "rf_size g = sz" "length (rf_data g) = 512" "file_content g = take (unat sz) data"
proof -
  have "store_data data sz f = Some (f\<lparr>rf_data := (if unat sz < 512
      then (take (unat sz) data @ drop (unat sz) (rf_data f))[unat sz := NUL]
      else take (unat sz) data @ drop (unat sz) (rf_data f)), rf_size := sz\<rparr>)"
    using assms by (simp add: store_data_def memcpy_eq MAX_FILESIZE_def)
  then show thesis
    by (rule that) (use assms in \<open>auto simp: file_content_def\<close>)
qed

lemma stored_name:
  assumes "good_name n" "length b = 32"
  shows "\<exists>b'. strncpy b (cstr n) 31 = Some b' \<and> b'[31 := NUL] = n @ replicate (32 - length n) NUL"
proof (cases "length n = 31")
  case True
  have "drop 31 b = [b ! 31]"
    using assms(2) Cons_nth_drop_Suc [of 31 b] by simp
  with True assms strncpy_long [of n 31 b "[]"] show ?thesis
    by (simp add: good_name_def list_update_append)
next
  case False
  with assms strncpy_short [of n 31 b "[]"] show ?thesis
    by (auto simp: good_name_def list_update_append intro!: nth_equalityI simp: nth_list_update)
qed

lemma stored_content: "NUL \<notin> set n \<Longrightarrow> 0 < k \<Longrightarrow> c_content (n @ replicate k NUL) = n"
  by (cases k) (auto simp: c_content_def)

lemma ramfs_inv_nth: "ramfs_inv s \<Longrightarrow> i < 16 \<Longrightarrow> file_wf (rfiles s ! i)"
  by (simp add: ramfs_inv_def)

lemma ramfs_inv_update:
  assumes inv: "ramfs_inv s" and i: "i < 16" and wf: "file_wf g"
    and new: "rf_used g \<Longrightarrow> \<forall>j < 16. j \<noteq> i \<and> rf_used (rfiles s ! j) \<longrightarrow>
      c_content (rf_name (rfiles s ! j)) \<noteq> c_content (rf_name g)"
    and c: "c = rfile_count s + (if rf_used g then 1 else 0) - (if rf_used (rfiles s ! i) then 1 else 0)"
  shows "ramfs_inv (s\<lparr>rfiles := (rfiles s)[i := g], rfile_count := c\<rparr>)"
proof -
  have len: "length (rfiles s) = 16"
    using inv by (simp add: ramfs_inv_def)
  have "\<forall>f \<in> set ((rfiles s)[i := g]). file_wf f"
    using inv wf set_update_subset_insert [of "rfiles s" i g] by (auto simp: ramfs_inv_def)
  moreover have "c = int (length (filter rf_used ((rfiles s)[i := g])))"
    using length_filter_update [of i "rfiles s" rf_used g] i len inv c by (auto simp: ramfs_inv_def)
  moreover have "c_content (rf_name ((rfiles s)[i := g] ! j)) \<noteq> c_content (rf_name ((rfiles s)[i := g] ! k))"
    if "j < 16" "k < 16" "j \<noteq> k" "rf_used ((rfiles s)[i := g] ! j)" "rf_used ((rfiles s)[i := g] ! k)" for j k
  proof (cases "j = i \<or> k = i")
    case True
    then show ?thesis
      using that new len by (cases "j = i") (force simp: nth_list_update)+
  next
    case False
    then show ?thesis
      using that inv by (simp add: ramfs_inv_def)
  qed
  ultimately show ?thesis
    using len by (simp add: ramfs_inv_def)
qed

lemma ramfs_map_update:
  assumes inv: "ramfs_inv s" and i: "i < 16" and wf: "file_wf g" and n: "NUL \<notin> set n"
    and g: "rf_used g \<Longrightarrow> c_content (rf_name g) = n"
    and old: "rf_used (rfiles s ! i) \<Longrightarrow> c_content (rf_name (rfiles s ! i)) = n"
    and only: "\<And>j. j < 16 \<Longrightarrow> j \<noteq> i \<Longrightarrow> \<not> file_matches n (rfiles s ! j)"
    and m: "NUL \<notin> set m"
  shows "ramfs_map (s\<lparr>rfiles := (rfiles s)[i := g], rfile_count := c\<rparr>) m =
    (if m = n then if rf_used g then Some (file_content g) else None else ramfs_map s m)"
proof -
  have len: "length (rfiles s) = 16"
    using inv by (simp add: ramfs_inv_def)
  show ?thesis
  proof (cases "m = n")
    case True
    have "find_idx (file_matches n) ((rfiles s)[i := g]) = (if rf_used g then Some i else None)"
    proof (cases "rf_used g")
      case u: True
      with g wf n have "file_matches n g"
        by (simp add: file_matches_iff)
      with u i len only show ?thesis
        by (auto simp: find_idx_Some_iff nth_list_update)
    next
      case False
      then have "\<not> file_matches n g"
        by (simp add: file_matches_def)
      with False i len only show ?thesis
        by (auto simp: find_idx_None_iff in_set_conv_nth nth_list_update split: if_splits)
    qed
    with True i len show ?thesis
      by (simp add: ramfs_map_def)
  next
    case False
    have "\<not> file_matches m g" "\<not> file_matches m (rfiles s ! i)"
      using False g old wf m ramfs_inv_nth [OF inv i] by (auto simp: file_matches_iff)
    then have f: "find_idx (file_matches m) ((rfiles s)[i := g]) = find_idx (file_matches m) (rfiles s)"
      using i len by (intro find_idx_update_same) auto
    have "k \<noteq> i" if "find_idx (file_matches m) (rfiles s) = Some k" for k
      using that \<open>\<not> file_matches m (rfiles s ! i)\<close> by (auto dest: find_idx_SomeD)
    with False f show ?thesis
      by (auto simp: ramfs_map_def split: option.splits intro!: map_option_cong)
  qed
qed

lemma unique_match:
  assumes "ramfs_inv s" "NUL \<notin> set n" "find_idx (file_matches n) (rfiles s) = Some i"
  shows "i < 16" "rf_used (rfiles s ! i)" "c_content (rf_name (rfiles s ! i)) = n"
    "\<And>j. j < 16 \<Longrightarrow> j \<noteq> i \<Longrightarrow> \<not> file_matches n (rfiles s ! j)"
proof -
  have i: "i < 16" "file_matches n (rfiles s ! i)"
    using find_idx_SomeD [OF assms(3)] assms(1) by (auto simp: ramfs_inv_def)
  then show "i < 16" "rf_used (rfiles s ! i)" "c_content (rf_name (rfiles s ! i)) = n"
    using file_matches_iff [OF ramfs_inv_nth [OF assms(1)] assms(2)] by auto
  show "\<not> file_matches n (rfiles s ! j)" if "j < 16" "j \<noteq> i" for j
    using that i assms file_matches_iff [OF ramfs_inv_nth [OF assms(1)] assms(2)]
    unfolding ramfs_inv_def by (metis (no_types, lifting))
qed

section \<open>Operations on the abstraction\<close>

lemma ramfs_create_spec:
  assumes inv: "ramfs_inv s" and n: "good_name n" and sz: "unat sz \<le> 512" "unat sz \<le> length data"
  shows "\<exists>r s'. ramfs_create n data sz s = Some (r, s') \<and> ramfs_inv s' \<and>
    (if ramfs_map s n = None \<and> (\<forall>f \<in> set (rfiles s). rf_used f) then r = -1 \<and> s' = s
     else r = 0 \<and> (\<forall>m. NUL \<notin> set m \<longrightarrow>
       ramfs_map s' m = (if m = n then Some (take (unat sz) data) else ramfs_map s m)))"
proof (cases "find_idx (file_matches n) (rfiles s)")
  case (Some i)
  have nn: "NUL \<notin> set n"
    using n by (simp add: good_name_def)
  note u = unique_match [OF inv nn Some]
  let ?f = "rfiles s ! i"
  have wf: "file_wf ?f"
    using ramfs_inv_nth [OF inv u(1)] .
  let ?d = "replicate 512 NUL @ drop 512 (rf_data ?f)"
  have ms: "memset (rf_data ?f) NUL MAX_FILESIZE = Some ?d" "length ?d = 512"
    using wf by (simp_all add: memset_eq MAX_FILESIZE_def file_wf_def)
  obtain g where g: "store_data data sz (?f\<lparr>rf_data := ?d\<rparr>) = Some g" "rf_name g = rf_name ?f"
    "rf_used g" "rf_size g = sz" "length (rf_data g) = 512" "file_content g = take (unat sz) data"
    using store_data_spec [of "?f\<lparr>rf_data := ?d\<rparr>" sz data] ms(2) sz u(2) by auto
  have gw: "file_wf g"
    using g wf sz by (simp add: file_wf_def)
  let ?s = "s\<lparr>rfiles := (rfiles s)[i := g], rfile_count := rfile_count s\<rparr>"
  have "ramfs_inv ?s"
    using u inv by (intro ramfs_inv_update [OF inv u(1) gw]) (auto simp: g ramfs_inv_def)
  moreover have "ramfs_map ?s m = (if m = n then Some (take (unat sz) data) else ramfs_map s m)"
    if "NUL \<notin> set m" for m
    using ramfs_map_update [OF inv u(1) gw nn _ _ _ that, of "rfile_count s"] u g by simp
  moreover have "ramfs_create n data sz s = Some (0, ?s)"
    using Some ms g(1) sz(1) by (simp add: ramfs_create_def MAX_FILESIZE_def)
  moreover have "ramfs_map s n \<noteq> None"
    using Some by (simp add: ramfs_map_def)
  ultimately show ?thesis
    by simp
next
  case none: None
  have nn: "NUL \<notin> set n"
    using n by (simp add: good_name_def)
  have mn: "ramfs_map s n = None"
    using none by (simp add: ramfs_map_def)
  have only: "\<not> file_matches n (rfiles s ! j)" if "j < 16" for j
    using none that inv by (auto simp: find_idx_None_iff ramfs_inv_def)
  show ?thesis
  proof (cases "find_idx (\<lambda>f. \<not> rf_used f) (rfiles s)")
    case None
    then have "ramfs_create n data sz s = Some (-1, s)" "\<forall>f \<in> set (rfiles s). rf_used f"
      using none sz(1) by (simp add: ramfs_create_def MAX_FILESIZE_def, simp add: find_idx_None_iff)
    with inv mn show ?thesis
      by simp
  next
    case (Some i)
    let ?f = "rfiles s ! i"
    have i: "i < 16" "\<not> rf_used ?f"
      using find_idx_SomeD [OF Some] inv by (auto simp: ramfs_inv_def)
    have wf: "file_wf ?f"
      using ramfs_inv_nth [OF inv i(1)] .
    obtain b where b: "strncpy (rf_name ?f) (cstr n) 31 = Some b" "b[31 := NUL] = n @ replicate (32 - length n) NUL"
      using stored_name [OF n, of "rf_name ?f"] wf by (auto simp: file_wf_def)
    let ?f1 = "?f\<lparr>rf_used := True, rf_name := n @ replicate (32 - length n) NUL\<rparr>"
    obtain g where g: "store_data data sz ?f1 = Some g" "rf_name g = n @ replicate (32 - length n) NUL"
      "rf_used g" "rf_size g = sz" "length (rf_data g) = 512" "file_content g = take (unat sz) data"
      using store_data_spec [of ?f1 sz data] wf sz by (auto simp: file_wf_def)
    have gw: "file_wf g" and gn: "c_content (rf_name g) = n"
      using g n sz stored_content [OF nn, of "32 - length n"] by (auto simp: file_wf_def good_name_def)
    let ?s = "s\<lparr>rfiles := (rfiles s)[i := g], rfile_count := rfile_count s + 1\<rparr>"
    have "ramfs_inv ?s"
      using i only gn file_matches_iff [OF ramfs_inv_nth [OF inv] nn]
      by (intro ramfs_inv_update [OF inv i(1) gw]) (auto simp: g)
    moreover have "ramfs_map ?s m = (if m = n then Some (take (unat sz) data) else ramfs_map s m)"
      if "NUL \<notin> set m" for m
      using ramfs_map_update [OF inv i(1) gw nn _ _ _ that] i only gn g by simp
    moreover have "ramfs_create n data sz s = Some (0, ?s)"
      using none Some b g(1) sz(1) by (simp add: ramfs_create_def MAX_FILESIZE_def MAX_FILENAME_def)
    moreover have "\<not> (\<forall>f \<in> set (rfiles s). rf_used f)"
      using i inv by (auto simp: ramfs_inv_def intro!: bexI [of _ ?f])
    ultimately show ?thesis
      by simp
  qed
qed

lemma ramfs_read_spec:
  assumes inv: "ramfs_inv s" and n: "NUL \<notin> set n"
  shows "ramfs_map s n = None \<Longrightarrow> ramfs_read n buf sz mx s = Some (-1, buf, sz)"
    and "ramfs_map s n = Some c \<Longrightarrow> length c \<le> length buf \<Longrightarrow>
      ramfs_read n buf sz mx s =
        Some (if length c \<le> unat mx then (0, c @ drop (length c) buf, of_nat (length c))
              else (-1, buf, of_nat (length c)))"
proof -
  show "ramfs_map s n = None \<Longrightarrow> ramfs_read n buf sz mx s = Some (-1, buf, sz)"
    by (simp add: ramfs_map_def ramfs_read_def)
  assume c: "ramfs_map s n = Some c" "length c \<le> length buf"
  then obtain i where i: "find_idx (file_matches n) (rfiles s) = Some i" "c = file_content (rfiles s ! i)"
    by (auto simp: ramfs_map_def)
  have "file_wf (rfiles s ! i)"
    using unique_match(1) [OF inv n i(1)] by (rule ramfs_inv_nth [OF inv])
  then have "length c = unat (rf_size (rfiles s ! i))" "length (rf_data (rfiles s ! i)) = 512"
    "unat (rf_size (rfiles s ! i)) \<le> 512"
    using i(2) by (auto simp: file_wf_def file_content_def)
  with i c(2) show "ramfs_read n buf sz mx s =
        Some (if length c \<le> unat mx then (0, c @ drop (length c) buf, of_nat (length c))
              else (-1, buf, of_nat (length c)))"
    by (simp add: ramfs_read_def Let_def memcpy_eq file_content_def word_less_nat_alt not_le)
qed

lemma ramfs_delete_spec:
  assumes inv: "ramfs_inv s" and n: "NUL \<notin> set n"
  shows "\<exists>r s'. ramfs_delete n s = Some (r, s') \<and> ramfs_inv s' \<and>
    (if ramfs_map s n = None then r = -1 \<and> s' = s
     else r = 0 \<and> (\<forall>m. NUL \<notin> set m \<longrightarrow> ramfs_map s' m = (if m = n then None else ramfs_map s m)))"
proof (cases "find_idx (file_matches n) (rfiles s)")
  case None
  with inv show ?thesis
    by (simp add: ramfs_delete_def ramfs_map_def)
next
  case (Some i)
  note u = unique_match [OF inv n Some]
  let ?f = "rfiles s ! i"
  have wf: "file_wf ?f"
    using ramfs_inv_nth [OF inv u(1)] .
  define g where "g = ?f\<lparr>rf_used := False, rf_size := 0, rf_name := replicate 32 NUL, rf_data := replicate 512 NUL\<rparr>"
  have gw: "file_wf g" and gu: "\<not> rf_used g"
    by (auto simp: g_def file_wf_def)
  let ?s = "s\<lparr>rfiles := (rfiles s)[i := g], rfile_count := rfile_count s - 1\<rparr>"
  have "ramfs_inv ?s"
    using u gu by (intro ramfs_inv_update [OF inv u(1) gw]) auto
  moreover have "ramfs_map ?s m = (if m = n then None else ramfs_map s m)" if "NUL \<notin> set m" for m
    using ramfs_map_update [OF inv u(1) gw n _ _ _ that] u gu by simp
  moreover have "ramfs_delete n s = Some (0, ?s)"
    using Some wf by (simp add: ramfs_delete_def memset_eq MAX_FILESIZE_def MAX_FILENAME_def file_wf_def g_def)
  moreover have "ramfs_map s n \<noteq> None"
    using Some by (simp add: ramfs_map_def)
  ultimately show ?thesis
    by simp
qed

section \<open>The contract of a file store\<close>

locale file_store =
  fixes create :: "string \<Rightarrow> string \<Rightarrow> u32 \<Rightarrow> 's \<Rightarrow> (int \<times> 's) option"
    and read :: "string \<Rightarrow> string \<Rightarrow> u32 \<Rightarrow> u32 \<Rightarrow> 's \<Rightarrow> (int \<times> string \<times> u32) option"
    and delete :: "string \<Rightarrow> 's \<Rightarrow> (int \<times> 's) option"
    and contents :: "'s \<Rightarrow> string \<Rightarrow> string option"
    and ok :: "'s \<Rightarrow> bool"
    and valid :: "string \<Rightarrow> bool"
    and limit :: nat
  assumes create_law: "ok s \<Longrightarrow> valid n \<Longrightarrow> unat sz \<le> limit \<Longrightarrow> unat sz \<le> length d \<Longrightarrow>
      \<exists>r s'. create n d sz s = Some (r, s') \<and> ok s' \<and>
        (r = -1 \<and> s' = s \<or>
         r = 0 \<and> (\<forall>m. valid m \<longrightarrow> contents s' m = (if m = n then Some (take (unat sz) d) else contents s m)))"
    and overwrite_law: "ok s \<Longrightarrow> valid n \<Longrightarrow> unat sz \<le> limit \<Longrightarrow> unat sz \<le> length d \<Longrightarrow>
      contents s n \<noteq> None \<Longrightarrow> \<exists>s'. create n d sz s = Some (0, s')"
    and read_law: "ok s \<Longrightarrow> valid n \<Longrightarrow> contents s n = Some c \<Longrightarrow> length c \<le> length buf \<Longrightarrow>
      length c \<le> unat mx \<Longrightarrow> read n buf sz mx s = Some (0, c @ drop (length c) buf, of_nat (length c))"
    and read_none: "ok s \<Longrightarrow> valid n \<Longrightarrow> contents s n = None \<Longrightarrow> read n buf sz mx s = Some (-1, buf, sz)"
    and delete_law: "ok s \<Longrightarrow> valid n \<Longrightarrow>
      \<exists>r s'. delete n s = Some (r, s') \<and> ok s' \<and>
        (if contents s n = None then r = -1 \<and> s' = s
         else r = 0 \<and> (\<forall>m. valid m \<longrightarrow> contents s' m = (if m = n then None else contents s m)))"
begin

lemma create_read:
  assumes "ok s" "valid n" "unat sz \<le> limit" "unat sz \<le> length d" "create n d sz s = Some (0, s')"
    and "unat sz \<le> length buf" "sz \<le> mx"
  shows "read n buf sz0 mx s' = Some (0, take (unat sz) d @ drop (unat sz) buf, sz)"
proof -
  have "ok s'" "contents s' n = Some (take (unat sz) d)"
    using create_law [OF assms(1-4)] assms(2,5) by auto
  from read_law [OF this(1) assms(2) this(2), of buf mx sz0] assms(4,6,7) show ?thesis
    by (simp add: word_le_nat_alt)
qed

lemma create_other:
  assumes "ok s" "valid n" "unat sz \<le> limit" "unat sz \<le> length d" "create n d sz s = Some (r, s')"
    and "valid m" "m \<noteq> n" "contents s m = Some c" "length c \<le> length buf" "length c \<le> unat mx"
  shows "read m buf sz0 mx s' = read m buf sz0 mx s"
proof -
  have "ok s'" "contents s' m = contents s m"
    using create_law [OF assms(1-4)] assms(5-7) by auto
  with assms(1,6,8-10) show ?thesis
    by (simp add: read_law)
qed

lemma delete_read:
  assumes "ok s" "valid n" "contents s n \<noteq> None"
  shows "\<exists>s'. delete n s = Some (0, s') \<and> read n buf sz mx s' = Some (-1, buf, sz)"
  using delete_law [OF assms(1,2)] assms(2,3) read_none [of _ n buf sz mx] by auto

end

interpretation ramfs: file_store ramfs_create ramfs_read ramfs_delete ramfs_map ramfs_inv good_name 512
proof
  show "\<exists>r s'. ramfs_create n d sz s = Some (r, s') \<and> ramfs_inv s' \<and>
      (r = -1 \<and> s' = s \<or> r = 0 \<and> (\<forall>m. good_name m \<longrightarrow>
        ramfs_map s' m = (if m = n then Some (take (unat sz) d) else ramfs_map s m)))"
    if "ramfs_inv s" "good_name n" "unat sz \<le> 512" "unat sz \<le> length d" for s n sz d
    using ramfs_create_spec [OF that] by (auto simp: good_name_def split: if_splits)
  show "\<exists>s'. ramfs_create n d sz s = Some (0, s')"
    if "ramfs_inv s" "good_name n" "unat sz \<le> 512" "unat sz \<le> length d" "ramfs_map s n \<noteq> None" for s n sz d
    using ramfs_create_spec [OF that(1-4)] that(5) by auto
  show "\<exists>r s'. ramfs_delete n s = Some (r, s') \<and> ramfs_inv s' \<and>
      (if ramfs_map s n = None then r = -1 \<and> s' = s
       else r = 0 \<and> (\<forall>m. good_name m \<longrightarrow> ramfs_map s' m = (if m = n then None else ramfs_map s m)))"
    if "ramfs_inv s" "good_name n" for s n
    using ramfs_delete_spec [OF that(1), of n] that(2) by (auto simp: good_name_def split: if_splits)
qed (auto simp: good_name_def ramfs_read_spec)

section \<open>Properties\<close>

lemma ramfs_init_inv: "ramfs_inv ramfs_init"
  by (auto simp: ramfs_inv_def ramfs_init_def file_wf_def MAX_FILES_def MAX_FILENAME_def MAX_FILESIZE_def
      in_set_replicate)

lemma ramfs_init_room: "(\<forall>f \<in> set (rfiles ramfs_init). rf_used f) = False"
  by (simp add: ramfs_init_def MAX_FILES_def)

text \<open>C23. \<open>ramfs_create\<close> with a name of fewer than 32 characters and at most 512 bytes of data never
  leaves its buffers and keeps the table consistent. It fails, changing nothing, exactly when
  the name is new and every slot is used; otherwise the name maps to the data and every other
  file is unchanged.\<close>
theorem ramfs_create_correct:
  assumes "ramfs_inv s" "good_name n" "unat sz \<le> 512" "unat sz \<le> length data"
  shows "\<exists>r s'. ramfs_create n data sz s = Some (r, s') \<and> ramfs_inv s' \<and>
    (if ramfs_map s n = None \<and> (\<forall>f \<in> set (rfiles s). rf_used f) then r = -1 \<and> s' = s
     else r = 0 \<and> (\<forall>m. NUL \<notin> set m \<longrightarrow>
       ramfs_map s' m = (if m = n then Some (take (unat sz) data) else ramfs_map s m)))"
  by (rule ramfs_create_spec [OF assms])

theorem ramfs_create_correct_witness:
  "\<exists>s'. ramfs_create ''a.txt'' ''hello'' 3 ramfs_init = Some (0, s') \<and> ramfs_map s' ''a.txt'' = Some ''hel''"
  using ramfs_create_correct [OF ramfs_init_inv, of "''a.txt''" 3 "''hello''"] unfolding ramfs_init_room
  by (auto simp: good_name_def)

text \<open>C33. A successful \<open>ramfs_create\<close> followed by \<open>ramfs_read\<close> into a large enough buffer returns
  exactly the stored bytes and their number.\<close>
theorem ramfs_create_read:
  assumes "ramfs_inv s" "good_name n" "unat sz \<le> 512" "unat sz \<le> length d"
    and "ramfs_create n d sz s = Some (0, s')" "unat sz \<le> length buf" "sz \<le> mx"
  shows "ramfs_read n buf sz0 mx s' = Some (0, take (unat sz) d @ drop (unat sz) buf, sz)"
  by (rule ramfs.create_read [OF assms])

theorem ramfs_create_read_witness:
  "\<exists>s'. ramfs_create ''f'' ''xy'' 2 ramfs_init = Some (0, s') \<and>
        ramfs_read ''f'' ''ABC'' 0 3 s' = Some (0, ''xyC'', 2)"
proof -
  obtain s' where s': "ramfs_create ''f'' ''xy'' 2 ramfs_init = Some (0, s')"
    using ramfs_create_spec [OF ramfs_init_inv, of "''f''" 2 "''xy''"] unfolding ramfs_init_room
    by (auto simp: good_name_def)
  show ?thesis
    using ramfs_create_read [OF ramfs_init_inv _ _ _ s', of "''ABC''" 3 0] s' by (simp add: good_name_def)
qed

text \<open>A name of 32 or more characters is stored cut to 31 characters: creating such a file in
  the empty file system succeeds, yet reading it back by the same name fails.\<close>
lemma ramfs_long_name_lost:
  assumes "NUL \<notin> set n" "32 \<le> length n" "unat sz \<le> 512" "unat sz \<le> length d"
  shows "\<exists>s'. ramfs_create n d sz ramfs_init = Some (0, s') \<and> ramfs_read n buf sz0 mx s' = Some (-1, buf, sz0)"
proof -
  let ?e = "\<lparr>rf_name = replicate 32 NUL, rf_data = replicate 512 NUL, rf_size = 0, rf_used = False\<rparr>"
  have init: "rfiles ramfs_init = replicate 16 ?e"
    by (simp add: ramfs_init_def MAX_FILES_def MAX_FILENAME_def MAX_FILESIZE_def)
  have f0: "find_idx (\<lambda>f. \<not> rf_used f) (rfiles ramfs_init) = Some 0"
    "find_idx (file_matches n) (rfiles ramfs_init) = None"
    by (auto simp: init find_idx_Some_iff find_idx_None_iff file_matches_def in_set_replicate)
  have sn: "strncpy (replicate 32 NUL) (cstr n) 31 = Some (take 31 n @ [NUL])"
    using strncpy_long [of n 31 "replicate 32 NUL" "[]"] assms(1,2) by simp
  let ?f1 = "?e\<lparr>rf_used := True, rf_name := take 31 n @ [NUL]\<rparr>"
  obtain g where g: "store_data d sz ?f1 = Some g" "rf_name g = take 31 n @ [NUL]" "rf_used g"
    "rf_size g = sz" "length (rf_data g) = 512"
    using store_data_spec [of ?f1 sz d] assms(3,4) by auto
  let ?s = "ramfs_init\<lparr>rfiles := (rfiles ramfs_init)[0 := g], rfile_count := rfile_count ramfs_init + 1\<rparr>"
  have "(take 31 n @ [NUL])[31 := NUL] = take 31 n @ [NUL]"
    using assms(2) by (simp add: list_update_append)
  then have "ramfs_create n d sz ramfs_init = Some (0, ?s)"
    using f0 sn g(1) assms(3) by (simp add: ramfs_create_def MAX_FILESIZE_def MAX_FILENAME_def init)
  moreover have "\<not> file_matches n g"
  proof -
    have "NUL \<notin> set (take 31 n)"
      using assms(1) in_set_takeD by fast
    then have "c_content (rf_name g) = take 31 n"
      using g(2) by (simp add: c_content_def takeWhile_until)
    then have "c_content (rf_name g) \<noteq> n"
      using arg_cong [of "take 31 n" n length] assms(2) by auto
    moreover have "file_wf g"
      using g assms by (auto simp: file_wf_def)
    ultimately show ?thesis
      using assms(1) by (simp add: file_matches_iff)
  qed
  then have "find_idx (file_matches n) ((rfiles ramfs_init)[0 := g]) = None"
    by (auto simp: find_idx_None_iff init file_matches_def in_set_replicate
        dest!: subsetD [OF set_update_subset_insert])
  ultimately show ?thesis
    by (simp add: ramfs_read_def)
qed

lemma ramfs_long_name_lost_example:
  "\<exists>s'. ramfs_create (replicate 40 CHR ''a'') ''x'' 1 ramfs_init = Some (0, s') \<and>
        ramfs_read (replicate 40 CHR ''a'') ''?'' 0 1 s' = Some (-1, ''?'', 0)"
  using ramfs_long_name_lost [of "replicate 40 CHR ''a''" 1 "''x''" "''?''" 0 1] by simp

end
