(* ===== verification/Vfs.thy ===== *)
theory Vfs
  imports Ramfs
begin

text \<open>
  The mount table (\<open>kernel/fs/vfs.c\<close>). The operations of a mounted file system are a record of
  functions over the state \<open>'s\<close> of all file systems; a null function pointer is \<open>None\<close>. Paths
  are the strings before their terminator, and pointers are not null. \<open>None\<close> as the value of an
  operation is an access outside a buffer.

  The theory proves that the path resolution finds the longest mount point that is a
  component-wise prefix of an absolute path, and what mounting and unmounting do to it.
\<close>

section \<open>State\<close>

record fs_file_info =
  fi_name :: string
  fi_size :: u32
  fi_used :: bool
  fi_is_directory :: bool

record 's vfs_ops =
  op_name :: string
  op_create :: "(string \<Rightarrow> string \<Rightarrow> u32 \<Rightarrow> 's \<Rightarrow> (int \<times> 's) option) option"
  op_read :: "(string \<Rightarrow> string \<Rightarrow> u32 \<Rightarrow> u32 \<Rightarrow> 's \<Rightarrow> ((int \<times> string \<times> u32) \<times> 's) option) option"
  op_delete :: "(string \<Rightarrow> 's \<Rightarrow> (int \<times> 's) option) option"
  op_list :: "('s \<Rightarrow> ((int \<times> fs_file_info list \<times> int) \<times> 's) option) option"
  op_mkdir :: "(string \<Rightarrow> 's \<Rightarrow> (int \<times> 's) option) option"
  op_rmdir :: "(string \<Rightarrow> 's \<Rightarrow> (int \<times> 's) option) option"
  op_chdir :: "(string \<Rightarrow> 's \<Rightarrow> (int \<times> 's) option) option"
  op_getcwd :: "('s \<Rightarrow> string) option"
  op_disk_info :: "('s \<Rightarrow> ((u32 \<times> u32 \<times> u32) \<times> 's) option) option"

definition VFS_MAX_MOUNTS :: nat where "VFS_MAX_MOUNTS = 8"

record 's mount =
  mpath :: string
  mops :: "'s vfs_ops option"

record 's vfs_state =
  mounts :: "'s mount list"
  mount_count :: nat

section \<open>Mounting\<close>

definition is_sep :: "char \<Rightarrow> bool" where
  "is_sep c \<longleftrightarrow> c = CHR ''/'' \<or> c = NUL"

definition vfs_init :: "'s vfs_state \<Rightarrow> 's vfs_state" where
  "vfs_init v = v\<lparr>mount_count := 0, mounts := map (\<lambda>m. m\<lparr>mpath := (mpath m)[0 := NUL], mops := None\<rparr>) (mounts v)\<rparr>"

text \<open>\<open>while (len > 1 && path[len - 1] == '/') len--;\<close>\<close>

fun strip_slashes :: "string \<Rightarrow> nat \<Rightarrow> nat" where
  "strip_slashes path (Suc (Suc k)) =
     (if path ! Suc k = CHR ''/'' then strip_slashes path (Suc k) else Suc (Suc k))"
| "strip_slashes path n = n"

definition mount_matches :: "string \<Rightarrow> nat \<Rightarrow> 's mount \<Rightarrow> bool" where
  "mount_matches path len m \<longleftrightarrow>
     strncmp (mpath m) (cstr path) len = Some 0 \<and> len < length (mpath m) \<and> mpath m ! len = NUL"

definition vfs_mount :: "string \<Rightarrow> 's vfs_ops \<Rightarrow> 's vfs_state \<Rightarrow> (int \<times> 's vfs_state) option" where
  "vfs_mount path ops v =
     (if cstr path ! 0 \<noteq> CHR ''/'' then Some (-1, v)
      else if length path = 0 \<or> length path \<ge> 32 then Some (-1, v)
      else
        (let len = strip_slashes path (length path) in
         case find_idx (mount_matches path len) (take (mount_count v) (mounts v)) of
           Some i \<Rightarrow> Some (0, v\<lparr>mounts := (mounts v)[i := (mounts v ! i)\<lparr>mops := Some ops\<rparr>]\<rparr>)
         | None \<Rightarrow>
             if mount_count v \<ge> VFS_MAX_MOUNTS then Some (-1, v)
             else do {
               p \<leftarrow> strncpy (mpath (mounts v ! mount_count v)) (cstr path) len;
               Some (0, v\<lparr>mounts := (mounts v)[mount_count v :=
                            (mounts v ! mount_count v)\<lparr>mpath := p[len := NUL], mops := Some ops\<rparr>],
                          mount_count := mount_count v + 1\<rparr>) }))"

definition vfs_mount_root :: "'s vfs_ops \<Rightarrow> 's vfs_state \<Rightarrow> (int \<times> 's vfs_state) option" where
  "vfs_mount_root ops v = vfs_mount ''/'' ops v"

text \<open>\<open>for (j = i; j < mount_count - 1; j++) mounts[j] = mounts[j + 1];\<close>\<close>

definition close_gap :: "nat \<Rightarrow> nat \<Rightarrow> 'a list \<Rightarrow> 'a list" where
  "close_gap i n xs = fold (\<lambda>j ys. ys[j := ys ! (j + 1)]) [i..<n - 1] xs"

definition vfs_umount :: "string \<Rightarrow> 's vfs_state \<Rightarrow> int \<times> 's vfs_state" where
  "vfs_umount path v =
     (if cstr path ! 0 \<noteq> CHR ''/'' \<or> strcmp (cstr path) (cstr ''/'') = Some 0 then (-1, v)
      else case find_idx (\<lambda>m. strcmp (mpath m) (cstr path) = Some 0) (take (mount_count v) (mounts v)) of
        None \<Rightarrow> (-1, v)
      | Some i \<Rightarrow>
          (let ms = close_gap i (mount_count v) (mounts v); n = mount_count v - 1
           in (0, v\<lparr>mounts := ms[n := (ms ! n)\<lparr>mpath := (mpath (ms ! n))[0 := NUL], mops := None\<rparr>],
                    mount_count := n\<rparr>)))"

text \<open>\<open>append\<close>: the text written so far grows while at least one byte stays free.\<close>

fun append_to :: "nat \<Rightarrow> string \<Rightarrow> string \<Rightarrow> string" where
  "append_to mx out [] = out"
| "append_to mx out (c # s) = (if length out + 1 < mx then append_to mx (out @ [c]) s else out)"

definition vfs_get_mounts :: "nat \<Rightarrow> 's vfs_state \<Rightarrow> (string \<times> nat) option" where
  "vfs_get_mounts max_size v =
     (if max_size = 0 then None
      else let out = fold (\<lambda>m out. append_to max_size (append_to max_size (append_to max_size
               (append_to max_size out (c_content (mpath m))) '' '')
               (case mops m of Some ops \<Rightarrow> op_name ops | None \<Rightarrow> ''none'')) [CHR 0x0A])
             (take (mount_count v) (mounts v)) []
           in Some (cstr out, length out))"

section \<open>Resolution\<close>

text \<open>One round of the loop of \<open>resolve\<close>; \<open>best\<close> is an index and its path length.\<close>

definition resolve_step :: "string \<Rightarrow> 's vfs_state \<Rightarrow> nat \<Rightarrow> (nat \<times> nat) option \<Rightarrow> (nat \<times> nat) option" where
  "resolve_step path v i best =
     (let p = mpath (mounts v ! i); len = length (c_content p); best_len = (case best of None \<Rightarrow> -1 | Some (_, l) \<Rightarrow> int l)
      in if len = 1 then (if best_len < 1 then Some (i, 1) else best)
         else if strncmp (cstr path) p len = Some 0 \<and> is_sep (cstr path ! len) \<and> int len > best_len
         then Some (i, len) else best)"

definition resolve :: "string \<Rightarrow> 's vfs_state \<Rightarrow> ('s vfs_ops \<times> string) option" where
  "resolve path v =
     (if mount_count v = 0 then None
      else if path = [] \<or> path ! 0 \<noteq> CHR ''/'' then map_option (\<lambda>ops. (ops, path)) (mops (mounts v ! 0))
      else case fold (resolve_step path v) [0..<mount_count v] None of
        None \<Rightarrow> None
      | Some (best, best_len) \<Rightarrow>
          map_option (\<lambda>ops. (ops, if best_len = 1 then drop 1 path
                           else if cstr path ! best_len = CHR ''/'' then drop (best_len + 1) path else []))
            (mops (mounts v ! best)))"

definition vfs_get_root_type :: "'s vfs_state \<Rightarrow> string" where
  "vfs_get_root_type v =
     (if mount_count v > 0 then case mops (mounts v ! 0) of Some ops \<Rightarrow> op_name ops | None \<Rightarrow> ''none'' else ''none'')"

text \<open>\<open>ops && ops->f ? ops->f(sub, ...) : -1\<close>\<close>

definition vfs_create :: "string \<Rightarrow> string \<Rightarrow> u32 \<Rightarrow> 's vfs_state \<Rightarrow> 's \<Rightarrow> (int \<times> 's) option" where
  "vfs_create path data sz v s =
     (case resolve path v of
        Some (ops, sub) \<Rightarrow> (case op_create ops of Some f \<Rightarrow> f sub data sz s | None \<Rightarrow> Some (-1, s))
      | None \<Rightarrow> Some (-1, s))"

definition vfs_read ::
    "string \<Rightarrow> string \<Rightarrow> u32 \<Rightarrow> u32 \<Rightarrow> 's vfs_state \<Rightarrow> 's \<Rightarrow> ((int \<times> string \<times> u32) \<times> 's) option" where
  "vfs_read path buffer sz max_size v s =
     (case resolve path v of
        Some (ops, sub) \<Rightarrow>
          (case op_read ops of Some f \<Rightarrow> f sub buffer sz max_size s | None \<Rightarrow> Some ((-1, buffer, sz), s))
      | None \<Rightarrow> Some ((-1, buffer, sz), s))"

definition vfs_delete :: "string \<Rightarrow> 's vfs_state \<Rightarrow> 's \<Rightarrow> (int \<times> 's) option" where
  "vfs_delete path v s =
     (case resolve path v of
        Some (ops, sub) \<Rightarrow> (case op_delete ops of Some f \<Rightarrow> f sub s | None \<Rightarrow> Some (-1, s))
      | None \<Rightarrow> Some (-1, s))"

definition vfs_list :: "'s vfs_state \<Rightarrow> 's \<Rightarrow> ((int \<times> fs_file_info list \<times> int) \<times> 's) option" where
  "vfs_list v s =
     (case resolve [] v of
        Some (ops, sub) \<Rightarrow> (case op_list ops of Some f \<Rightarrow> f s | None \<Rightarrow> Some ((-1, [], 0), s))
      | None \<Rightarrow> Some ((-1, [], 0), s))"

definition vfs_mkdir :: "string \<Rightarrow> 's vfs_state \<Rightarrow> 's \<Rightarrow> (int \<times> 's) option" where
  "vfs_mkdir path v s =
     (case resolve path v of
        Some (ops, sub) \<Rightarrow> (case op_mkdir ops of Some f \<Rightarrow> f sub s | None \<Rightarrow> Some (-1, s))
      | None \<Rightarrow> Some (-1, s))"

definition vfs_rmdir :: "string \<Rightarrow> 's vfs_state \<Rightarrow> 's \<Rightarrow> (int \<times> 's) option" where
  "vfs_rmdir path v s =
     (case resolve path v of
        Some (ops, sub) \<Rightarrow> (case op_rmdir ops of Some f \<Rightarrow> f sub s | None \<Rightarrow> Some (-1, s))
      | None \<Rightarrow> Some (-1, s))"

definition vfs_chdir :: "string \<Rightarrow> 's vfs_state \<Rightarrow> 's \<Rightarrow> (int \<times> 's) option" where
  "vfs_chdir path v s =
     (case resolve path v of
        Some (ops, sub) \<Rightarrow> (case op_chdir ops of Some f \<Rightarrow> f sub s | None \<Rightarrow> Some (-1, s))
      | None \<Rightarrow> Some (-1, s))"

definition vfs_getcwd :: "'s vfs_state \<Rightarrow> 's \<Rightarrow> string" where
  "vfs_getcwd v s =
     (if mount_count v > 0 then
        case mops (mounts v ! 0) of
          Some ops \<Rightarrow> (case op_getcwd ops of Some f \<Rightarrow> f s | None \<Rightarrow> ''/'')
        | None \<Rightarrow> ''/''
      else ''/'')"

definition vfs_get_disk_info :: "'s vfs_state \<Rightarrow> 's \<Rightarrow> ((u32 \<times> u32 \<times> u32) \<times> 's) option" where
  "vfs_get_disk_info v s =
     (if mount_count v > 0 then
        case mops (mounts v ! 0) of
          Some ops \<Rightarrow> (case op_disk_info ops of Some f \<Rightarrow> f s | None \<Rightarrow> Some ((0, 0, 0), s))
        | None \<Rightarrow> Some ((0, 0, 0), s)
      else Some ((0, 0, 0), s))"

section \<open>Longest prefix\<close>

definition mount_name :: "'s vfs_state \<Rightarrow> nat \<Rightarrow> string" where
  "mount_name v i = c_content (mpath (mounts v ! i))"

definition vfs_wf :: "'s vfs_state \<Rightarrow> bool" where
  "vfs_wf v \<longleftrightarrow> length (mounts v) = 8 \<and> mount_count v \<le> 8 \<and>
     (\<forall>m \<in> set (mounts v). length (mpath m) = 32) \<and>
     (\<forall>i < mount_count v. NUL \<in> set (mpath (mounts v ! i)) \<and> mount_name v i \<noteq> [] \<and>
        hd (mount_name v i) = CHR ''/'')"

text \<open>\<open>path\<close> lies at or below the mount point \<open>mp\<close>.\<close>

definition below :: "string \<Rightarrow> string \<Rightarrow> bool" where
  "below mp path \<longleftrightarrow> mp = ''/'' \<or> (\<exists>rest. path = mp @ rest \<and> (rest = [] \<or> hd rest = CHR ''/''))"

lemma below_test:
  assumes "NUL \<notin> set path" "NUL \<in> set p" "c_content p \<noteq> ''/''"
  shows "strncmp (cstr path) p (length (c_content p)) = Some 0 \<and> is_sep (cstr path ! length (c_content p))
    \<longleftrightarrow> below (c_content p) path"
proof -
  let ?n = "length (c_content p)"
  obtain r where r: "p = c_content p @ NUL # r"
    using split_c_content [OF assms(2)] by blast
  have cp: "c_content (cstr path) = path"
    using assms(1) by (simp add: c_content_def takeWhile_until)
  have "strncmp (cstr path) p ?n = Some 0 \<longleftrightarrow> take ?n path = c_content p"
    using strncmp_prefix [of "c_content p" ?n "cstr path" "NUL # r"] r cp by simp
  moreover have "is_sep (cstr path ! ?n) \<longleftrightarrow> drop ?n path = [] \<or> hd (drop ?n path) = CHR ''/''"
    if "take ?n path = c_content p"
  proof -
    have "?n \<le> length path"
      using that by (metis length_take min.absorb_iff2 min.commute)
    moreover have "?n < length path \<Longrightarrow> path ! ?n \<noteq> NUL"
      using assms(1) nth_mem by metis
    ultimately show ?thesis
      by (cases "?n = length path") (auto simp: is_sep_def nth_append hd_drop_conv_nth)
  qed
  moreover have "below (c_content p) path \<longleftrightarrow>
      take ?n path = c_content p \<and> (drop ?n path = [] \<or> hd (drop ?n path) = CHR ''/'')"
  proof
    assume "below (c_content p) path"
    then obtain rest where "path = c_content p @ rest" "rest = [] \<or> hd rest = CHR ''/''"
      using assms(3) by (auto simp: below_def)
    then show "take ?n path = c_content p \<and> (drop ?n path = [] \<or> hd (drop ?n path) = CHR ''/'')"
      by simp
  next
    assume a: "take ?n path = c_content p \<and> (drop ?n path = [] \<or> hd (drop ?n path) = CHR ''/'')"
    then have "path = c_content p @ drop ?n path"
      by (metis append_take_drop_id)
    with a show "below (c_content p) path"
      by (auto simp: below_def)
  qed
  ultimately show ?thesis
    by blast
qed

lemma root_name:
  assumes "vfs_wf v" "i < mount_count v"
  shows "length (mount_name v i) = 1 \<longleftrightarrow> mount_name v i = ''/''"
  using assms by (cases "mount_name v i") (auto simp: vfs_wf_def)

definition best_upto :: "string \<Rightarrow> 's vfs_state \<Rightarrow> nat \<Rightarrow> (nat \<times> nat) option \<Rightarrow> bool" where
  "best_upto path v n best \<longleftrightarrow>
     (case best of
        None \<Rightarrow> \<forall>i < n. \<not> below (mount_name v i) path
      | Some (b, l) \<Rightarrow> b < n \<and> l = length (mount_name v b) \<and> below (mount_name v b) path \<and>
          (\<forall>i < n. below (mount_name v i) path \<longrightarrow> length (mount_name v i) \<le> l))"

lemma resolve_fold:
  assumes wf: "vfs_wf v" and p: "NUL \<notin> set path"
  shows "n \<le> mount_count v \<Longrightarrow> best_upto path v n (fold (resolve_step path v) [0..<n] None)"
proof (induction n)
  case 0
  then show ?case by (simp add: best_upto_def)
next
  case (Suc n)
  let ?b = "fold (resolve_step path v) [0..<n] None"
  have ih: "best_upto path v n ?b"
    using Suc by simp
  have n: "n < mount_count v" "NUL \<in> set (mpath (mounts v ! n))" "mount_name v n \<noteq> []"
    using Suc.prems wf by (auto simp: vfs_wf_def)
  have len: "length (mount_name v n) > 0"
    using n(3) by simp
  show ?case
  proof (cases "mount_name v n = ''/''")
    case True
    then have "resolve_step path v n ?b = (case ?b of None \<Rightarrow> Some (n, 1) | Some (_, l) \<Rightarrow> if l < 1 then Some (n, 1) else ?b)"
      by (auto simp: resolve_step_def mount_name_def split: option.splits)
    moreover have "below (mount_name v n) path"
      using True by (simp add: below_def)
    moreover have "b < n \<Longrightarrow> 1 \<le> length (mount_name v b)" for b
      using wf n(1) by (cases "mount_name v b") (auto simp: vfs_wf_def)
    ultimately show ?thesis
      using ih True by (auto simp: best_upto_def less_Suc_eq split: option.splits)
  next
    case False
    then have "resolve_step path v n ?b =
        (if below (mount_name v n) path \<and> int (length (mount_name v n)) > (case ?b of None \<Rightarrow> -1 | Some (_, l) \<Rightarrow> int l)
         then Some (n, length (mount_name v n)) else ?b)"
      using below_test [OF p n(2)] root_name [OF wf n(1)]
      by (auto simp: resolve_step_def mount_name_def Let_def)
    with ih len show ?thesis
      by (auto simp: best_upto_def less_Suc_eq split: option.splits)
  qed
qed

section \<open>Mounting keeps the table well formed\<close>

lemma strip_slashes_bounds:
  "strip_slashes path n \<le> n" "0 < n \<Longrightarrow> 0 < strip_slashes path n"
  by (induction path n rule: strip_slashes.induct) auto

lemma strip_slashes_last:
  "1 < strip_slashes path n \<Longrightarrow> path ! (strip_slashes path n - 1) \<noteq> CHR ''/''"
  by (induction path n rule: strip_slashes.induct) auto

definition mount_point :: "string \<Rightarrow> string" where
  "mount_point path = take (strip_slashes path (length path)) path"

lemma mount_point_props:
  assumes "path \<noteq> []" "hd path = CHR ''/''" "NUL \<notin> set path"
  shows "mount_point path \<noteq> []" "hd (mount_point path) = CHR ''/''" "NUL \<notin> set (mount_point path)"
    "length (mount_point path) = strip_slashes path (length path)"
  using assms strip_slashes_bounds [where path = path and n = "length path"] in_set_takeD [of NUL _ path]
  by (auto simp: mount_point_def)

lemma mount_matches_iff:
  assumes "NUL \<notin> set path" "NUL \<in> set (mpath m)"
  shows "mount_matches path (strip_slashes path (length path)) m \<longleftrightarrow> c_content (mpath m) = mount_point path"
proof -
  let ?n = "strip_slashes path (length path)"
  have n: "?n \<le> length path"
    by (rule strip_slashes_bounds)
  then have len: "length (mount_point path) = ?n"
    by (simp add: mount_point_def)
  have nn: "NUL \<notin> set (mount_point path)"
    using assms(1) in_set_takeD by (fastforce simp: mount_point_def)
  have pre: "strncmp (mpath m) (cstr path) ?n = Some 0 \<longleftrightarrow> take ?n (c_content (mpath m)) = mount_point path"
  proof -
    have "cstr path = mount_point path @ drop ?n path @ [NUL]"
      by (simp add: mount_point_def)
    with strncmp_prefix [OF nn len assms(2), of "drop ?n path @ [NUL]"] show ?thesis
      by (simp only:)
  qed
  obtain r where r: "mpath m = c_content (mpath m) @ NUL # r"
    using split_c_content [OF assms(2)] by blast
  show ?thesis
  proof
    assume a: "mount_matches path ?n m"
    then have t: "take ?n (c_content (mpath m)) = mount_point path" and z: "mpath m ! ?n = NUL"
      using pre by (auto simp: mount_matches_def)
    have le: "?n \<le> length (c_content (mpath m))"
      using arg_cong [OF t, of length] len by simp
    have "\<not> ?n < length (c_content (mpath m))"
      using z r by (metis NUL_notin_c_content nth_append nth_mem)
    with t le show "c_content (mpath m) = mount_point path"
      by simp
  next
    assume a: "c_content (mpath m) = mount_point path"
    have "?n < length (mpath m)" "mpath m ! ?n = NUL"
      using r a len by (metis length_append length_Cons less_add_Suc1 add_Suc_right, metis nth_append_length)
    with a pre len show "mount_matches path ?n m"
      by (simp add: mount_matches_def)
  qed
qed

lemma vfs_mount_new:
  assumes wf: "vfs_wf v" and p: "path \<noteq> []" "hd path = CHR ''/''" "NUL \<notin> set path" "length path < 32"
    and none: "\<forall>i < mount_count v. mount_name v i \<noteq> mount_point path" and room: "mount_count v < 8"
  obtains v' where "vfs_mount path ops v = Some (0, v')" "vfs_wf v'" "mount_count v' = Suc (mount_count v)"
    "mount_name v' (mount_count v) = mount_point path" "mops (mounts v' ! mount_count v) = Some ops"
    "\<forall>i < mount_count v. mounts v' ! i = mounts v ! i"
proof -
  let ?n = "strip_slashes path (length path)" and ?m = "mounts v ! mount_count v"
  have wfm: "length (mounts v) = 8" "mount_count v \<le> 8"
    using wf by (auto simp: vfs_wf_def)
  have g: "\<not> (cstr path ! 0 \<noteq> CHR ''/'')" "\<not> (length path = 0 \<or> length path \<ge> 32)"
    using p by (auto simp: hd_conv_nth nth_append)
  note mp = mount_point_props [OF p(1-3)]
  have None: "find_idx (mount_matches path ?n) (take (mount_count v) (mounts v)) = None"
  proof -
    have "\<not> mount_matches path ?n m" if m: "m \<in> set (take (mount_count v) (mounts v))" for m
    proof -
      obtain i where i: "i < mount_count v" "m = mounts v ! i"
        using m wfm by (auto simp: in_set_conv_nth)
      then show ?thesis
        using mount_matches_iff [OF p(3), of m] wf none by (simp add: mount_name_def vfs_wf_def)
    qed
    then show ?thesis
      by (simp add: find_idx_None_iff)
  qed
  have ml: "length (mpath ?m) = 32"
    using wf room by (simp add: vfs_wf_def)
  have sc: "strncpy (mpath ?m) (cstr path) ?n = Some (mount_point path @ drop ?n (mpath ?m))"
    using strncpy_long [of path ?n "mpath ?m" "[]"] p(3,4) strip_slashes_bounds(1) [of path "length path"] ml
    by (simp add: mount_point_def)
  let ?p = "(mount_point path @ drop ?n (mpath ?m))[?n := NUL]"
  have n32: "?n < 32"
    using strip_slashes_bounds(1) [of path "length path"] p(4) by simp
  have "?p = mount_point path @ NUL # drop (Suc ?n) (mpath ?m)"
    using mp(4) ml n32 by (simp add: list_update_append Cons_nth_drop_Suc [symmetric])
  then have cp: "c_content ?p = mount_point path" "length ?p = 32" "NUL \<in> set ?p"
    using mp(3,4) ml n32 by (simp_all add: c_content_def takeWhile_until)
  let ?v = "v\<lparr>mounts := (mounts v)[mount_count v := ?m\<lparr>mpath := ?p, mops := Some ops\<rparr>],
              mount_count := mount_count v + 1\<rparr>"
  have nm: "mount_name ?v j = (if j = mount_count v then mount_point path else mount_name v j)"
    "mpath (mounts ?v ! j) = (if j = mount_count v then ?p else mpath (mounts v ! j))" if "j < 8" for j
    using that wfm cp room by (auto simp: mount_name_def nth_list_update)
  show thesis
  proof (rule that [of ?v])
    show "vfs_mount path ops v = Some (0, ?v)"
      using g None room sc unfolding vfs_mount_def by (simp add: Let_def VFS_MAX_MOUNTS_def)
    show "vfs_wf ?v"
      using wf wfm room cp mp nm
      by (auto simp: vfs_wf_def less_Suc_eq dest!: subsetD [OF set_update_subset_insert])
    show "mount_name ?v (mount_count v) = mount_point path"
      using nm(1) room by simp
    show "mops (mounts ?v ! mount_count v) = Some ops" "\<forall>i < mount_count v. mounts ?v ! i = mounts v ! i"
      using wfm room by simp_all
  qed simp
qed

lemma vfs_mount_spec:
  assumes wf: "vfs_wf v" and p: "path \<noteq> []" "hd path = CHR ''/''" "NUL \<notin> set path" "length path < 32"
  shows "\<exists>r v'. vfs_mount path ops v = Some (r, v') \<and> vfs_wf v' \<and>
    (if mount_count v = 8 \<and> (\<forall>i < 8. mount_name v i \<noteq> mount_point path) then r = -1 \<and> v' = v
     else r = 0 \<and> (\<exists>i < mount_count v'. mount_name v' i = mount_point path \<and> mops (mounts v' ! i) = Some ops))"
proof -
  let ?n = "strip_slashes path (length path)"
  have wfm: "length (mounts v) = 8" "mount_count v \<le> 8"
    using wf by (auto simp: vfs_wf_def)
  have g: "\<not> (cstr path ! 0 \<noteq> CHR ''/'')" "\<not> (length path = 0 \<or> length path \<ge> 32)"
    using p by (auto simp: hd_conv_nth nth_append)
  note mp = mount_point_props [OF p(1-3)]
  have mm: "mount_matches path ?n (mounts v ! i) \<longleftrightarrow> mount_name v i = mount_point path" if "i < mount_count v" for i
    using mount_matches_iff [OF p(3), of "mounts v ! i"] wf that by (simp add: mount_name_def vfs_wf_def)
  show ?thesis
  proof (cases "find_idx (mount_matches path ?n) (take (mount_count v) (mounts v))")
    case (Some i)
    let ?v = "v\<lparr>mounts := (mounts v)[i := (mounts v ! i)\<lparr>mops := Some ops\<rparr>]\<rparr>"
    have i: "i < mount_count v" "mount_name v i = mount_point path"
      using find_idx_SomeD [OF Some] mm wfm by auto
    have nm: "mpath (mounts ?v ! j) = mpath (mounts v ! j)" if "j < 8" for j
      using that wfm by (cases "j = i") auto
    have "vfs_wf ?v"
      using wf nm wfm set_update_subset_insert [of "mounts v" i] i(1)
      by (auto simp: vfs_wf_def mount_name_def dest!: subsetD [OF set_update_subset_insert])
    moreover have "vfs_mount path ops v = Some (0, ?v)"
      using g Some unfolding vfs_mount_def by (simp add: Let_def)
    moreover have "mount_name ?v i = mount_point path" "mops (mounts ?v ! i) = Some ops"
      using i wfm nm by (auto simp: mount_name_def)
    ultimately show ?thesis
      using i wfm by (auto intro!: exI [of _ i])
  next
    case None
    have none: "mount_name v i \<noteq> mount_point path" if "i < mount_count v" for i
    proof -
      have "mounts v ! i \<in> set (take (mount_count v) (mounts v))"
        using that wfm by (auto simp: in_set_conv_nth intro!: exI [of _ i])
      with None mm [OF that] show ?thesis
        by (auto simp: find_idx_None_iff)
    qed
    show ?thesis
    proof (cases "mount_count v \<ge> 8")
      case True
      then have "vfs_mount path ops v = Some (-1, v)"
        using g None unfolding vfs_mount_def by (simp add: Let_def VFS_MAX_MOUNTS_def)
      with True wf none wfm show ?thesis
        by auto
    next
      case False
      then obtain v' where "vfs_mount path ops v = Some (0, v')" "vfs_wf v'" "mount_count v' = Suc (mount_count v)"
        "mount_name v' (mount_count v) = mount_point path" "mops (mounts v' ! mount_count v) = Some ops"
        using vfs_mount_new [OF wf p, of ops thesis] none by auto
      then show ?thesis
        using False by (auto intro!: exI [of _ "mount_count v"])
    qed
  qed
qed

section \<open>Properties\<close>

text \<open>C29. On a well-formed mount table an absolute path resolves to the mount with the longest
  mount point at or above it, and to the part of the path below that point; it resolves to
  nothing exactly when no mount point lies above it.\<close>
theorem resolve_longest_prefix:
  assumes "vfs_wf v" "NUL \<notin> set path" "path \<noteq> []" "hd path = CHR ''/''"
  shows "if \<exists>i < mount_count v. below (mount_name v i) path
    then \<exists>i < mount_count v. below (mount_name v i) path \<and>
        (\<forall>j < mount_count v. below (mount_name v j) path \<longrightarrow> length (mount_name v j) \<le> length (mount_name v i)) \<and>
        resolve path v = map_option (\<lambda>ops. (ops, if mount_name v i = ''/'' then tl path
            else drop (length (mount_name v i) + 1) path)) (mops (mounts v ! i))
    else resolve path v = None"
proof (cases "fold (resolve_step path v) [0..<mount_count v] None")
  case None
  then have "\<forall>i < mount_count v. \<not> below (mount_name v i) path"
    using resolve_fold [OF assms(1,2) order_refl] by (simp add: best_upto_def)
  moreover have "resolve path v = None"
    using None assms(3,4) by (auto simp: resolve_def hd_conv_nth)
  ultimately show ?thesis
    by auto
next
  case (Some bl)
  obtain b l where bl: "bl = (b, l)"
    by (cases bl)
  have b: "b < mount_count v" "l = length (mount_name v b)" "below (mount_name v b) path"
    "\<forall>i < mount_count v. below (mount_name v i) path \<longrightarrow> length (mount_name v i) \<le> l"
    using resolve_fold [OF assms(1,2) order_refl] Some bl by (auto simp: best_upto_def)
  have sub: "(if l = 1 then drop 1 path else if cstr path ! l = CHR ''/'' then drop (l + 1) path else []) =
      (if mount_name v b = ''/'' then tl path else drop (length (mount_name v b) + 1) path)"
  proof (cases "mount_name v b = ''/''")
    case True
    then show ?thesis
      using b(2) by (simp add: drop_Suc)
  next
    case False
    then obtain rest where "path = mount_name v b @ rest" "rest = [] \<or> hd rest = CHR ''/''"
      using b(3) by (auto simp: below_def)
    moreover have "l \<noteq> 1"
      using False root_name [OF assms(1) b(1)] b(2) by simp
    ultimately show ?thesis
      using False b(2) by (auto simp: nth_append hd_conv_nth)
  qed
  have "resolve path v = map_option (\<lambda>ops. (ops, if mount_name v b = ''/'' then tl path
            else drop (length (mount_name v b) + 1) path)) (mops (mounts v ! b))"
    using Some bl assms(3,4) b(1) unfolding resolve_def sub [symmetric] by (simp add: hd_conv_nth)
  with b show ?thesis
    by auto
qed

definition no_ops :: "string \<Rightarrow> 's vfs_ops" where
  "no_ops n = \<lparr>op_name = n, op_create = None, op_read = None, op_delete = None, op_list = None,
     op_mkdir = None, op_rmdir = None, op_chdir = None, op_getcwd = None, op_disk_info = None\<rparr>"

definition demo_vfs :: "unit vfs_state" where
  "demo_vfs = \<lparr>mounts = \<lparr>mpath = ''/'' @ replicate 31 NUL, mops = Some (no_ops ''r'')\<rparr>
       # \<lparr>mpath = ''/dev'' @ replicate 28 NUL, mops = Some (no_ops ''d'')\<rparr>
       # replicate 6 \<lparr>mpath = replicate 32 NUL, mops = None\<rparr>, mount_count = 2\<rparr>"

lemma demo_vfs_wf: "vfs_wf demo_vfs" "mount_name demo_vfs 0 = ''/''" "mount_name demo_vfs 1 = ''/dev''"
proof -
  show n: "mount_name demo_vfs 0 = ''/''" "mount_name demo_vfs 1 = ''/dev''"
    by (simp_all add: mount_name_def demo_vfs_def c_content_def)
  have all: "(\<forall>i < 2. P i) \<longleftrightarrow> P 0 \<and> P 1" for P :: "nat \<Rightarrow> bool"
    by (auto simp: less_2_cases_iff)
  have f: "length (mounts demo_vfs) = 8" "mount_count demo_vfs = 2"
    "\<forall>m \<in> set (mounts demo_vfs). length (mpath m) = 32"
    "NUL \<in> set (mpath (mounts demo_vfs ! 0))" "NUL \<in> set (mpath (mounts demo_vfs ! 1))"
    by (simp_all add: demo_vfs_def)
  show "vfs_wf demo_vfs"
    unfolding vfs_wf_def f(1,2) all using f(3-5) n by simp
qed

theorem resolve_longest_prefix_witness:
  "resolve ''/dev/null'' demo_vfs = Some (no_ops ''d'', ''null'')"
proof -
  have b: "below ''/dev'' ''/dev/null''" "below ''/'' ''/dev/null''"
    by (auto simp: below_def intro!: exI [of _ "''/null''"])
  have c: "mount_count demo_vfs = 2" "mops (mounts demo_vfs ! 1) = Some (no_ops ''d'')"
    by (simp_all add: demo_vfs_def)
  have ex: "\<exists>i < mount_count demo_vfs. below (mount_name demo_vfs i) ''/dev/null''"
    using b(2) demo_vfs_wf(2) c(1) by (intro exI [of _ 0]) simp
  obtain i where i: "i < mount_count demo_vfs"
    "\<forall>j < mount_count demo_vfs. below (mount_name demo_vfs j) ''/dev/null'' \<longrightarrow>
       length (mount_name demo_vfs j) \<le> length (mount_name demo_vfs i)"
    "resolve ''/dev/null'' demo_vfs = map_option (\<lambda>ops. (ops, if mount_name demo_vfs i = ''/''
       then tl ''/dev/null'' else drop (length (mount_name demo_vfs i) + 1) ''/dev/null'')) (mops (mounts demo_vfs ! i))"
    using resolve_longest_prefix [OF demo_vfs_wf(1), of "''/dev/null''", unfolded if_P [OF ex]] by force
  have "4 \<le> length (mount_name demo_vfs i)"
    using i(2) [rule_format, of 1] b(1) c(1) demo_vfs_wf(3) by simp
  then have "i \<noteq> 0"
    using demo_vfs_wf(2) by (intro notI) simp
  then have "i = 1"
    using i(1) c(1) by simp
  with i(3) c(2) demo_vfs_wf(3) show ?thesis
    by simp
qed



end
