(* ===== verification/Process.thy ===== *)
theory Process
  imports VmmMap CString "HOL-Library.Monad_Syntax"
begin

text \<open>
  Processes and the scheduler (\<open>kernel/process/process.c\<close>), with the file descriptor table of
  \<open>kernel/syscall.c\<close> that process cleanup closes and the tick counter of the timer driver. A
  process pointer is a slot index. The three calls that wait in a loop for the scheduler
  (\<open>process_exit\<close>, the blocking \<open>process_waitpid\<close>, \<open>process_sleep_ticks\<close>) are split at the loop:
  one operation up to it, and for \<open>process_waitpid\<close> one after it. \<open>None\<close> stands for a check that
  does not return or an access outside a buffer. Log lines are left out.
\<close>

unbundle bit_operations_syntax

section \<open>State\<close>

definition MAX_PROCESSES :: nat where "MAX_PROCESSES = 16"
definition PROCESS_KERNEL_STACK_SIZE :: u64 where "PROCESS_KERNEL_STACK_SIZE = 8192"
definition PROCESS_USER_STACK_PAGES :: nat where "PROCESS_USER_STACK_PAGES = 4"
definition PROCESS_MAX_USER_PAGES :: nat where "PROCESS_MAX_USER_PAGES = 256"
definition SEL_KERNEL_CS :: u64 where "SEL_KERNEL_CS = 0x08"
definition SEL_KERNEL_DS :: u64 where "SEL_KERNEL_DS = 0x10"
definition SEL_USER_DS :: u64 where "SEL_USER_DS = 0x2B"
definition SEL_USER_CS :: u64 where "SEL_USER_CS = 0x33"
definition USER_CODE_BASE :: u64 where "USER_CODE_BASE = 0x00200000"
definition USER_STACK_BASE :: u64 where "USER_STACK_BASE = 0x00800000"
definition USER_STACK_TOP :: u64 where "USER_STACK_TOP = USER_STACK_BASE + of_nat PROCESS_USER_STACK_PAGES * 4096"
definition USER_API_BASE :: u64 where "USER_API_BASE = 0x00090000"
definition USER_ARGV_BASE :: u64 where "USER_ARGV_BASE = 0x00091000"
definition TIME_QUANTUM :: u32 where "TIME_QUANTUM = 5"

datatype process_state =
  PROC_UNUSED | PROC_LOADING | PROC_READY | PROC_RUNNING | PROC_BLOCKED | PROC_SLEEPING | PROC_TERMINATED

record cpu_context =
  ctx_gprs :: "u64 list"
  ctx_rip :: u64
  ctx_cs :: u64
  ctx_rflags :: u64
  ctx_rsp :: u64
  ctx_ss :: u64

record process =
  pid :: u64
  pstate :: process_state
  pname :: string
  kernel_rsp :: u64
  kernel_stack :: u64
  kernel_stack_top :: u64
  pcr3 :: u64
  is_user :: bool
  exit_code :: int
  detached :: bool
  wait_target :: u64
  wake_tick :: u64
  user_pages :: "u64 list"
  user_page_count :: nat

record fd_entry =
  fd_name :: string
  fd_data :: string
  fd_size :: u32
  fd_pos :: u32
  fd_used :: bool
  fd_owner_pid :: u64

record kstate =
  processes :: "process list"
  current_process :: "nat option"
  next_pid :: u64
  scheduling_enabled :: bool
  foreground_pid :: u64
  ticks_remaining :: u32
  system_ticks :: u32
  vm :: vmm_state
  fd_table :: "fd_entry list"
  tss_rsp0 :: u64
  kctx :: "nat \<Rightarrow> cpu_context"
  kernel_stacks :: u64
  stack_top :: u64

definition upd_proc :: "nat \<Rightarrow> (process \<Rightarrow> process) \<Rightarrow> kstate \<Rightarrow> kstate" where
  "upd_proc i f k = k\<lparr>processes := (processes k)[i := f (processes k ! i)]\<rparr>"

section \<open>Table and queries\<close>

definition timer_tick :: "kstate \<Rightarrow> kstate" where
  "timer_tick k = k\<lparr>system_ticks := system_ticks k + 1\<rparr>"

definition timer_get_ticks :: "kstate \<Rightarrow> u32" where
  "timer_get_ticks k = system_ticks k"

definition tss_set_rsp0 :: "u64 \<Rightarrow> kstate \<Rightarrow> kstate" where
  "tss_set_rsp0 r k = k\<lparr>tss_rsp0 := r\<rparr>"

definition process_set_foreground :: "u64 \<Rightarrow> kstate \<Rightarrow> kstate" where
  "process_set_foreground p k = k\<lparr>foreground_pid := p\<rparr>"

definition process_is_foreground :: "u64 \<Rightarrow> kstate \<Rightarrow> bool" where
  "process_is_foreground p k \<longleftrightarrow> foreground_pid k = p"

definition process_init :: "kstate \<Rightarrow> kstate option" where
  "process_init k = do {
     let ps = map (\<lambda>p. p\<lparr>pstate := PROC_UNUSED, pid := 0\<rparr>) (processes k);
     nm \<leftarrow> strcpy (pname (ps ! 0)) (cstr ''kernel'');
     Some (k\<lparr>processes := ps[0 := (ps ! 0)\<lparr>pid := 0, pstate := PROC_RUNNING, pname := nm, is_user := False,
               kernel_stack := 0, kernel_stack_top := stack_top k, kernel_rsp := 0, pcr3 := vmm_get_cr3 (vm k),
               exit_code := 0, detached := False, wait_target := 0, wake_tick := 0, user_page_count := 0\<rparr>],
             current_process := Some 0\<rparr>) }"

definition scheduler_start :: "kstate \<Rightarrow> kstate" where
  "scheduler_start k = k\<lparr>scheduling_enabled := True\<rparr>"

definition process_get_current :: "kstate \<Rightarrow> nat option" where
  "process_get_current k = current_process k"

definition process_get :: "u64 \<Rightarrow> kstate \<Rightarrow> nat option" where
  "process_get p k = find_idx (\<lambda>q. pstate q \<noteq> PROC_UNUSED \<and> pid q = p) (processes k)"

definition process_is_running :: "u64 \<Rightarrow> kstate \<Rightarrow> bool" where
  "process_is_running p k \<longleftrightarrow>
     (case process_get p k of
        None \<Rightarrow> False
      | Some i \<Rightarrow> pstate (processes k ! i) = PROC_RUNNING \<or> pstate (processes k ! i) = PROC_READY)"

definition process_list :: "kstate \<Rightarrow> process list \<times> nat" where
  "process_list k = (processes k, MAX_PROCESSES)"

definition syscall_close_process_fds :: "u64 \<Rightarrow> kstate \<Rightarrow> kstate" where
  "syscall_close_process_fds p k =
     k\<lparr>fd_table := map (\<lambda>f. if fd_used f \<and> fd_owner_pid f = p then f\<lparr>fd_used := False\<rparr> else f) (fd_table k)\<rparr>"

definition free_user_page :: "nat \<Rightarrow> nat \<Rightarrow> kstate \<Rightarrow> kstate" where
  "free_user_page i j k =
     (let pg = user_pages (processes k ! i) ! j;
          k1 = (if pg \<noteq> 0 then k\<lparr>vm := (vm k)\<lparr>vpmm := pmm_free_page pg (vpmm (vm k))\<rparr>\<rparr> else k)
      in upd_proc i (\<lambda>p. p\<lparr>user_pages := (user_pages p)[j := 0]\<rparr>) k1)"

definition process_cleanup :: "nat \<Rightarrow> kstate \<Rightarrow> kstate" where
  "process_cleanup i k =
     (if pid (processes k ! i) = 0 then k
      else
        (let k1 = syscall_close_process_fds (pid (processes k ! i)) k;
             k2 = fold (free_user_page i) [0..<user_page_count (processes k1 ! i)] k1;
             k3 = upd_proc i (\<lambda>p. p\<lparr>user_page_count := 0\<rparr>) k2;
             cr3 = pcr3 (processes k3 ! i);
             k4 = (if cr3 \<noteq> 0 \<and> cr3 \<noteq> vmm_get_kernel_cr3 (vm k3)
                   then k3\<lparr>vm := vmm_destroy_address_space cr3 (vm k3)\<rparr> else k3)
         in upd_proc i (\<lambda>p. p\<lparr>pcr3 := 0\<rparr>) k4))"

section \<open>User memory of a process\<close>

definition process_map_user_page :: "nat \<Rightarrow> u64 \<Rightarrow> u64 \<Rightarrow> kstate \<Rightarrow> (int \<times> kstate) option" where
  "process_map_user_page i virt flags k =
     (let p = processes k ! i in
      if \<not> is_user p \<or> pcr3 p = 0 then Some (-1, k)
      else do {
        mapped \<leftarrow> vmm_user_range_ok (pcr3 p) (virt AND NOT (PAGE_SIZE - 1)) 1 (vm k);
        if mapped then Some (0, k)
        else if user_page_count p \<ge> PROCESS_MAX_USER_PAGES then Some (-1, k)
        else case pmm_alloc_page (vpmm (vm k)) of (phys, q) \<Rightarrow>
          if phys = 0 then Some (-1, k\<lparr>vm := (vm k)\<lparr>vpmm := q\<rparr>\<rparr>)
          else
            (let v1 = (vm k)\<lparr>vpmm := q, pmem := (pmem (vm k))(phys := (\<lambda>_. 0))\<rparr>
             in case vmm_map_page_in (pcr3 p) virt phys (flags OR PTE_USER) v1 of (r, v2) \<Rightarrow>
                  if r \<noteq> 0 then Some (-1, k\<lparr>vm := v2\<lparr>vpmm := pmm_free_page phys (vpmm v2)\<rparr>\<rparr>)
                  else Some (0, upd_proc i (\<lambda>p. p\<lparr>user_pages := (user_pages p)[user_page_count p := phys],
                                                   user_page_count := user_page_count p + 1\<rparr>)
                                  (k\<lparr>vm := v2\<rparr>))) })"

definition phys_store :: "u64 \<Rightarrow> u8 \<Rightarrow> vmm_state \<Rightarrow> vmm_state" where
  "phys_store a b s =
     (let t = a AND NOT 0xFFF; j = unat (drop_bit 3 (a AND 0xFFF)); sh = 8 * unat (a AND 7)
      in set_entry t j ((pmem s t j AND NOT (push_bit sh 0xFF)) OR push_bit sh (ucast b)) s)"

primrec phys_write :: "bytes \<Rightarrow> u64 \<Rightarrow> vmm_state \<Rightarrow> vmm_state" where
  "phys_write [] a s = s"
| "phys_write (b # bs) a s = phys_write bs (a + 1) (phys_store a b s)"

definition page_left :: "u64 \<Rightarrow> nat" where
  "page_left virt = unat (PAGE_SIZE - (virt AND (PAGE_SIZE - 1)))"

lemma page_left_pos: "0 < page_left virt"
proof -
  have "PAGE_SIZE - 1 = (mask 12 :: u64)"
    by (simp add: PAGE_SIZE_def mask_eq_exp_minus_1)
  then have "unat (virt AND (PAGE_SIZE - 1)) < 2 ^ 12"
    using unat_and_mask_less [of virt 12] by simp
  then have "virt AND (PAGE_SIZE - 1) \<noteq> PAGE_SIZE"
    by (auto simp: PAGE_SIZE_def dest: arg_cong [of _ _ unat])
  then show ?thesis
    by (simp add: page_left_def unat_gt_0)
qed

function write_user_loop :: "u64 \<Rightarrow> u64 \<Rightarrow> bytes \<Rightarrow> vmm_state \<Rightarrow> int \<times> vmm_state" where
  "write_user_loop cr3 virt data s =
     (if data = [] then (0, s)
      else let phys = vmm_get_physical_in cr3 virt s in
        if phys = 0 then (-1, s)
        else let n = min (length data) (page_left virt)
             in write_user_loop cr3 (virt + of_nat n) (drop n data) (phys_write (take n data) phys s))"
  by pat_completeness auto
termination
  by (relation "measure (\<lambda>(cr3, virt, data, s). length data)") (auto simp: page_left_pos)

declare write_user_loop.simps [simp del]

definition process_write_user :: "nat \<Rightarrow> u64 \<Rightarrow> bytes \<Rightarrow> kstate \<Rightarrow> int \<times> kstate" where
  "process_write_user i virt data k =
     (if pcr3 (processes k ! i) = 0 then (-1, k)
      else case write_user_loop (pcr3 (processes k ! i)) virt data (vm k) of (r, v) \<Rightarrow> (r, k\<lparr>vm := v\<rparr>))"

definition process_zero_user :: "nat \<Rightarrow> u64 \<Rightarrow> u64 \<Rightarrow> kstate \<Rightarrow> int \<times> kstate" where
  "process_zero_user i virt sz k =
     (if pcr3 (processes k ! i) = 0 then (-1, k)
      else case write_user_loop (pcr3 (processes k ! i)) virt (replicate (unat sz) 0) (vm k) of
        (r, v) \<Rightarrow> (r, k\<lparr>vm := v\<rparr>))"

definition put64 :: "nat \<Rightarrow> u64 \<Rightarrow> bytes \<Rightarrow> bytes" where
  "put64 i v b = put32 (i + 4) (ucast (drop_bit 32 v)) (put32 i (ucast v) b)"

text \<open>The token loop of \<open>process_setup_user_args\<close>: \<open>s\<close> is the rest of the command line.\<close>

function args_loop :: "string \<Rightarrow> nat \<Rightarrow> nat \<Rightarrow> bytes \<Rightarrow> nat \<times> bytes" where
  "args_loop s argc pos page =
     (if s \<noteq> [] \<and> argc < 16 \<and> pos < 3959 then
        (let s1 = dropWhile (\<lambda>c. c = CHR '' '') s in
         if s1 = [] then (argc, page)
         else let tok = takeWhile (\<lambda>c. c \<noteq> CHR '' '') s1; len = length tok in
           if pos + len + 1 \<ge> 3960 then (argc, page)
           else args_loop (dropWhile (\<lambda>c. c \<noteq> CHR '' '') s1) (argc + 1) (pos + len + 1)
                  (put8 (136 + pos + len) 0 (put_bytes (136 + pos) (map of_char tok)
                    (put64 (8 * (1 + argc)) (USER_ARGV_BASE + 136 + of_nat pos) page))))
      else (argc, page))"
  by pat_completeness auto
termination
  by (relation "measure (\<lambda>(s, argc, pos, page). 16 - argc)") auto

declare args_loop.simps [simp del]

definition process_setup_user_args :: "nat \<Rightarrow> string \<Rightarrow> kstate \<Rightarrow> int \<times> kstate" where
  "process_setup_user_args i full_cmd k =
     (case args_loop full_cmd 0 0 (replicate 4096 0) of (argc, page) \<Rightarrow>
        process_write_user i USER_ARGV_BASE (put64 0 (of_nat argc) page) k)"

section \<open>Life cycle\<close>

definition sizeof_cpu_context :: u64 where "sizeof_cpu_context = 160"

primrec map_pages :: "nat \<Rightarrow> u64 list \<Rightarrow> u64 \<Rightarrow> kstate \<Rightarrow> (int \<times> kstate) option" where
  "map_pages i [] flags k = Some (0, k)"
| "map_pages i (a # as) flags k = do {
     (r, k1) \<leftarrow> process_map_user_page i a flags k;
     if r \<noteq> 0 then Some (r, k1) else map_pages i as flags k1 }"

text \<open>
  \<open>process_create\<close> in the order of the source: claim a slot and an address space; reset the fields and
  build the first context on the kernel stack; map the user pages; publish the state.
\<close>

definition create_claim :: "nat \<Rightarrow> string \<Rightarrow> bool \<Rightarrow> kstate \<Rightarrow> kstate option" where
  "create_claim slot name user k = do {
     nm \<leftarrow> strncpy (pname (processes k ! slot)) (cstr name) 31;
     let (cr3, v1) = (if user then vmm_create_address_space (vm k) else (vmm_get_cr3 (vm k), vm k));
     Some ((upd_proc slot (\<lambda>p. p\<lparr>pid := next_pid k, pname := nm[31 := NUL], is_user := user, pcr3 := cr3\<rparr>) k)
       \<lparr>next_pid := next_pid k + 1, vm := v1\<rparr>) }"

definition create_context :: "nat \<Rightarrow> u64 \<Rightarrow> bool \<Rightarrow> kstate \<Rightarrow> kstate" where
  "create_context slot entry_point user k =
     (let base = kernel_stacks k + of_nat slot * PROCESS_KERNEL_STACK_SIZE;
          top = base + PROCESS_KERNEL_STACK_SIZE;
          ctx = \<lparr>ctx_gprs = replicate 15 0, ctx_rip = entry_point,
                 ctx_cs = (if user then SEL_USER_CS else SEL_KERNEL_CS), ctx_rflags = 0x202,
                 ctx_rsp = (if user then USER_STACK_TOP else top),
                 ctx_ss = (if user then SEL_USER_DS else SEL_KERNEL_DS)\<rparr>
      in (upd_proc slot (\<lambda>p. p\<lparr>exit_code := 0, detached := False, wait_target := 0, wake_tick := 0,
            user_page_count := 0, kernel_stack := base, kernel_stack_top := top\<rparr>) k)
           \<lparr>kctx := (kctx k)(slot := ctx)\<rparr>)"

definition create_pages :: "nat \<Rightarrow> kstate \<Rightarrow> (int \<times> kstate) option" where
  "create_pages slot k =
     map_pages slot
       (map (\<lambda>i. USER_STACK_BASE + of_nat i * PAGE_SIZE) [0..<PROCESS_USER_STACK_PAGES]
        @ [USER_API_BASE, USER_ARGV_BASE])
       (PTE_WRITABLE OR (if vmm_nx_supported (vm k) then PTE_NX else 0)) k"

definition create_publish :: "nat \<Rightarrow> bool \<Rightarrow> kstate \<Rightarrow> kstate" where
  "create_publish slot user k =
     upd_proc slot (\<lambda>p. p\<lparr>kernel_rsp := kernel_stack_top p - sizeof_cpu_context,
       pstate := (if user then PROC_LOADING else PROC_READY)\<rparr>) k"

definition process_create :: "string \<Rightarrow> u64 \<Rightarrow> bool \<Rightarrow> kstate \<Rightarrow> (nat option \<times> kstate) option" where
  "process_create name entry_point user k =
     (case find_idx (\<lambda>q. pstate q = PROC_UNUSED) (drop 1 (processes k)) of
        None \<Rightarrow> Some (None, k)
      | Some j \<Rightarrow> do {
          k1 \<leftarrow> create_claim (j + 1) name user k;
          if pcr3 (processes k1 ! (j + 1)) = 0 then Some (None, k1)
          else do {
            let k2 = create_context (j + 1) entry_point user k1;
            (r, k3) \<leftarrow> (if user then create_pages (j + 1) k2 else Some (0, k2));
            if r \<noteq> 0 then
              Some (None, upd_proc (j + 1) (\<lambda>p. p\<lparr>pstate := PROC_UNUSED\<rparr>) (process_cleanup (j + 1) k3))
            else Some (Some (j + 1), create_publish (j + 1) user k3) } })"

definition process_activate :: "u64 \<Rightarrow> kstate \<Rightarrow> kstate" where
  "process_activate p k =
     (case process_get p k of
        Some i \<Rightarrow> if pstate (processes k ! i) = PROC_LOADING
                  then upd_proc i (\<lambda>p. p\<lparr>pstate := PROC_READY\<rparr>) k else k
      | None \<Rightarrow> k)"

definition wake_waiter :: "u64 \<Rightarrow> process \<Rightarrow> process" where
  "wake_waiter dead p =
     (if pstate p = PROC_BLOCKED \<and> (wait_target p = 0 \<or> wait_target p = dead)
      then p\<lparr>pstate := PROC_READY, wait_target := 0\<rparr> else p)"

text \<open>\<open>process_exit\<close> up to the loop in which the dead process waits to be switched out.\<close>

definition process_exit :: "int \<Rightarrow> kstate \<Rightarrow> kstate" where
  "process_exit code k =
     (case current_process k of
        None \<Rightarrow> k
      | Some c \<Rightarrow>
          if pid (processes k ! c) = 0 then k
          else
            (let k1 = upd_proc c (\<lambda>p. p\<lparr>pstate := PROC_TERMINATED, exit_code := code\<rparr>) k
             in k1\<lparr>processes := map (wake_waiter (pid (processes k ! c))) (processes k1)\<rparr>))"

definition reap :: "nat \<Rightarrow> kstate \<Rightarrow> kstate" where
  "reap i k = upd_proc i (\<lambda>p. p\<lparr>pstate := PROC_UNUSED, pid := 0\<rparr>) (process_cleanup i k)"

text \<open>What \<open>process_waitpid\<close> does after its waiting loop, or at once with \<open>WNOHANG\<close>.\<close>

definition waitpid_collect :: "nat \<Rightarrow> kstate \<Rightarrow> int \<times> kstate" where
  "waitpid_collect t k =
     (if pstate (processes k ! t) = PROC_UNUSED then (-1, k)
      else (exit_code (processes k ! t), reap t k))"

datatype wait_outcome = WaitReturned int | WaitBlocked nat

definition process_waitpid :: "u64 \<Rightarrow> bool \<Rightarrow> kstate \<Rightarrow> (wait_outcome \<times> kstate) option" where
  "process_waitpid p nohang k =
     (case process_get p k of
        None \<Rightarrow> Some (WaitReturned (-1), k)
      | Some t \<Rightarrow>
          if p = 0 then Some (WaitReturned (-1), k)
          else if nohang then
            (if pstate (processes k ! t) \<noteq> PROC_TERMINATED then Some (WaitReturned 0, k)
             else case waitpid_collect t k of (r, k1) \<Rightarrow> Some (WaitReturned r, k1))
          else case current_process k of
            None \<Rightarrow> None
          | Some c \<Rightarrow> Some (WaitBlocked t, upd_proc c (\<lambda>q. q\<lparr>wait_target := p, pstate := PROC_BLOCKED\<rparr>) k))"

definition waitpid_resume :: "nat \<Rightarrow> kstate \<Rightarrow> (int \<times> kstate) option" where
  "waitpid_resume t k =
     (case current_process k of
        None \<Rightarrow> None
      | Some c \<Rightarrow>
          if pstate (processes k ! t) \<noteq> PROC_TERMINATED \<and> pstate (processes k ! t) \<noteq> PROC_UNUSED then None
          else Some (waitpid_collect t (upd_proc c (\<lambda>q. q\<lparr>pstate := PROC_RUNNING, wait_target := 0\<rparr>) k)))"

definition process_wait :: "u64 \<Rightarrow> kstate \<Rightarrow> (wait_outcome \<times> kstate) option" where
  "process_wait p k = process_waitpid p False k"

definition process_detach :: "u64 \<Rightarrow> kstate \<Rightarrow> kstate" where
  "process_detach p k =
     (case process_get p k of
        Some i \<Rightarrow> if pid (processes k ! i) \<noteq> 0 then upd_proc i (\<lambda>q. q\<lparr>detached := True\<rparr>) k else k
      | None \<Rightarrow> k)"

definition reap_slot :: "nat \<Rightarrow> nat \<times> kstate \<Rightarrow> nat \<times> kstate" where
  "reap_slot i = (\<lambda>(n, k).
     if pstate (processes k ! i) = PROC_TERMINATED \<and> detached (processes k ! i)
     then (n + 1, upd_proc i (\<lambda>p. p\<lparr>detached := False\<rparr>) (reap i k)) else (n, k))"

definition process_reap_terminated :: "kstate \<Rightarrow> nat \<times> kstate" where
  "process_reap_terminated k = fold reap_slot [1..<MAX_PROCESSES] (0, k)"

definition wake_sleeper :: "u64 \<Rightarrow> process \<Rightarrow> process" where
  "wake_sleeper now p =
     (if pstate p = PROC_SLEEPING \<and> wake_tick p \<le> now then p\<lparr>wake_tick := 0, pstate := PROC_READY\<rparr> else p)"

definition wake_sleepers :: "kstate \<Rightarrow> kstate" where
  "wake_sleepers k =
     k\<lparr>processes := take 1 (processes k) @ map (wake_sleeper (ucast (timer_get_ticks k))) (drop 1 (processes k))\<rparr>"

definition process_sleep_ticks :: "u64 \<Rightarrow> kstate \<Rightarrow> kstate" where
  "process_sleep_ticks ticks k =
     (case current_process k of
        None \<Rightarrow> k
      | Some c \<Rightarrow>
          if pid (processes k ! c) = 0 \<or> ticks = 0 then k
          else upd_proc c (\<lambda>p. p\<lparr>wake_tick := ucast (timer_get_ticks k) + ticks, pstate := PROC_SLEEPING\<rparr>) k)"

definition process_terminate :: "u64 \<Rightarrow> kstate \<Rightarrow> kstate" where
  "process_terminate p k =
     (case process_get p k of
        None \<Rightarrow> k
      | Some i \<Rightarrow>
          if pid (processes k ! i) = 0 then k
          else
            (let k1 = upd_proc i (\<lambda>q. q\<lparr>pstate := PROC_TERMINATED\<rparr>) k
             in k1\<lparr>processes := map (\<lambda>q. if pstate q = PROC_BLOCKED then q\<lparr>pstate := PROC_READY\<rparr> else q)
                     (processes k1)\<rparr>))"

section \<open>The scheduler\<close>

definition next_ready :: "process list \<Rightarrow> nat \<Rightarrow> nat option" where
  "next_ready ps start =
     map_option (\<lambda>j. (start + (j + 1)) mod MAX_PROCESSES)
       (find_idx (\<lambda>i. pstate (ps ! ((start + i) mod MAX_PROCESSES)) = PROC_READY) [1..<MAX_PROCESSES + 1])"

definition use_tick :: "nat \<Rightarrow> kstate \<Rightarrow> bool \<times> kstate" where
  "use_tick c k =
     (if pstate (processes k ! c) \<in> {PROC_TERMINATED, PROC_BLOCKED, PROC_SLEEPING} then (True, k)
      else
        (let left = (if ticks_remaining k > 0 then ticks_remaining k - 1 else ticks_remaining k)
         in if left = 0 then (True, k\<lparr>ticks_remaining := TIME_QUANTUM\<rparr>)
            else (False, k\<lparr>ticks_remaining := left\<rparr>)))"

definition save_current :: "u64 \<Rightarrow> nat \<Rightarrow> kstate \<Rightarrow> kstate" where
  "save_current rsp c k =
     upd_proc c (\<lambda>p. p\<lparr>kernel_rsp := rsp,
       pstate := (if pstate p = PROC_RUNNING then PROC_READY else pstate p)\<rparr>) k"

definition context_switch :: "nat \<Rightarrow> kstate \<Rightarrow> u64 \<times> kstate" where
  "context_switch n k =
     (let k1 = (upd_proc n (\<lambda>p. p\<lparr>pstate := PROC_RUNNING\<rparr>) k)\<lparr>current_process := Some n\<rparr>;
          p = processes k1 ! n;
          k2 = tss_set_rsp0 (kernel_stack_top p) k1;
          k3 = (if vmm_get_cr3 (vm k2) AND PTE_ADDR_MASK \<noteq> pcr3 p AND PTE_ADDR_MASK
                then k2\<lparr>vm := vmm_set_cr3 (pcr3 p) (vm k2)\<rparr> else k2)
      in (kernel_rsp p, k3\<lparr>ticks_remaining := TIME_QUANTUM\<rparr>))"

definition schedule_tick :: "u64 \<Rightarrow> kstate \<Rightarrow> u64 \<times> kstate" where
  "schedule_tick current_rsp k0 =
     (let k = wake_sleepers (timer_tick k0) in
      case current_process k of
        None \<Rightarrow> (current_rsp, k)
      | Some c \<Rightarrow>
          if \<not> scheduling_enabled k then (current_rsp, k)
          else case use_tick c k of (need_switch, k1) \<Rightarrow>
            if \<not> need_switch then (current_rsp, k1)
            else
              (let k2 = save_current current_rsp c k1
               in case next_ready (processes k2) c of
                    None \<Rightarrow>
                      (current_rsp, if pstate (processes k2 ! c) = PROC_READY
                         then upd_proc c (\<lambda>p. p\<lparr>pstate := PROC_RUNNING\<rparr>) k2 else k2)
                  | Some n \<Rightarrow> context_switch n k2))"

section \<open>Frames\<close>

text \<open>
  The user memory operations and cleanup touch the bookkeeping of one slot, the address spaces and
  the descriptor table; what the scheduler reads stays as it is.
\<close>

definition sched_view :: "kstate \<Rightarrow> nat option \<times> u64 \<times> bool \<times> u64 \<times> u32 \<times> u32" where
  "sched_view k = (current_process k, next_pid k, scheduling_enabled k, foreground_pid k, ticks_remaining k,
     system_ticks k)"

definition proc_view :: "process \<Rightarrow> u64 \<times> process_state \<times> string \<times> bool \<times> int \<times> bool \<times> u64 \<times> u64 \<times> u64" where
  "proc_view p = (pid p, pstate p, pname p, is_user p, exit_code p, detached p, wait_target p, wake_tick p,
     kernel_stack_top p)"

definition pages_ok :: "process \<Rightarrow> bool" where
  "pages_ok p \<longleftrightarrow> length (user_pages p) = PROCESS_MAX_USER_PAGES \<and> user_page_count p \<le> PROCESS_MAX_USER_PAGES"

definition only :: "nat \<Rightarrow> kstate \<Rightarrow> kstate \<Rightarrow> bool" where
  "only i k k' \<longleftrightarrow> sched_view k' = sched_view k \<and>
     (\<exists>p. processes k' = (processes k)[i := p] \<and> proc_view p = proc_view (processes k ! i) \<and>
        (pages_ok (processes k ! i) \<longrightarrow> pages_ok p))"

lemma only_refl [intro]: "only i k k"
  by (auto simp: only_def intro: exI [of _ "processes k ! i"])

lemma only_trans:
  assumes "only i k k'" "only i k' k''"
  shows "only i k k''"
proof (cases "i < length (processes k)")
  case True
  then show ?thesis
    using assms by (auto simp: only_def)
next
  case False
  then have "processes k' = processes k"
    using assms(1) by (auto simp: only_def list_update_beyond)
  then show ?thesis
    using assms by (auto simp: only_def)
qed

lemma only_upd:
  assumes "proc_view (f (processes k ! i)) = proc_view (processes k ! i)"
    and "pages_ok (processes k ! i) \<Longrightarrow> pages_ok (f (processes k ! i))"
  shows "only i k (upd_proc i f k)"
  using assms by (auto simp: only_def upd_proc_def sched_view_def)

lemma only_vm [intro]: "only i k (k\<lparr>vm := v\<rparr>)"
  by (auto simp: only_def sched_view_def intro: exI [of _ "processes k ! i"])

lemma only_other: "only i k k' \<Longrightarrow> j \<noteq> i \<Longrightarrow> processes k' ! j = processes k ! j"
  by (auto simp: only_def)

lemma only_view: "only i k k' \<Longrightarrow> proc_view (processes k' ! j) = proc_view (processes k ! j)"
  by (cases "i < length (processes k)") (auto simp: only_def nth_list_update list_update_beyond)

lemma only_pages: "only i k k' \<Longrightarrow> pages_ok (processes k ! j) \<Longrightarrow> pages_ok (processes k' ! j)"
  by (cases "i < length (processes k)") (auto simp: only_def nth_list_update list_update_beyond)

lemma only_sched: "only i k k' \<Longrightarrow> sched_view k' = sched_view k"
  by (simp add: only_def)

lemma only_length: "only i k k' \<Longrightarrow> length (processes k') = length (processes k)"
  by (auto simp: only_def)

lemma only_free_user_page: "only i k (free_user_page i j k)"
proof -
  define k1 where "k1 = (if user_pages (processes k ! i) ! j \<noteq> 0
    then k\<lparr>vm := (vm k)\<lparr>vpmm := pmm_free_page (user_pages (processes k ! i) ! j) (vpmm (vm k))\<rparr>\<rparr> else k)"
  have "only i k k1"
    by (auto simp: k1_def)
  moreover have "only i k1 (free_user_page i j k)"
    unfolding free_user_page_def Let_def k1_def [symmetric]
    by (rule only_upd) (simp_all add: proc_view_def pages_ok_def)
  ultimately show ?thesis
    by (rule only_trans)
qed

lemma only_free_pages: "only i k (fold (free_user_page i) js k)"
proof (induction js arbitrary: k)
  case (Cons j js)
  then show ?case
    using only_trans [OF only_free_user_page Cons.IH] by simp
qed auto

lemma only_cleanup: "only i k (process_cleanup i k)"
proof (cases "pid (processes k ! i) = 0")
  case False
  define k1 where "k1 = syscall_close_process_fds (pid (processes k ! i)) k"
  define k2 where "k2 = fold (free_user_page i) [0..<user_page_count (processes k1 ! i)] k1"
  define k3 where "k3 = upd_proc i (\<lambda>p. p\<lparr>user_page_count := 0\<rparr>) k2"
  define k4 where "k4 = (if pcr3 (processes k3 ! i) \<noteq> 0 \<and> pcr3 (processes k3 ! i) \<noteq> vmm_get_kernel_cr3 (vm k3)
    then k3\<lparr>vm := vmm_destroy_address_space (pcr3 (processes k3 ! i)) (vm k3)\<rparr> else k3)"
  have "process_cleanup i k = upd_proc i (\<lambda>p. p\<lparr>pcr3 := 0\<rparr>) k4"
    using False by (simp add: process_cleanup_def Let_def k1_def k2_def k3_def k4_def)
  moreover have "only i k k1"
    by (auto simp: k1_def syscall_close_process_fds_def only_def sched_view_def intro: exI [of _ "processes k ! i"])
  moreover have "only i k1 k2"
    by (simp add: k2_def only_free_pages)
  moreover have "only i k2 k3"
    unfolding k3_def by (rule only_upd) (simp_all add: proc_view_def pages_ok_def)
  moreover have "only i k3 k4"
    by (auto simp: k4_def)
  moreover have "only i k4 (upd_proc i (\<lambda>p. p\<lparr>pcr3 := 0\<rparr>) k4)"
    by (rule only_upd) (simp_all add: proc_view_def pages_ok_def)
  ultimately show ?thesis
    by (metis only_trans)
qed (auto simp: process_cleanup_def)

lemma only_map_user_page:
  assumes "process_map_user_page i virt flags k = Some (r, k')"
  shows "only i k k'"
proof -
  have upd: "only i k (upd_proc i (\<lambda>p. p\<lparr>user_pages := (user_pages p)[user_page_count p := phys],
                                          user_page_count := user_page_count p + 1\<rparr>) (k\<lparr>vm := v\<rparr>))"
    if "\<not> PROCESS_MAX_USER_PAGES \<le> user_page_count (processes k ! i)" for phys v
    by (rule only_trans [OF only_vm only_upd]) (use that in \<open>auto simp: proc_view_def pages_ok_def\<close>)
  show ?thesis
    using assms upd
    by (auto simp: process_map_user_page_def Let_def split: if_splits prod.splits bind_splits)
qed

lemma only_map_pages: "map_pages i as flags k = Some (r, k') \<Longrightarrow> only i k k'"
proof (induction as arbitrary: k)
  case (Cons a as)
  then show ?case
    by (force split: bind_splits if_splits dest: only_map_user_page intro: only_trans)
qed auto

lemma only_write_user: "process_write_user i virt data k = (r, k') \<Longrightarrow> only i k k'"
  by (auto simp: process_write_user_def split: if_splits prod.splits)

lemma only_zero_user: "process_zero_user i virt n k = (r, k') \<Longrightarrow> only i k k'"
  by (auto simp: process_zero_user_def split: if_splits prod.splits)

lemma only_setup_args: "process_setup_user_args i cmd k = (r, k') \<Longrightarrow> only i k k'"
  by (auto simp: process_setup_user_args_def split: prod.splits dest: only_write_user)

end
