(* ===== verification/Sched.thy ===== *)
theory Sched
  imports Process
begin

text \<open>
  The scheduler and the process life cycle as a transition system: the invariant of the process
  table, one rule per operation a process or the timer can take, and the theorems about every state
  the kernel can reach: the invariant, bounded waiting of the round robin, what waiting and exiting
  promise each other.
\<close>

section \<open>The scheduler invariant\<close>

text \<open>
  Slot 0 is the kernel's own process; every other used slot has a pid of its own below the counter;
  only the current process is in the running state, and it is never an empty or half-loaded slot.
\<close>

definition used :: "kstate \<Rightarrow> nat \<Rightarrow> bool" where
  "used k i \<longleftrightarrow> pstate (processes k ! i) \<noteq> PROC_UNUSED"

definition slot_ok :: "kstate \<Rightarrow> nat \<Rightarrow> bool" where
  "slot_ok k i \<longleftrightarrow> length (pname (processes k ! i)) = 32 \<and> pages_ok (processes k ! i) \<and>
     (used k i \<longrightarrow> (pid (processes k ! i) = 0 \<longleftrightarrow> i = 0) \<and> pid (processes k ! i) < next_pid k) \<and>
     (pstate (processes k ! i) = PROC_RUNNING \<longrightarrow> current_process k = Some i)"

definition current_ok :: "kstate \<Rightarrow> bool" where
  "current_ok k \<longleftrightarrow> (case current_process k of
      None \<Rightarrow> False
    | Some c \<Rightarrow> c < MAX_PROCESSES \<and> used k c \<and> pstate (processes k ! c) \<noteq> PROC_LOADING)"

definition sched_inv :: "kstate \<Rightarrow> bool" where
  "sched_inv k \<longleftrightarrow> length (processes k) = MAX_PROCESSES \<and> current_ok k \<and>
     pstate (processes k ! 0) \<in> {PROC_READY, PROC_RUNNING, PROC_BLOCKED} \<and>
     (\<forall>i < MAX_PROCESSES. slot_ok k i) \<and>
     (\<forall>i < MAX_PROCESSES. \<forall>j < MAX_PROCESSES.
        used k i \<longrightarrow> used k j \<longrightarrow> pid (processes k ! i) = pid (processes k ! j) \<longrightarrow> i = j) \<and>
     0 < ticks_remaining k \<and> ticks_remaining k \<le> TIME_QUANTUM"

lemma sched_invE:
  assumes "sched_inv k"
  obtains c where "length (processes k) = 16" "current_process k = Some c" "c < 16"
    "used k c" "pstate (processes k ! c) \<noteq> PROC_LOADING" "used k 0"
  using assms by (auto simp: sched_inv_def current_ok_def used_def MAX_PROCESSES_def split: option.splits)

text \<open>
  A step that gives no slot a new pid keeps the invariant if it respects the running and current
  processes: the rule every operation except creation uses.
\<close>

lemma sched_inv_mono:
  assumes inv: "sched_inv k"
    and len: "length (processes k') = length (processes k)"
    and keep: "\<And>i. i < 16 \<Longrightarrow> length (pname (processes k' ! i)) = 32 \<and> pages_ok (processes k' ! i)"
    and us: "\<And>i. i < 16 \<Longrightarrow> used k' i \<Longrightarrow> used k i \<and> pid (processes k' ! i) = pid (processes k ! i)"
    and run: "\<And>i. i < 16 \<Longrightarrow> pstate (processes k' ! i) = PROC_RUNNING \<Longrightarrow> current_process k' = Some i"
    and cur: "current_ok k'"
    and zero: "pstate (processes k' ! 0) \<in> {PROC_READY, PROC_RUNNING, PROC_BLOCKED}"
    and np: "next_pid k' = next_pid k"
    and tk: "0 < ticks_remaining k'" "ticks_remaining k' \<le> TIME_QUANTUM"
  shows "sched_inv k'"
proof -
  have ok: "slot_ok k i" and inj: "\<And>j. j < 16 \<Longrightarrow> used k i \<Longrightarrow> used k j \<Longrightarrow>
      pid (processes k ! i) = pid (processes k ! j) \<Longrightarrow> i = j" if "i < 16" for i
    using inv that by (auto simp: sched_inv_def MAX_PROCESSES_def)
  have "slot_ok k' i" if "i < 16" for i
    using ok [OF that] keep [OF that] us [OF that] run [OF that] by (auto simp: slot_ok_def np)
  moreover have "i = j" if "i < 16" "j < 16" "used k' i" "used k' j"
      "pid (processes k' ! i) = pid (processes k' ! j)" for i j
    using inj [OF that(1,2)] us [OF that(1,3)] us [OF that(2,4)] that(5) by simp
  moreover have "length (processes k') = 16"
    using inv len by (simp add: sched_inv_def MAX_PROCESSES_def)
  ultimately show ?thesis
    using cur zero tk by (simp add: sched_inv_def MAX_PROCESSES_def)
qed

lemma sched_inv_slot:
  assumes "sched_inv k" "i < 16"
  shows "length (pname (processes k ! i)) = 32" "pages_ok (processes k ! i)"
    and "used k i \<Longrightarrow> (pid (processes k ! i) = 0) = (i = 0)"
    and "used k i \<Longrightarrow> pid (processes k ! i) < next_pid k"
    and "pstate (processes k ! i) = PROC_RUNNING \<Longrightarrow> current_process k = Some i"
  using assms by (auto simp: sched_inv_def slot_ok_def MAX_PROCESSES_def)

lemma sched_inv_zero:
  assumes "sched_inv k"
  shows "used k 0" "pid (processes k ! 0) = 0"
proof -
  show u: "used k 0"
    using assms by (rule sched_invE)
  then show "pid (processes k ! 0) = 0"
    using sched_inv_slot(3) [OF assms, of 0] by simp
qed

text \<open>The common case: slot by slot updates that leave names, pages, pids and the current process.\<close>

definition trans_ok :: "kstate \<Rightarrow> nat \<Rightarrow> process \<Rightarrow> process \<Rightarrow> bool" where
  "trans_ok k i p p' \<longleftrightarrow> length (pname p') = length (pname p) \<and> (pages_ok p \<longrightarrow> pages_ok p') \<and>
     (pstate p' \<noteq> PROC_UNUSED \<longrightarrow> pstate p \<noteq> PROC_UNUSED \<and> pid p' = pid p) \<and>
     (pstate p' = PROC_RUNNING \<longrightarrow> pstate p = PROC_RUNNING \<or> current_process k = Some i) \<and>
     (current_process k = Some i \<longrightarrow> pstate p' \<notin> {PROC_UNUSED, PROC_LOADING}) \<and>
     (i = 0 \<longrightarrow> pstate p' \<in> {PROC_READY, PROC_RUNNING, PROC_BLOCKED})"

lemma sched_inv_trans:
  assumes inv: "sched_inv k"
    and len: "length (processes k') = length (processes k)"
    and tr: "\<And>i. i < 16 \<Longrightarrow> trans_ok k i (processes k ! i) (processes k' ! i)"
    and eq: "current_process k' = current_process k" "next_pid k' = next_pid k"
      "ticks_remaining k' = ticks_remaining k"
  shows "sched_inv k'"
proof -
  obtain c where c: "current_process k = Some c" "c < 16"
    using inv by (rule sched_invE)
  show ?thesis
  proof (rule sched_inv_mono [OF inv len])
    fix i :: nat
    assume i: "i < 16"
    show "length (pname (processes k' ! i)) = 32 \<and> pages_ok (processes k' ! i)"
      using tr [OF i] sched_inv_slot(1,2) [OF inv i] by (simp add: trans_ok_def)
    show "used k' i \<Longrightarrow> used k i \<and> pid (processes k' ! i) = pid (processes k ! i)"
      using tr [OF i] by (simp add: trans_ok_def used_def)
    show "pstate (processes k' ! i) = PROC_RUNNING \<Longrightarrow> current_process k' = Some i"
      using tr [OF i] sched_inv_slot(5) [OF inv i] by (auto simp: trans_ok_def eq)
  next
    show "current_ok k'"
      using tr [OF c(2)] c by (simp add: current_ok_def eq trans_ok_def used_def MAX_PROCESSES_def)
    show "pstate (processes k' ! 0) \<in> {PROC_READY, PROC_RUNNING, PROC_BLOCKED}"
      using tr [of 0] by (simp add: trans_ok_def)
  qed (use inv in \<open>simp_all add: eq sched_inv_def\<close>)
qed

lemma trans_ok_refl:
  assumes "sched_inv k" "i < 16"
  shows "trans_ok k i (processes k ! i) (processes k ! i)"
  using assms by (auto simp: trans_ok_def sched_inv_def current_ok_def used_def MAX_PROCESSES_def split: option.splits)

lemma sched_inv_upd:
  assumes inv: "sched_inv k" and t: "i < 16 \<Longrightarrow> trans_ok k i (processes k ! i) (f (processes k ! i))"
  shows "sched_inv (upd_proc i f k)"
proof (rule sched_inv_trans [OF inv])
  fix j :: nat
  assume "j < 16"
  moreover have "length (processes k) = 16"
    using inv by (rule sched_invE)
  ultimately show "trans_ok k j (processes k ! j) (processes (upd_proc i f k) ! j)"
    using t trans_ok_refl [OF inv] by (cases "i = j") (auto simp: upd_proc_def)
qed (simp_all add: upd_proc_def)

lemma sched_inv_only:
  assumes inv: "sched_inv k" and o: "only i k k'"
  shows "sched_inv k'"
proof (rule sched_inv_trans [OF inv only_length [OF o]])
  fix j :: nat
  assume "j < 16"
  from trans_ok_refl [OF inv this] show "trans_ok k j (processes k ! j) (processes k' ! j)"
    using only_view [OF o, of j] only_pages [OF o, of j] by (auto simp: trans_ok_def proc_view_def)
qed (use only_sched [OF o] in \<open>simp_all add: sched_view_def\<close>)

section \<open>The steps of the system\<close>

text \<open>
  The code of the current process runs between two ticks. \<open>runs\<close> holds when that code is not held in
  one of the waiting loops; process creation, loading, killing and reaping are done by the kernel's own
  process, in slot 0, from the shell.
\<close>

definition runs :: "kstate \<Rightarrow> nat \<Rightarrow> bool" where
  "runs k c \<longleftrightarrow> current_process k = Some c \<and> pstate (processes k ! c) \<in> {PROC_RUNNING, PROC_READY}"

inductive kstep :: "kstate \<Rightarrow> kstate \<Rightarrow> bool" where
  tick: "kstep k (snd (schedule_tick rsp k))"
| create: "runs k 0 \<Longrightarrow> next_pid k + 1 \<noteq> 0 \<Longrightarrow> process_create nm entry user k = Some (r, k') \<Longrightarrow> kstep k k'"
| load_map: "runs k 0 \<Longrightarrow> process_map_user_page i virt flags k = Some (r, k') \<Longrightarrow> kstep k k'"
| load_write: "runs k 0 \<Longrightarrow> process_write_user i virt data k = (r, k') \<Longrightarrow> kstep k k'"
| load_zero: "runs k 0 \<Longrightarrow> process_zero_user i virt n k = (r, k') \<Longrightarrow> kstep k k'"
| load_args: "runs k 0 \<Longrightarrow> process_setup_user_args i cmd k = (r, k') \<Longrightarrow> kstep k k'"
| activate: "runs k 0 \<Longrightarrow> kstep k (process_activate p k)"
| detach: "runs k 0 \<Longrightarrow> kstep k (process_detach p k)"
| foreground: "runs k 0 \<Longrightarrow> kstep k (process_set_foreground p k)"
| terminate: "runs k 0 \<Longrightarrow> kstep k (process_terminate p k)"
| reap: "runs k 0 \<Longrightarrow> kstep k (snd (process_reap_terminated k))"
| start: "runs k 0 \<Longrightarrow> kstep k (scheduler_start k)"
| exit: "runs k c \<Longrightarrow> kstep k (process_exit code k)"
| sleep: "runs k c \<Longrightarrow> kstep k (process_sleep_ticks n k)"
| wait: "runs k c \<Longrightarrow> process_waitpid p nohang k = Some (r, k') \<Longrightarrow> kstep k k'"
| resume: "current_process k = Some c \<Longrightarrow> runs k c \<or> pstate (processes k ! c) = PROC_BLOCKED \<Longrightarrow>
    0 < t \<Longrightarrow> t < MAX_PROCESSES \<Longrightarrow> waitpid_resume t k = Some (r, k') \<Longrightarrow> kstep k k'"

inductive kreach :: "kstate \<Rightarrow> kstate \<Rightarrow> bool" for k0 where
  boot: "process_init k0 = Some k \<Longrightarrow> kreach k0 k"
| step: "kreach k0 k \<Longrightarrow> kstep k k' \<Longrightarrow> kreach k0 k'"

text \<open>The zero-initialised tables the kernel starts from.\<close>

definition boot_ok :: "kstate \<Rightarrow> bool" where
  "boot_ok k \<longleftrightarrow> length (processes k) = MAX_PROCESSES \<and>
     (\<forall>p \<in> set (processes k). length (pname p) = 32 \<and> length (user_pages p) = PROCESS_MAX_USER_PAGES \<and>
        user_page_count p \<le> PROCESS_MAX_USER_PAGES) \<and>
     next_pid k = 1 \<and> ticks_remaining k = TIME_QUANTUM"

lemma process_get_Some:
  assumes "process_get p k = Some i"
  shows "i < length (processes k)" "used k i" "pid (processes k ! i) = p"
  using assms by (auto simp: process_get_def used_def dest: find_idx_SomeD)

lemma inv_process_init:
  assumes b: "boot_ok k0" and i: "process_init k0 = Some k"
  shows "sched_inv k"
proof -
  have len0: "length (processes k0) = 16"
    using b by (simp add: boot_ok_def MAX_PROCESSES_def)
  then have m0: "processes k0 ! i \<in> set (processes k0)" if "i < 16" for i
    using that by simp
  obtain nm where nm: "strcpy (pname (processes k0 ! 0)) (cstr ''kernel'') = Some nm"
    using i len0 by (auto simp: process_init_def split: bind_splits)
  have l: "length nm = 32"
    using strcpy_length [OF nm] b m0 [of 0] by (simp add: boot_ok_def)
  have s0: "pstate (processes k ! 0) = PROC_RUNNING" "pid (processes k ! 0) = 0" "pname (processes k ! 0) = nm"
      "user_pages (processes k ! 0) = user_pages (processes k0 ! 0)" "user_page_count (processes k ! 0) = 0"
    using i nm len0 by (auto simp: process_init_def)
  have rest: "processes k ! i = (processes k0 ! i)\<lparr>pstate := PROC_UNUSED, pid := 0\<rparr>" if "i \<noteq> 0" "i < 16" for i
    using i nm len0 that by (auto simp: process_init_def)
  have eq: "length (processes k) = 16" "current_process k = Some 0" "next_pid k = 1" "ticks_remaining k = 5"
    using i nm len0 b by (auto simp: process_init_def boot_ok_def TIME_QUANTUM_def)
  have un: "used k i \<longleftrightarrow> i = 0" if "i < 16" for i
    using that rest [of i] s0 by (cases "i = 0") (auto simp: used_def)
  have "slot_ok k i" if "i < 16" for i
    using that rest [of i] s0 un [of i] l b m0 [of i] m0 [of 0]
    by (cases "i = 0") (auto simp: slot_ok_def pages_ok_def boot_ok_def eq)
  then show ?thesis
    by (auto simp: sched_inv_def eq current_ok_def un s0 MAX_PROCESSES_def TIME_QUANTUM_def)
qed

lemma inv_upd_state:
  assumes inv: "sched_inv k" and i: "i \<noteq> 0" "current_process k \<noteq> Some i"
    and f: "\<And>p. pname (f p) = pname p \<and> user_pages (f p) = user_pages p \<and> user_page_count (f p) = user_page_count p"
    and st: "pstate (f (processes k ! i)) \<noteq> PROC_RUNNING"
      "pstate (f (processes k ! i)) \<noteq> PROC_UNUSED \<Longrightarrow>
        used k i \<and> pid (f (processes k ! i)) = pid (processes k ! i)"
  shows "sched_inv (upd_proc i f k)"
  by (rule sched_inv_upd [OF inv]) (use assms in \<open>auto simp: trans_ok_def pages_ok_def used_def\<close>)

lemma inv_reap:
  assumes inv: "sched_inv k" and i: "i \<noteq> 0" "current_process k \<noteq> Some i"
  shows "sched_inv (reap i k)"
proof -
  have "current_process (process_cleanup i k) = current_process k"
    using only_sched [OF only_cleanup] by (simp add: sched_view_def)
  then show ?thesis
    unfolding reap_def
    by (intro inv_upd_state sched_inv_only [OF inv only_cleanup]) (use i in auto)
qed

lemma reap_current [simp]: "current_process (reap i k) = current_process k"
  using only_sched [OF only_cleanup, of i k] by (simp add: sched_view_def reap_def upd_proc_def)

lemma upd_current [simp]: "current_process (upd_proc i f k) = current_process k"
  by (simp add: upd_proc_def)

lemma inv_activate: "sched_inv k \<Longrightarrow> sched_inv (process_activate p k)"
proof -
  assume inv: "sched_inv k"
  have "sched_inv (upd_proc i (\<lambda>p. p\<lparr>pstate := PROC_READY\<rparr>) k)" if "pstate (processes k ! i) = PROC_LOADING" for i
    by (rule sched_inv_upd [OF inv]) (use that in \<open>auto simp: trans_ok_def pages_ok_def\<close>)
  then show ?thesis
    using inv by (simp add: process_activate_def split: option.splits)
qed

lemma inv_detach:
  assumes inv: "sched_inv k"
  shows "sched_inv (process_detach p k)"
proof -
  have "sched_inv (upd_proc i (\<lambda>q. q\<lparr>detached := True\<rparr>) k)" for i
    by (rule sched_inv_upd [OF inv])
      (use trans_ok_refl [OF inv, of i] in \<open>auto simp: trans_ok_def pages_ok_def\<close>)
  then show ?thesis
    using inv by (simp add: process_detach_def split: option.splits)
qed

lemma inv_map_procs:
  assumes inv: "sched_inv k" and t: "\<And>i. i < 16 \<Longrightarrow> trans_ok k i (processes k ! i) (g (processes k ! i))"
  shows "sched_inv (k\<lparr>processes := map g (processes k)\<rparr>)"
proof (rule sched_inv_trans [OF inv])
  have "length (processes k) = 16"
    using inv by (rule sched_invE)
  then show "trans_ok k i (processes k ! i) (processes (k\<lparr>processes := map g (processes k)\<rparr>) ! i)"
    if "i < 16" for i
    using that t by simp
qed simp_all

lemma inv_terminate:
  assumes inv: "sched_inv k" and r: "runs k 0"
  shows "sched_inv (process_terminate p k)"
proof (cases "process_get p k")
  case (Some i)
  define k1 where "k1 = upd_proc i (\<lambda>q. q\<lparr>pstate := PROC_TERMINATED\<rparr>) k"
  let ?w = "\<lambda>q. if pstate q = PROC_BLOCKED then q\<lparr>pstate := PROC_READY\<rparr> else q"
  show ?thesis
  proof (cases "pid (processes k ! i) = 0")
    case False
    have i: "i \<noteq> 0" "used k i"
      using False process_get_Some(2) [OF Some] sched_inv_zero [OF inv] by (auto intro: gr0I)
    have inv1: "sched_inv k1"
      unfolding k1_def by (rule inv_upd_state [OF inv]) (use i r in \<open>auto simp: runs_def\<close>)
    have "sched_inv (k1\<lparr>processes := map ?w (processes k1)\<rparr>)"
      by (rule inv_map_procs [OF inv1])
        (use trans_ok_refl [OF inv1] in \<open>auto simp: trans_ok_def pages_ok_def\<close>)
    then show ?thesis
      using Some False by (simp add: process_terminate_def Let_def k1_def)
  qed (use inv Some in \<open>simp add: process_terminate_def\<close>)
qed (use inv in \<open>simp add: process_terminate_def\<close>)

lemma inv_exit:
  assumes inv: "sched_inv k" and r: "runs k c"
  shows "sched_inv (process_exit code k)"
proof (cases "pid (processes k ! c) = 0")
  case False
  define k1 where "k1 = upd_proc c (\<lambda>p. p\<lparr>pstate := PROC_TERMINATED, exit_code := code\<rparr>) k"
  have c: "current_process k = Some c" "c \<noteq> 0"
    using r False sched_inv_zero [OF inv] by (auto simp: runs_def intro: gr0I)
  have inv1: "sched_inv k1"
    unfolding k1_def by (rule sched_inv_upd [OF inv]) (use r c in \<open>auto simp: runs_def trans_ok_def pages_ok_def\<close>)
  have "sched_inv (k1\<lparr>processes := map (wake_waiter (pid (processes k ! c))) (processes k1)\<rparr>)"
    by (rule inv_map_procs [OF inv1])
      (use trans_ok_refl [OF inv1] in \<open>auto simp: wake_waiter_def trans_ok_def pages_ok_def\<close>)
  then show ?thesis
    using c False by (simp add: process_exit_def Let_def k1_def)
qed (use assms in \<open>simp add: process_exit_def runs_def\<close>)

lemma inv_sleep:
  assumes inv: "sched_inv k" and r: "runs k c"
  shows "sched_inv (process_sleep_ticks n k)"
proof (cases "pid (processes k ! c) = 0 \<or> n = 0")
  case False
  have c: "current_process k = Some c" "c \<noteq> 0"
    using r False sched_inv_zero [OF inv] by (auto simp: runs_def intro: gr0I)
  have "sched_inv (upd_proc c (\<lambda>p. p\<lparr>wake_tick := ucast (timer_get_ticks k) + n, pstate := PROC_SLEEPING\<rparr>) k)"
    by (rule sched_inv_upd [OF inv]) (use r c in \<open>auto simp: runs_def trans_ok_def pages_ok_def\<close>)
  then show ?thesis
    using c False by (simp add: process_sleep_ticks_def)
qed (use assms in \<open>auto simp: process_sleep_ticks_def runs_def\<close>)

lemma inv_collect:
  assumes "sched_inv k" "t \<noteq> 0" "current_process k \<noteq> Some t"
  shows "sched_inv (snd (waitpid_collect t k))"
  using assms by (auto simp: waitpid_collect_def intro: inv_reap)

lemma inv_waitpid:
  assumes inv: "sched_inv k" and r: "runs k c" and w: "process_waitpid p nohang k = Some (r', k')"
  shows "sched_inv k'"
proof (cases "process_get p k")
  case (Some t)
  note t = process_get_Some [OF Some]
  have c: "current_process k = Some c" "pstate (processes k ! c) \<in> {PROC_RUNNING, PROC_READY}"
    using r by (auto simp: runs_def)
  show ?thesis
  proof (cases "p \<noteq> 0 \<and> nohang \<and> pstate (processes k ! t) = PROC_TERMINATED")
    case True
    then have "sched_inv (snd (waitpid_collect t k))"
      using t c sched_inv_zero [OF inv] by (intro inv_collect inv) (auto intro: gr0I)
    then show ?thesis
      using w Some True by (auto simp: process_waitpid_def split: prod.splits)
  next
    case False
    have "sched_inv (upd_proc c (\<lambda>q. q\<lparr>wait_target := p, pstate := PROC_BLOCKED\<rparr>) k)"
      by (rule sched_inv_upd [OF inv]) (use c in \<open>auto simp: trans_ok_def pages_ok_def\<close>)
    then show ?thesis
      using w Some False inv c by (auto simp: process_waitpid_def split: if_splits prod.splits)
  qed
qed (use inv w in \<open>simp add: process_waitpid_def\<close>)

lemma inv_resume:
  assumes inv: "sched_inv k" and c: "current_process k = Some c"
    and b: "runs k c \<or> pstate (processes k ! c) = PROC_BLOCKED"
    and t: "0 < t" and w: "waitpid_resume t k = Some (r, k')"
  shows "sched_inv k'"
proof -
  define k1 where "k1 = upd_proc c (\<lambda>q. q\<lparr>pstate := PROC_RUNNING, wait_target := 0\<rparr>) k"
  have inv1: "sched_inv k1"
    unfolding k1_def
    by (rule sched_inv_upd [OF inv]) (use b c in \<open>auto simp: runs_def trans_ok_def pages_ok_def\<close>)
  have "pstate (processes k ! t) = PROC_TERMINATED \<or> pstate (processes k ! t) = PROC_UNUSED"
    and "(r, k') = waitpid_collect t k1"
    using w c by (auto simp: waitpid_resume_def k1_def split: if_splits)
  moreover have "current_process k1 = Some c"
    using c by (simp add: k1_def)
  moreover have "t \<noteq> c"
    using calculation(1) b by (auto simp: runs_def)
  ultimately show ?thesis
    using inv_collect [OF inv1, of t] t by (metis option.inject not_less_zero snd_conv)
qed

lemma inv_reap_terminated:
  assumes inv: "sched_inv k" and r: "runs k 0"
  shows "sched_inv (snd (process_reap_terminated k))"
proof -
  have step: "sched_inv (snd (reap_slot i (n, k))) \<and> current_process (snd (reap_slot i (n, k))) = Some 0"
    if "sched_inv k" "current_process k = Some 0" "i \<noteq> 0" for i n k
  proof -
    have r: "sched_inv (reap i k)"
      using that by (intro inv_reap) auto
    have "sched_inv (upd_proc i (\<lambda>p. p\<lparr>detached := False\<rparr>) (reap i k))"
      by (rule sched_inv_upd [OF r])
        (use trans_ok_refl [OF r, of i] in \<open>auto simp: trans_ok_def pages_ok_def\<close>)
    then show ?thesis
      using that by (simp add: reap_slot_def)
  qed
  have "sched_inv (snd (fold reap_slot is (n, k)))"
    if "sched_inv k" "current_process k = Some 0" "0 \<notin> set is" for "is" n k
    using that
  proof (induction "is" arbitrary: n k)
    case (Cons i "is")
    have "fold reap_slot (i # is) (n, k) = fold reap_slot is (fst (reap_slot i (n, k)), snd (reap_slot i (n, k)))"
      by simp
    then show ?case
      using Cons.prems step [of k i n]
        Cons.IH [of "snd (reap_slot i (n, k))" "fst (reap_slot i (n, k))"] by simp
  qed simp
  then show ?thesis
    using assms by (simp add: process_reap_terminated_def runs_def)
qed

text \<open>
  What a creation leaves behind: one free slot rewritten, the pid counter advanced, and the new
  process either complete and, for a user process, not yet schedulable, or the slot free again.
\<close>

definition claimed :: "nat \<Rightarrow> bool \<Rightarrow> kstate \<Rightarrow> kstate \<Rightarrow> bool" where
  "claimed slot user k k' \<longleftrightarrow> (\<exists>p. processes k' = (processes k)[slot := p] \<and>
     length (pname p) = length (pname (processes k ! slot)) \<and>
     (pages_ok (processes k ! slot) \<longrightarrow> pages_ok p) \<and> pid p = next_pid k \<and> is_user p = user) \<and>
     next_pid k' = next_pid k + 1 \<and> current_process k' = current_process k \<and>
     ticks_remaining k' = ticks_remaining k"

lemma claimed_upd:
  assumes "claimed slot user k k'" "slot < length (processes k)"
    and "\<And>p. length (pname (f p)) = length (pname p) \<and> (pages_ok p \<longrightarrow> pages_ok (f p)) \<and> pid (f p) = pid p \<and>
      is_user (f p) = is_user p"
  shows "claimed slot user k (upd_proc slot f k')"
  using assms by (auto simp: claimed_def upd_proc_def)

lemma claimed_only:
  assumes "claimed slot user k k'" "slot < length (processes k)" "only slot k' k''"
  shows "claimed slot user k k''"
  using assms by (auto simp: claimed_def only_def sched_view_def proc_view_def)

lemma claimed_kctx: "claimed slot user k (k'\<lparr>kctx := x\<rparr>) = claimed slot user k k'"
  by (simp add: claimed_def)

lemma create_claim_claimed:
  assumes "create_claim slot nm user k = Some k1" "slot < length (processes k)"
  shows "claimed slot user k k1" "pstate (processes k1 ! slot) = pstate (processes k ! slot)"
  using assms
  by (auto simp: create_claim_def claimed_def upd_proc_def pages_ok_def strncpy_length split: bind_splits prod.splits)

lemma create_context_claimed:
  assumes "claimed slot user k k1" "slot < length (processes k)"
  shows "claimed slot user k (create_context slot entry user k1)"
  using assms claimed_upd [OF assms]
  by (simp add: create_context_def Let_def claimed_kctx pages_ok_def)

lemma process_create_cases:
  assumes c: "process_create nm entry user k = Some (r, k')" and len: "length (processes k) = 16"
  obtains (full) "r = None" "k' = k" "\<And>j. 0 < j \<Longrightarrow> j < 16 \<Longrightarrow> used k j"
  | (slot) slot where "0 < slot" "slot < 16" "\<not> used k slot" "\<And>j. 0 < j \<Longrightarrow> j < slot \<Longrightarrow> used k j"
      "claimed slot user k k'"
      "r = None \<and> \<not> used k' slot \<or>
       r = Some slot \<and> pstate (processes k' ! slot) = (if user then PROC_LOADING else PROC_READY)"
proof (cases "find_idx (\<lambda>q. pstate q = PROC_UNUSED) (drop 1 (processes k))")
  case None
  then have "\<forall>q \<in> set (drop 1 (processes k)). pstate q \<noteq> PROC_UNUSED"
    by (simp add: find_idx_None_iff)
  then have "used k j" if "0 < j" "j < 16" for j
    using that len nth_mem [of "j - 1" "drop 1 (processes k)"] by (simp add: used_def)
  then show ?thesis
    using full c None by (simp add: process_create_def)
next
  case (Some j)
  define s where "s = j + 1"
  have sl: "0 < s" "s < 16" "\<not> used k s"
    using find_idx_SomeD [OF Some] len by (auto simp: s_def used_def)
  have before: "used k i" if "0 < i" "i < s" for i
    using that find_idx_SomeD [OF Some] len by (cases i) (auto simp: s_def used_def)
  obtain k1 where k1: "create_claim s nm user k = Some k1"
    using c Some by (auto simp: process_create_def s_def split: bind_splits)
  note c1 = create_claim_claimed [OF k1, unfolded len, OF sl(2)]
  show ?thesis
  proof (cases "pcr3 (processes k1 ! s) = 0")
    case True
    then have "r = None" "k' = k1"
      using c Some k1 by (auto simp: process_create_def s_def)
    then show ?thesis
      using slot [OF sl before] c1 sl by (simp add: used_def)
  next
    case False
    define k2 where "k2 = create_context s entry user k1"
    have c2: "claimed s user k k2"
      using create_context_claimed [OF c1(1)] sl len by (simp add: k2_def)
    have eq: "(if user then create_pages s k2 else Some (0, k2)) \<bind> (\<lambda>(x, k3).
        if x \<noteq> 0 then Some (None, upd_proc s (\<lambda>p. p\<lparr>pstate := PROC_UNUSED\<rparr>) (process_cleanup s k3))
        else Some (Some s, create_publish s user k3)) = Some (r, k')"
      using c False
      unfolding process_create_def Some option.case s_def [symmetric] k1 bind.bind_lunit Let_def k2_def if_False
      by (simp only: if_False simp_thms)
    obtain x k3 where x: "(if user then create_pages s k2 else Some (0, k2)) = Some (x, k3)"
      and fin: "x \<noteq> 0 \<and> r = None \<and> k' = upd_proc s (\<lambda>p. p\<lparr>pstate := PROC_UNUSED\<rparr>) (process_cleanup s k3) \<or>
        x = 0 \<and> r = Some s \<and> k' = create_publish s user k3"
      using eq by (auto split: bind_splits if_splits)
    have "only s k2 k3"
      using x by (auto simp: create_pages_def split: if_splits dest: only_map_pages)
    then have c3: "claimed s user k k3"
      using claimed_only [OF c2] sl len by simp
    have c4: "claimed s user k (process_cleanup s k3)"
      using claimed_only [OF c3 _ only_cleanup] sl len by simp
    have "claimed s user k k'"
      using fin claimed_upd [OF c3] claimed_upd [OF c4] sl len
      by (auto simp: create_publish_def pages_ok_def)
    moreover have "s < length (processes k3)" "s < length (processes (process_cleanup s k3))"
      using c3 c4 sl len by (auto simp: claimed_def)
    ultimately show ?thesis
      using slot [OF sl before] fin by (auto simp: create_publish_def upd_proc_def used_def)
  qed
qed

lemma inv_create:
  assumes inv: "sched_inv k" and np: "next_pid k + 1 \<noteq> 0"
    and c: "process_create nm entry user k = Some (r, k')"
  shows "sched_inv k'"
proof -
  have len: "length (processes k) = 16"
    using inv by (rule sched_invE)
  from c len show ?thesis
  proof (cases rule: process_create_cases)
    case (slot s)
    then obtain p where p: "processes k' = (processes k)[s := p]" "length (pname p) = 32" "pages_ok p"
        "pid p = next_pid k"
      using sched_inv_slot(1,2) [OF inv, of s] by (auto simp: claimed_def)
    have k': "next_pid k' = next_pid k + 1" "current_process k' = current_process k"
        "ticks_remaining k' = ticks_remaining k"
      using slot(5) by (auto simp: claimed_def)
    have lt: "next_pid k < next_pid k + 1"
      using np unatSuc [of "next_pid k"] by (simp add: word_less_nat_alt add.commute)
    have np0: "next_pid k \<noteq> 0"
      using sched_inv_slot(4) [OF inv, of 0] sched_inv_zero [OF inv] by auto
    have other: "processes k' ! i = processes k ! i" if "i \<noteq> s" for i
      using that p by simp
    have new: "processes k' ! s = p" "pstate p \<in> {PROC_UNUSED, PROC_LOADING, PROC_READY}"
      using p slot len by (auto simp: used_def split: if_splits)
    have c0: "current_process k \<noteq> Some s"
      using inv slot(3) by (auto simp: sched_inv_def current_ok_def split: option.splits)
    have ok: "slot_ok k' i" if "i < 16" for i
    proof (cases "i = s")
      case True
      then show ?thesis
        using p new slot(1) lt np0 by (auto simp: slot_ok_def k')
    next
      case False
      have "slot_ok k i"
        using inv that by (simp add: sched_inv_def MAX_PROCESSES_def)
      then show ?thesis
        using other [OF False] lt by (auto simp: slot_ok_def k' used_def)
    qed
    have inj: "i = j" if "i < 16" "j < 16" "used k' i" "used k' j"
        "pid (processes k' ! i) = pid (processes k' ! j)" for i j
    proof (cases "i = s \<or> j = s")
      case True
      have "pid (processes k ! i) \<noteq> next_pid k" if "i < 16" "i \<noteq> s" "used k' i" for i
        using sched_inv_slot(4) [OF inv that(1)] that other [of i] by (auto simp: used_def)
      then show ?thesis
        using True that new p(4) other by metis
    next
      case False
      then show ?thesis
        using inv that other by (auto simp: sched_inv_def used_def MAX_PROCESSES_def)
    qed
    have "current_ok k'"
      using inv c0 other by (auto simp: sched_inv_def current_ok_def used_def k' split: option.splits)
    moreover have "pstate (processes k' ! 0) \<in> {PROC_READY, PROC_RUNNING, PROC_BLOCKED}"
      using inv other [of 0] slot(1) by (simp add: sched_inv_def)
    ultimately show ?thesis
      using inv ok inj p(1) by (auto simp: sched_inv_def k' MAX_PROCESSES_def)
  qed (use inv in simp)
qed

section \<open>One tick\<close>

definition woken :: "kstate \<Rightarrow> kstate" where
  "woken k = wake_sleepers (timer_tick k)"

lemma woken_fields [simp]:
  "current_process (woken k) = current_process k" "next_pid (woken k) = next_pid k"
  "scheduling_enabled (woken k) = scheduling_enabled k" "ticks_remaining (woken k) = ticks_remaining k"
  "length (processes (woken k)) = length (processes k)"
  by (auto simp: woken_def wake_sleepers_def timer_tick_def)

lemma woken_nth:
  assumes "i < length (processes k)"
  shows "processes (woken k) ! i =
    (if i = 0 then processes k ! 0 else wake_sleeper (ucast (system_ticks k + 1)) (processes k ! i))"
  using assms
  by (auto simp: woken_def wake_sleepers_def timer_tick_def timer_get_ticks_def nth_append min_def)

lemma inv_woken: "sched_inv k \<Longrightarrow> sched_inv (woken k)"
proof -
  assume inv: "sched_inv k"
  have len: "length (processes k) = 16"
    using inv by (rule sched_invE)
  show ?thesis
    by (rule sched_inv_trans [OF inv])
      (use trans_ok_refl [OF inv] in \<open>auto simp: woken_nth len wake_sleeper_def trans_ok_def pages_ok_def\<close>)
qed

lemma next_ready_SomeD:
  assumes "next_ready ps c = Some n"
  obtains d where "0 < d" "d \<le> 16" "n = (c + d) mod 16" "n < 16" "pstate (ps ! n) = PROC_READY"
    "\<And>e. 0 < e \<Longrightarrow> e < d \<Longrightarrow> pstate (ps ! ((c + e) mod 16)) \<noteq> PROC_READY"
proof -
  obtain j where j: "find_idx (\<lambda>i. pstate (ps ! ((c + i) mod 16)) = PROC_READY) [1..<17] = Some j"
    and n: "n = (c + (j + 1)) mod 16"
    using assms by (auto simp: next_ready_def MAX_PROCESSES_def)
  note f = find_idx_SomeD [OF j]
  have "pstate (ps ! ((c + e) mod 16)) \<noteq> PROC_READY" if "0 < e" "e < j + 1" for e
    using f that by (auto dest!: spec [of _ "e - 1"])
  then show ?thesis
    using f by (intro that [of "j + 1"]) (auto simp: n)
qed

lemma next_ready_NoneD:
  assumes "next_ready ps c = None" "c < 16" "i < 16"
  shows "pstate (ps ! i) \<noteq> PROC_READY"
proof -
  have all: "pstate (ps ! ((c + e) mod 16)) \<noteq> PROC_READY" if "0 < e" "e < 17" for e
    using assms(1) that by (auto simp: next_ready_def MAX_PROCESSES_def find_idx_None_iff)
  show ?thesis
    using all [of "i + 16 - c"] all [of "i - c"] assms(2,3) by (cases "i \<le> c") auto
qed

text \<open>The four ways a tick can go, for a current process \<open>c\<close>.\<close>

lemma use_tick_fields:
  assumes "use_tick c k = (b, k1)"
  shows "processes k1 = processes k" "current_process k1 = current_process k" "next_pid k1 = next_pid k"
    "scheduling_enabled k1 = scheduling_enabled k"
    "0 < ticks_remaining k \<Longrightarrow> ticks_remaining k \<le> TIME_QUANTUM \<Longrightarrow>
       0 < ticks_remaining k1 \<and> ticks_remaining k1 \<le> TIME_QUANTUM"
    "\<not> b \<Longrightarrow> unat (ticks_remaining k) = Suc (unat (ticks_remaining k1))"
proof -
  have "0 < t \<Longrightarrow> t \<le> 5 \<Longrightarrow> t - 1 \<noteq> 0 \<Longrightarrow> 0 < t - 1 \<and> t - 1 \<le> 5" for t :: u32
    by unat_arith
  then show "0 < ticks_remaining k \<Longrightarrow> ticks_remaining k \<le> TIME_QUANTUM \<Longrightarrow>
       0 < ticks_remaining k1 \<and> ticks_remaining k1 \<le> TIME_QUANTUM"
    using assms by (auto simp: use_tick_def Let_def TIME_QUANTUM_def split: if_splits)
  have "t \<noteq> 0 \<Longrightarrow> unat t = Suc (unat (t - 1))" for t :: u32
    by unat_arith
  then show "\<not> b \<Longrightarrow> unat (ticks_remaining k) = Suc (unat (ticks_remaining k1))"
    using assms by (auto simp: use_tick_def Let_def word_gt_0 split: if_splits)
qed (use assms in \<open>auto simp: use_tick_def Let_def split: if_splits\<close>)

lemma save_current_fields [simp]:
  "current_process (save_current r c k) = current_process k" "next_pid (save_current r c k) = next_pid k"
  "scheduling_enabled (save_current r c k) = scheduling_enabled k"
  "ticks_remaining (save_current r c k) = ticks_remaining k"
  "length (processes (save_current r c k)) = length (processes k)"
  by (simp_all add: save_current_def upd_proc_def)

lemma save_current_nth:
  "c < length (processes k) \<Longrightarrow> processes (save_current r c k) ! i =
    (if i = c then (processes k ! c)\<lparr>kernel_rsp := r, pstate :=
       (if pstate (processes k ! c) = PROC_RUNNING then PROC_READY else pstate (processes k ! c))\<rparr>
     else processes k ! i)"
  by (simp add: save_current_def upd_proc_def)

lemma context_switch_fields:
  assumes "context_switch n k = (r, k')" "n < length (processes k)"
  shows "r = kernel_rsp (processes k ! n)"
    "processes k' = (processes k)[n := (processes k ! n)\<lparr>pstate := PROC_RUNNING\<rparr>]"
    "current_process k' = Some n" "next_pid k' = next_pid k" "scheduling_enabled k' = scheduling_enabled k"
    "ticks_remaining k' = TIME_QUANTUM" "tss_rsp0 k' = kernel_stack_top (processes k ! n)"
    "vmm_get_cr3 (vm k') AND PTE_ADDR_MASK = pcr3 (processes k ! n) AND PTE_ADDR_MASK"
  using assms
  by (auto simp: context_switch_def Let_def upd_proc_def tss_set_rsp0_def vmm_get_cr3_def vmm_set_cr3_def and.assoc
      split: if_splits)

lemma schedule_tick_cases:
  assumes "current_process k = Some c" "c < 16" "length (processes k) = 16"
    and "schedule_tick rsp k = (r, k')"
  obtains
    (off) "\<not> scheduling_enabled k" "r = rsp" "k' = woken k"
  | (go_on) "scheduling_enabled k" "use_tick c (woken k) = (False, k')" "r = rsp"
  | (alone) k1 where "scheduling_enabled k" "use_tick c (woken k) = (True, k1)" "r = rsp"
      "k' = save_current rsp c k1" "\<And>i. i < 16 \<Longrightarrow> pstate (processes k' ! i) \<noteq> PROC_READY"
  | (switch) k1 n where "scheduling_enabled k" "use_tick c (woken k) = (True, k1)"
      "next_ready (processes (save_current rsp c k1)) c = Some n" "n < 16"
      "context_switch n (save_current rsp c k1) = (r, k')"
proof (cases "scheduling_enabled k")
  case False
  then show ?thesis
    using off assms by (simp add: schedule_tick_def woken_def [symmetric])
next
  case True
  obtain b k1 where u: "use_tick c (woken k) = (b, k1)"
    by fastforce
  define k2 where "k2 = save_current rsp c k1"
  have eq: "schedule_tick rsp k = (if \<not> b then (rsp, k1) else case next_ready (processes k2) c of
      None \<Rightarrow> (rsp, if pstate (processes k2 ! c) = PROC_READY
        then upd_proc c (\<lambda>p. p\<lparr>pstate := PROC_RUNNING\<rparr>) k2 else k2)
    | Some n \<Rightarrow> context_switch n k2)"
    unfolding schedule_tick_def woken_def [symmetric] k2_def Let_def using assms(1) True u by simp
  consider "\<not> b" | "b" "next_ready (processes k2) c = None" | n where "b" "next_ready (processes k2) c = Some n"
    by (cases "next_ready (processes k2) c") auto
  then show ?thesis
  proof cases
    case 1
    then show ?thesis
      using go_on True u eq assms(4) by simp
  next
    case 2
    note nr = next_ready_NoneD [OF 2(2) assms(2)]
    have "r = rsp" "k' = k2"
      using eq 2 nr [OF assms(2)] assms(4) by simp_all
    then show ?thesis
      using alone [of k1] nr True 2 u by (simp add: k2_def)
  next
    case 3
    then have "n < 16"
      using next_ready_SomeD by blast
    then show ?thesis
      using switch 3 True u eq assms(4) by (simp add: k2_def)
  qed
qed

lemma inv_use_tick:
  assumes inv: "sched_inv k" and u: "use_tick c k = (b, k1)"
  shows "sched_inv k1"
  using inv use_tick_fields [OF u]
  by (auto simp: sched_inv_def current_ok_def slot_ok_def used_def split: option.splits)

lemma inv_tick:
  assumes inv: "sched_inv k" and t: "schedule_tick rsp k = (r, k')"
  shows "sched_inv k'"
proof -
  obtain c where c: "length (processes k) = 16" "current_process k = Some c" "c < 16"
    using inv by (rule sched_invE)
  note invw = inv_woken [OF inv]
  have inv2: "sched_inv k1" "length (processes k1) = 16" "current_process k1 = Some c"
    if "use_tick c (woken k) = (b, k1)" for b k1
    using inv_use_tick [OF invw that] use_tick_fields(1,2) [OF that] c by auto
  from c(2,3,1) t show ?thesis
  proof (cases rule: schedule_tick_cases)
    case (alone k1)
    have "sched_inv (save_current rsp c k1)"
      unfolding save_current_def
      by (rule sched_inv_upd [OF inv2(1) [OF alone(2)]])
        (use trans_ok_refl [OF inv2(1) [OF alone(2)], of c] in \<open>auto simp: trans_ok_def pages_ok_def\<close>)
    then show ?thesis
      using alone by simp
  next
    case (switch k1 n)
    define k2 where "k2 = save_current rsp c k1"
    note i1 = inv2 [OF switch(2)]
    have i2: "sched_inv k2"
      unfolding save_current_def k2_def
      by (rule sched_inv_upd [OF i1(1)])
        (use trans_ok_refl [OF i1(1), of c] in \<open>auto simp: trans_ok_def pages_ok_def\<close>)
    have nr: "pstate (processes k2 ! i) \<noteq> PROC_RUNNING" if "i < 16" for i
      using sched_inv_slot(5) [OF i1(1) that] i1 c(3) by (auto simp: k2_def save_current_nth)
    have rdy: "pstate (processes k2 ! n) = PROC_READY"
      using switch(3) by (auto simp: k2_def elim: next_ready_SomeD)
    have len2: "length (processes k2) = 16"
      using i1 by (simp add: k2_def)
    note f = context_switch_fields [OF switch(5) [folded k2_def], unfolded len2, OF switch(4)]
    have z2: "pstate (processes k2 ! 0) \<in> {PROC_READY, PROC_RUNNING, PROC_BLOCKED}"
      using i2 by (simp add: sched_inv_def)
    have eqs: "processes k' ! i = (if i = n then (processes k2 ! n)\<lparr>pstate := PROC_RUNNING\<rparr> else processes k2 ! i)" for i
      using f(2) len2 switch(4) by (simp add: nth_list_update)
    show ?thesis
    proof (rule sched_inv_mono [OF i2])
      fix i :: nat
      assume i: "i < 16"
      show "length (pname (processes k' ! i)) = 32 \<and> pages_ok (processes k' ! i)"
        using sched_inv_slot(1,2) [OF i2 i] by (auto simp: eqs pages_ok_def)
      show "used k' i \<Longrightarrow> used k2 i \<and> pid (processes k' ! i) = pid (processes k2 ! i)"
        using rdy by (auto simp: eqs used_def)
      show "pstate (processes k' ! i) = PROC_RUNNING \<Longrightarrow> current_process k' = Some i"
        using nr [OF i] by (auto simp: eqs f(3) split: if_splits)
    next
      show "current_ok k'"
        using switch(4) by (simp add: current_ok_def f(3) used_def eqs MAX_PROCESSES_def)
      show "pstate (processes k' ! 0) \<in> {PROC_READY, PROC_RUNNING, PROC_BLOCKED}"
        using z2 by (simp add: eqs)
    qed (simp_all add: f TIME_QUANTUM_def)
  qed (use invw inv2 in auto)
qed

lemma inv_kstep:
  assumes "kstep k k'" "sched_inv k"
  shows "sched_inv k'"
  using assms
proof cases
  case (tick rsp)
  then show ?thesis
    using inv_tick [OF assms(2), of rsp] by (metis surjective_pairing)
next
  case (foreground p)
  then show ?thesis
    using assms(2)
    by (simp add: process_set_foreground_def sched_inv_def current_ok_def slot_ok_def used_def split: option.splits)
next
  case start
  then show ?thesis
    using assms(2) by (simp add: scheduler_start_def sched_inv_def current_ok_def slot_ok_def used_def split: option.splits)
qed (use assms in \<open>auto intro: inv_create inv_activate inv_detach inv_terminate inv_reap_terminated inv_exit
    inv_sleep inv_waitpid inv_resume sched_inv_only only_map_user_page only_write_user only_zero_user only_setup_args\<close>)

lemma inv_kreach:
  assumes "kreach k0 k" "boot_ok k0"
  shows "sched_inv k"
  using assms by (induction rule: kreach.induct) (auto intro: inv_process_init inv_kstep)

section \<open>Bounded waiting\<close>

definition ring_dist :: "nat \<Rightarrow> nat \<Rightarrow> nat" where
  "ring_dist c j = (if c < j then j - c else j + 16 - c)"

definition turn_measure :: "kstate \<Rightarrow> nat \<Rightarrow> nat" where
  "turn_measure k j = 5 * (ring_dist (the (current_process k)) j - 1) + unat (ticks_remaining k)"

lemma ring_dist_bounds: "c < 16 \<Longrightarrow> j < 16 \<Longrightarrow> 0 < ring_dist c j \<and> ring_dist c j \<le> 16 \<and> (c + ring_dist c j) mod 16 = j"
  by (auto simp: ring_dist_def)

lemma ring_dist_step:
  assumes "c < 16" "j < 16" "0 < d" "d < ring_dist c j"
  shows "ring_dist ((c + d) mod 16) j = ring_dist c j - d"
proof (cases "c + d < 16")
  case True
  then have "(c + d) mod 16 = c + d"
    by simp
  moreover have "c + d < j" if "c < j"
    using assms(4) that by (simp add: ring_dist_def)
  ultimately show ?thesis
    using assms(3) by (auto simp: ring_dist_def)
next
  case False
  have "\<not> c < j"
    using assms(2,4) False by (auto simp: ring_dist_def)
  moreover have "(c + d) mod 16 = c + d - 16"
    using assms(1,2,4) False calculation by (intro mod_nat_eqI) (auto simp: ring_dist_def)
  moreover have "c + d - 16 < j"
    using assms(4) calculation(1) False by (auto simp: ring_dist_def)
  ultimately show ?thesis
    using False by (simp add: ring_dist_def)
qed

text \<open>A tick either hands the processor to a ready process or brings its turn closer.\<close>

lemma tick_progress:
  assumes inv: "sched_inv k" and en: "scheduling_enabled k" and j: "j < 16" "pstate (processes k ! j) = PROC_READY"
    and t: "schedule_tick rsp k = (r, k')"
  shows "current_process k' = Some j \<and> pstate (processes k' ! j) = PROC_RUNNING \<or>
    scheduling_enabled k' \<and> pstate (processes k' ! j) = PROC_READY \<and> turn_measure k' j < turn_measure k j"
proof -
  obtain c where c: "length (processes k) = 16" "current_process k = Some c" "c < 16"
    using inv by (rule sched_invE)
  have rw: "pstate (processes (woken k) ! j) = PROC_READY"
    using j c by (auto simp: woken_nth wake_sleeper_def)
  from c(2,3,1) t show ?thesis
  proof (cases rule: schedule_tick_cases)
    case go_on
    then show ?thesis
      using use_tick_fields [OF go_on(2)] rw c by (simp add: turn_measure_def)
  next
    case (alone k1)
    then show ?thesis
      using use_tick_fields(1) [OF alone(2)] rw c alone(5) [OF j(1)]
      by (cases "j = c") (auto simp: save_current_nth)
  next
    case (switch k1 n)
    define k2 where "k2 = save_current rsp c k1"
    note u = use_tick_fields(1-4) [OF switch(2)]
    have r2: "pstate (processes k2 ! j) = PROC_READY" and len2: "length (processes k2) = 16"
      and en2: "scheduling_enabled k2"
      using u rw c switch(1) by (auto simp: k2_def save_current_nth)
    note f = context_switch_fields [OF switch(5) [folded k2_def], unfolded len2, OF switch(4)]
    obtain d where d: "0 < d" "n = (c + d) mod 16"
      "\<And>e. 0 < e \<Longrightarrow> e < d \<Longrightarrow> pstate (processes k2 ! ((c + e) mod 16)) \<noteq> PROC_READY"
      using switch(3) [folded k2_def] by (metis next_ready_SomeD)
    note rd = ring_dist_bounds [OF c(3) j(1)]
    show ?thesis
    proof (cases "n = j")
      case True
      then show ?thesis
        using f j len2 by simp
    next
      case False
      have "\<not> ring_dist c j < d"
        using d(3) [of "ring_dist c j"] rd r2 by auto
      moreover have "d \<noteq> ring_dist c j"
        using False d(2) rd by auto
      ultimately have lt: "d < ring_dist c j"
        by simp
      have "0 < ticks_remaining k"
        using inv by (simp add: sched_inv_def)
      then have "0 < unat (ticks_remaining k)"
        by (simp add: unat_gt_0 word_gt_0)
      then have "turn_measure k' j < turn_measure k j"
        using ring_dist_step [OF c(3) j(1) d(1) lt] d lt
        by (simp add: turn_measure_def f c TIME_QUANTUM_def)
      then show ?thesis
        using f False r2 en2 by simp
    qed
  qed (use en in simp)
qed

primrec run_ticks :: "u64 list \<Rightarrow> kstate \<Rightarrow> kstate" where
  "run_ticks [] k = k"
| "run_ticks (r # rs) k = run_ticks rs (snd (schedule_tick r k))"

lemma ready_runs:
  assumes "sched_inv k" "scheduling_enabled k" "j < 16" "pstate (processes k ! j) = PROC_READY"
    and "turn_measure k j \<le> length rs"
  shows "\<exists>n \<le> length rs. current_process (run_ticks (take n rs) k) = Some j \<and>
    pstate (processes (run_ticks (take n rs) k) ! j) = PROC_RUNNING"
  using assms
proof (induction rs arbitrary: k)
  case Nil
  then have "unat (ticks_remaining k) = 0"
    by (simp add: turn_measure_def)
  then show ?case
    using Nil(1) by (simp add: sched_inv_def unat_eq_zero word_gt_0)
next
  case (Cons r rs)
  obtain x k' where t: "schedule_tick r k = (x, k')"
    by fastforce
  from tick_progress [OF Cons.prems(1-4) t] show ?case
  proof
    assume "current_process k' = Some j \<and> pstate (processes k' ! j) = PROC_RUNNING"
    then show ?thesis
      by (intro exI [of _ 1]) (simp add: t)
  next
    assume a: "scheduling_enabled k' \<and> pstate (processes k' ! j) = PROC_READY \<and> turn_measure k' j < turn_measure k j"
    then obtain n where "n \<le> length rs" "current_process (run_ticks (take n rs) k') = Some j"
        "pstate (processes (run_ticks (take n rs) k') ! j) = PROC_RUNNING"
      using Cons.IH [OF inv_tick [OF Cons.prems(1) t]] Cons.prems(3,5) by auto
    then show ?thesis
      by (intro exI [of _ "Suc n"]) (simp add: t)
  qed
qed

lemma turn_measure_bound:
  assumes "sched_inv k" "j < 16"
  shows "turn_measure k j \<le> 80"
proof -
  obtain c where c: "current_process k = Some c" "c < 16"
    using assms(1) by (rule sched_invE)
  have "unat (ticks_remaining k) \<le> unat (5 :: u32)"
    using assms(1) unfolding word_le_nat_alt [symmetric] by (simp add: sched_inv_def TIME_QUANTUM_def)
  moreover have "ring_dist c j \<le> 16"
    using ring_dist_bounds [OF c(2) assms(2)] by simp
  ultimately show ?thesis
    using c(1) by (simp add: turn_measure_def)
qed

section \<open>Exit and wait\<close>

text \<open>Ticks leave a dead process alone: its slot keeps its pid and exit code until it is collected.\<close>

definition dead :: "kstate \<Rightarrow> nat \<Rightarrow> u64 \<Rightarrow> int \<Rightarrow> bool" where
  "dead k i p code \<longleftrightarrow> pstate (processes k ! i) = PROC_TERMINATED \<and> pid (processes k ! i) = p \<and>
     exit_code (processes k ! i) = code"

lemma tick_stays:
  assumes inv: "sched_inv k" and t: "schedule_tick rsp k = (r, k')" and i: "i < 16"
    and w: "processes (woken k) ! i = processes k ! i"
    and st: "pstate (processes k ! i) \<notin> {PROC_READY, PROC_RUNNING}"
  shows "\<exists>x. processes k' ! i = (processes k ! i)\<lparr>kernel_rsp := x\<rparr>"
proof -
  obtain c where c: "length (processes k) = 16" "current_process k = Some c" "c < 16"
    using inv by (rule sched_invE)
  have id: "\<exists>x. processes k ! i = (processes k ! i)\<lparr>kernel_rsp := x\<rparr>"
    by (rule exI [of _ "kernel_rsp (processes k ! i)"]) simp
  have save: "\<exists>x. processes (save_current rsp c k1) ! i = (processes k ! i)\<lparr>kernel_rsp := x\<rparr>"
    if "use_tick c (woken k) = (b, k1)" for b k1
    using use_tick_fields(1) [OF that] c w st id by (auto simp: save_current_nth)
  from c(2,3,1) t show ?thesis
  proof (cases rule: schedule_tick_cases)
    case go_on
    then show ?thesis
      using use_tick_fields(1) [OF go_on(2)] w id by simp
  next
    case (switch k1 n)
    then have "n \<noteq> i"
      using save [OF switch(2)] st by (auto elim!: next_ready_SomeD)
    then show ?thesis
      using context_switch_fields(2) [OF switch(5)] save [OF switch(2)] use_tick_fields(1) [OF switch(2)] switch(4) c
      by simp
  qed (use w id save in auto)
qed

lemma tick_dead:
  assumes inv: "sched_inv k" and d: "dead k i p code" and i: "i < 16" and t: "schedule_tick rsp k = (r, k')"
  shows "dead k' i p code"
proof -
  have "length (processes k) = 16"
    using inv by (rule sched_invE)
  then have "processes (woken k) ! i = processes k ! i"
    using d i by (simp add: dead_def woken_nth wake_sleeper_def)
  then show ?thesis
    using tick_stays [OF inv t i] d by (auto simp: dead_def)
qed

lemma run_ticks_dead:
  assumes "sched_inv k" "dead k i p code" "i < 16"
  shows "sched_inv (run_ticks rs k) \<and> dead (run_ticks rs k) i p code"
  using assms
proof (induction rs arbitrary: k)
  case (Cons r rs)
  obtain x k' where t: "schedule_tick r k = (x, k')"
    by fastforce
  show ?case
    using Cons.IH [OF inv_tick [OF Cons.prems(1) t] tick_dead [OF Cons.prems(1,2,3) t] Cons.prems(3)]
    by (simp add: t)
qed simp

definition owns_fd :: "kstate \<Rightarrow> u64 \<Rightarrow> bool" where
  "owns_fd k p \<longleftrightarrow> (\<exists>f \<in> set (fd_table k). fd_used f \<and> fd_owner_pid f = p)"

lemma fd_free_pages: "fd_table (fold (free_user_page i) js k) = fd_table k"
  by (induction js arbitrary: k) (simp_all add: free_user_page_def upd_proc_def Let_def)

lemma fd_upd [simp]: "fd_table (upd_proc i f k) = fd_table k"
  by (simp add: upd_proc_def)

lemma reap_result:
  assumes "i < length (processes k)" "pid (processes k ! i) \<noteq> 0"
  shows "\<not> used (reap i k) i" "\<not> owns_fd (reap i k) (pid (processes k ! i))"
proof -
  have "i < length (processes (process_cleanup i k))"
    using assms only_length [OF only_cleanup] by metis
  then show "\<not> used (reap i k) i"
    by (simp add: reap_def used_def upd_proc_def)
  have "fd_table (reap i k) = fd_table (syscall_close_process_fds (pid (processes k ! i)) k)"
    using assms by (simp add: reap_def process_cleanup_def Let_def fd_free_pages)
  then show "\<not> owns_fd (reap i k) (pid (processes k ! i))"
    by (auto simp: owns_fd_def syscall_close_process_fds_def)
qed

lemma exit_result:
  assumes inv: "sched_inv k" and r: "runs k c" and c: "c \<noteq> 0"
  shows "dead (process_exit code k) c (pid (processes k ! c)) code"
    and "w < 16 \<Longrightarrow> pstate (processes k ! w) = PROC_BLOCKED \<Longrightarrow> wait_target (processes k ! w) = pid (processes k ! c) \<Longrightarrow>
      pstate (processes (process_exit code k) ! w) = PROC_READY"
    and "scheduling_enabled (process_exit code k) = scheduling_enabled k"
proof -
  have cur: "current_process k = Some c" "pstate (processes k ! c) \<in> {PROC_RUNNING, PROC_READY}"
    using r by (auto simp: runs_def)
  have len: "length (processes k) = 16" "c < 16" "used k c"
    using inv cur by (auto elim: sched_invE)
  then have "pid (processes k ! c) \<noteq> 0"
    using sched_inv_slot(3) [OF inv] c by simp
  then have eq: "process_exit code k = (let k1 = upd_proc c (\<lambda>p. p\<lparr>pstate := PROC_TERMINATED, exit_code := code\<rparr>) k
      in k1\<lparr>processes := map (wake_waiter (pid (processes k ! c))) (processes k1)\<rparr>)"
    using cur by (simp add: process_exit_def)
  show "dead (process_exit code k) c (pid (processes k ! c)) code"
    using len by (simp add: eq dead_def upd_proc_def wake_waiter_def Let_def)
  show "pstate (processes (process_exit code k) ! w) = PROC_READY"
    if "w < 16" "pstate (processes k ! w) = PROC_BLOCKED" "wait_target (processes k ! w) = pid (processes k ! c)"
  proof -
    have "w \<noteq> c"
      using that cur by auto
    then show ?thesis
      using len that by (simp add: eq upd_proc_def wake_waiter_def Let_def)
  qed
  show "scheduling_enabled (process_exit code k) = scheduling_enabled k"
    by (simp add: eq upd_proc_def Let_def)
qed

lemma resume_collects:
  assumes inv: "sched_inv k" and cur: "current_process k = Some w" and run: "pstate (processes k ! w) = PROC_RUNNING"
    and d: "dead k t p code" and t: "t < 16" "p \<noteq> 0"
  shows "\<exists>k'. waitpid_resume t k = Some (code, k') \<and> \<not> used k' t \<and> \<not> owns_fd k' p"
proof -
  define k1 where "k1 = upd_proc w (\<lambda>q. q\<lparr>pstate := PROC_RUNNING, wait_target := 0\<rparr>) k"
  have ne: "t \<noteq> w"
    using d run by (auto simp: dead_def)
  have len: "length (processes k) = 16"
    using inv by (rule sched_invE)
  have same: "processes k1 ! t = processes k ! t" "length (processes k1) = 16"
    using ne len by (auto simp: k1_def upd_proc_def)
  have "waitpid_resume t k = Some (code, reap t k1)"
    using d cur same by (simp add: waitpid_resume_def waitpid_collect_def dead_def k1_def)
  then show ?thesis
    using reap_result [of t k1] t same d by (simp add: dead_def)
qed

section \<open>Sleepers\<close>

text \<open>
  The deadline of a sleeper is a 64-bit sum, the clock it is compared with a 32-bit counter: a deadline
  past the end of the counter is never reached.
\<close>

lemma tick_sleeper_stays:
  assumes inv: "sched_inv k" and t: "schedule_tick rsp k = (r, k')" and i: "i < 16"
    and s: "pstate (processes k ! i) = PROC_SLEEPING" "2 ^ 32 \<le> wake_tick (processes k ! i)"
  shows "pstate (processes k' ! i) = PROC_SLEEPING \<and> wake_tick (processes k' ! i) = wake_tick (processes k ! i)"
proof -
  have "unat (ucast (system_ticks k + 1) :: u64) < 2 ^ 32"
    using le_less_trans [OF take_bit_nat_less_eq_self unsigned_less [of "system_ticks k + 1"]]
    by (simp add: unsigned_ucast_eq)
  moreover have "2 ^ 32 \<le> unat (wake_tick (processes k ! i))"
    using s(2) by (simp add: word_le_nat_alt)
  ultimately have "\<not> wake_tick (processes k ! i) \<le> ucast (system_ticks k + 1)"
    by (simp add: word_le_nat_alt)
  moreover have "length (processes k) = 16"
    using inv by (rule sched_invE)
  ultimately have "processes (woken k) ! i = processes k ! i"
    using i by (simp add: woken_nth wake_sleeper_def)
  then show ?thesis
    using tick_stays [OF inv t i] s by auto
qed

lemma run_ticks_sleeper:
  assumes "sched_inv k" "i < 16" "pstate (processes k ! i) = PROC_SLEEPING" "2 ^ 32 \<le> wake_tick (processes k ! i)"
  shows "pstate (processes (run_ticks rs k) ! i) = PROC_SLEEPING"
  using assms
proof (induction rs arbitrary: k)
  case (Cons r rs)
  obtain x k' where t: "schedule_tick r k = (x, k')"
    by fastforce
  show ?case
    using Cons.IH [OF inv_tick [OF Cons.prems(1) t] Cons.prems(2)] tick_sleeper_stays [OF Cons.prems(1) t Cons.prems(2-4)]
      Cons.prems(4) by (simp add: t)
qed simp

lemma sleep_result:
  assumes "sched_inv k" "runs k c" "c \<noteq> 0" "n \<noteq> 0"
  shows "pstate (processes (process_sleep_ticks n k) ! c) = PROC_SLEEPING"
    "wake_tick (processes (process_sleep_ticks n k) ! c) = ucast (system_ticks k) + n"
proof -
  have c: "current_process k = Some c" "c < 16" "used k c" "length (processes k) = 16"
    using assms(1,2) by (auto simp: runs_def elim: sched_invE)
  then have "pid (processes k ! c) \<noteq> 0"
    using sched_inv_slot(3) [OF assms(1)] assms(3) by simp
  then show "pstate (processes (process_sleep_ticks n k) ! c) = PROC_SLEEPING"
    "wake_tick (processes (process_sleep_ticks n k) ! c) = ucast (system_ticks k) + n"
    using c assms(4) by (simp_all add: process_sleep_ticks_def upd_proc_def timer_get_ticks_def)
qed

section \<open>A concrete run\<close>

definition blank_process :: process where
  "blank_process = \<lparr>pid = 0, pstate = PROC_UNUSED, pname = replicate 32 NUL, kernel_rsp = 0, kernel_stack = 0,
     kernel_stack_top = 0, pcr3 = 0, is_user = False, exit_code = 0, detached = False, wait_target = 0,
     wake_tick = 0, user_pages = replicate 256 0, user_page_count = 0\<rparr>"

definition demo_boot :: kstate where
  "demo_boot = \<lparr>processes = replicate 16 blank_process, current_process = None, next_pid = 1,
     scheduling_enabled = False, foreground_pid = 0, ticks_remaining = 5, system_ticks = 0, vm = demo_space,
     fd_table = [], tss_rsp0 = 0, kctx = (\<lambda>_. \<lparr>ctx_gprs = [], ctx_rip = 0, ctx_cs = 0, ctx_rflags = 0, ctx_rsp = 0,
       ctx_ss = 0\<rparr>), kernel_stacks = 0x300000, stack_top = 0x200000\<rparr>"

definition demo_init :: kstate where "demo_init = the (process_init demo_boot)"
definition demo_created :: kstate where
  "demo_created = snd (the (process_create ''idle'' 0x100000 False demo_init))"
definition demo_started :: kstate where "demo_started = scheduler_start demo_created"
definition demo_waiting :: kstate where "demo_waiting = snd (the (process_waitpid 1 False demo_started))"
definition demo_switched :: kstate where "demo_switched = snd (schedule_tick 0x1F0000 demo_waiting)"

lemma demo_boot_ok: "boot_ok demo_boot"
  by (simp add: boot_ok_def demo_boot_def blank_process_def MAX_PROCESSES_def PROCESS_MAX_USER_PAGES_def
      TIME_QUANTUM_def)

lemma demo_reach:
  "kreach demo_boot demo_started" "kreach demo_boot demo_switched"
proof -
  have "process_init demo_boot \<noteq> None" "process_create ''idle'' 0x100000 False demo_init \<noteq> None"
      "process_waitpid 1 False demo_started \<noteq> None"
    by code_simp+
  then have s: "process_init demo_boot = Some demo_init"
      "process_create ''idle'' 0x100000 False demo_init = Some (fst (the (process_create ''idle'' 0x100000 False demo_init)), demo_created)"
      "process_waitpid 1 False demo_started = Some (fst (the (process_waitpid 1 False demo_started)), demo_waiting)"
    by (simp_all add: demo_init_def demo_created_def demo_waiting_def)
  have r: "runs demo_init 0" "runs demo_created 0" "runs demo_started 0" "next_pid demo_init + 1 \<noteq> 0"
    unfolding runs_def by code_simp+
  have "kreach demo_boot demo_init"
    using s(1) by (rule kreach.boot)
  then have "kreach demo_boot demo_created"
    using kstep.create [OF r(1,4) s(2)] by (rule kreach.step)
  then show st: "kreach demo_boot demo_started"
    unfolding demo_started_def using kstep.start [OF r(2)] by (rule kreach.step)
  then have "kreach demo_boot demo_waiting"
    using kstep.wait [OF r(3) s(3)] by (rule kreach.step)
  then show "kreach demo_boot demo_switched"
    unfolding demo_switched_def using kstep.tick by (rule kreach.step)
qed

lemma demo_states:
  "scheduling_enabled demo_started" "pstate (processes demo_started ! 1) = PROC_READY"
  "scheduling_enabled demo_switched" "current_process demo_switched = Some 1"
  "pstate (processes demo_switched ! 1) = PROC_RUNNING" "pstate (processes demo_switched ! 0) = PROC_BLOCKED"
  "wait_target (processes demo_switched ! 0) = pid (processes demo_switched ! 1)"
  by code_simp+

section \<open>Properties\<close>

text \<open>C5. In every state the kernel can reach from its zeroed tables, by timer ticks and by the process
  operations in any order, the process table is consistent: there is a current process and it is never an
  empty or half-loaded slot, only it is in the running state, slot 0 stays the kernel's and never sleeps or
  dies, pids of used slots are distinct, non-zero outside slot 0 and below the counter, the page lists stay
  within their arrays and the time slice stays between 1 and 5 ticks.\<close>
theorem scheduler_invariant:
  assumes "boot_ok k0" "kreach k0 k"
  shows "sched_inv k"
  using assms by (simp add: inv_kreach)

theorem scheduler_invariant_witness: "sched_inv demo_switched"
  using scheduler_invariant [OF demo_boot_ok demo_reach(2)] .

text \<open>C7. The round robin has bounded waiting: once the scheduler is started, a process that is ready in a
  reachable state is running within 80 ticks, whatever the saved stack pointers are.\<close>
theorem round_robin_bounded_wait:
  assumes "boot_ok k0" "kreach k0 k" "scheduling_enabled k" "j < MAX_PROCESSES"
    and "pstate (processes k ! j) = PROC_READY" "length rs = 80"
  shows "\<exists>n \<le> 80. current_process (run_ticks (take n rs) k) = Some j \<and>
    pstate (processes (run_ticks (take n rs) k) ! j) = PROC_RUNNING"
  using ready_runs [of k j rs] turn_measure_bound [of k j] inv_kreach [OF assms(2,1)] assms(3-6)
  by (simp add: MAX_PROCESSES_def)

theorem round_robin_bounded_wait_witness:
  "\<exists>n \<le> 80. current_process (run_ticks (take n (replicate 80 0)) demo_started) = Some 1 \<and>
    pstate (processes (run_ticks (take n (replicate 80 0)) demo_started) ! 1) = PROC_RUNNING"
  using round_robin_bounded_wait [OF demo_boot_ok demo_reach(1) demo_states(1) _ demo_states(2), of "replicate 80 0"]
  by (simp add: MAX_PROCESSES_def)

text \<open>C6. A process that exits with a code wakes the process blocked on it, which within 80 ticks is
  running again and then receives exactly that code from \<open>process_waitpid\<close>; the slot is then free and no
  file descriptor of the dead process is left open.\<close>
theorem waitpid_receives_exit_code:
  assumes "boot_ok k0" "kreach k0 k" "scheduling_enabled k" "runs k c" "c \<noteq> 0" "w < MAX_PROCESSES"
    and "pstate (processes k ! w) = PROC_BLOCKED" "wait_target (processes k ! w) = pid (processes k ! c)"
    and "length rs = 80"
  shows "\<exists>n \<le> 80. \<exists>k'. waitpid_resume c (run_ticks (take n rs) (process_exit code k)) = Some (code, k') \<and>
    current_process (run_ticks (take n rs) (process_exit code k)) = Some w \<and>
    \<not> used k' c \<and> \<not> owns_fd k' (pid (processes k ! c))"
proof -
  have inv: "sched_inv k"
    using assms(1,2) by (simp add: inv_kreach)
  have c: "c < 16" "pid (processes k ! c) \<noteq> 0"
    using inv assms(4,5) sched_inv_slot(3) [OF inv, of c] by (auto simp: runs_def elim!: sched_invE)
  have w: "w < 16"
    using assms(6) by (simp add: MAX_PROCESSES_def)
  note ex = exit_result [OF inv assms(4,5), where code = code]
  note inv' = inv_exit [OF inv assms(4), where code = code]
  obtain n where n: "n \<le> 80" "current_process (run_ticks (take n rs) (process_exit code k)) = Some w"
      "pstate (processes (run_ticks (take n rs) (process_exit code k)) ! w) = PROC_RUNNING"
    using ready_runs [OF inv' _ w ex(2), of rs] turn_measure_bound [OF inv' w] ex(3) assms(3,7-9) w by auto
  show ?thesis
    using resume_collects [OF _ n(2,3) _ c] run_ticks_dead [OF inv' ex(1) c(1), of "take n rs"] n by blast
qed

theorem waitpid_receives_exit_code_witness:
  "\<exists>n \<le> 80. \<exists>k'. waitpid_resume 1 (run_ticks (take n (replicate 80 0)) (process_exit 42 demo_switched)) = Some (42, k') \<and>
    current_process (run_ticks (take n (replicate 80 0)) (process_exit 42 demo_switched)) = Some 0 \<and>
    \<not> used k' 1 \<and> \<not> owns_fd k' (pid (processes demo_switched ! 1))"
  using waitpid_receives_exit_code [OF demo_boot_ok demo_reach(2) demo_states(3) _ _ _ demo_states(6,7),
      of "replicate 80 0" 42] demo_states
  by (simp add: MAX_PROCESSES_def runs_def)



text \<open>C39. The deadline of \<open>process_sleep_ticks\<close> is a 64-bit sum but the tick counter has 32 bits: a process
  that sleeps past tick \<open>2^32\<close> is not woken by any number of ticks.\<close>
theorem sleep_past_wrap_never_wakes:
  assumes "boot_ok k0" "kreach k0 k" "runs k c" "c \<noteq> 0" "n \<noteq> 0" "2 ^ 32 \<le> ucast (system_ticks k) + n"
  shows "pstate (processes (run_ticks rs (process_sleep_ticks n k)) ! c) = PROC_SLEEPING"
proof -
  have inv: "sched_inv k"
    using assms(1,2) by (simp add: inv_kreach)
  have "c < 16"
    using inv assms(3) by (auto simp: runs_def elim: sched_invE)
  then show ?thesis
    using run_ticks_sleeper [OF inv_sleep [OF inv assms(3)]] sleep_result [OF inv assms(3-5)] assms(6) by simp
qed

theorem sleep_past_wrap_never_wakes_witness:
  "\<forall>rs. pstate (processes (run_ticks rs (process_sleep_ticks 0x100000000 demo_switched)) ! 1) = PROC_SLEEPING"
proof -
  have "2 ^ 32 \<le> ucast (system_ticks demo_switched) + (0x100000000 :: u64)"
    by code_simp
  then show ?thesis
    using sleep_past_wrap_never_wakes [OF demo_boot_ok demo_reach(2), of 1 "0x100000000"] demo_states
    by (simp add: runs_def)
qed

end
