(* ===== verification/Args.thy ===== *)
theory Args
  imports Process
begin

text \<open>
  The argument page that \<open>process_setup_user_args\<close> writes for a new process: the loop over the command
  line against the list of its words.
\<close>

unbundle bit_operations_syntax

section \<open>The argument page\<close>

text \<open>The words of a command line, and where each starts among the strings of the argument page.\<close>

function words :: "string \<Rightarrow> string list" where
  "words s =
     (let s1 = dropWhile (\<lambda>c. c = CHR '' '') s in
      if s1 = [] then [] else takeWhile (\<lambda>c. c \<noteq> CHR '' '') s1 # words (dropWhile (\<lambda>c. c \<noteq> CHR '' '') s1))"
  by pat_completeness auto
termination
proof (relation "measure length")
  fix s s1 :: string
  assume s1: "s1 = dropWhile (\<lambda>c. c = CHR '' '') s" "s1 \<noteq> []"
  then have "hd s1 \<noteq> CHR '' ''"
    using hd_dropWhile by blast
  then have "length (dropWhile (\<lambda>c. c \<noteq> CHR '' '') s1) < length s1"
    using s1(2) by (cases s1) (auto simp: le_imp_less_Suc length_dropWhile_le)
  also have "\<dots> \<le> length s"
    using s1(1) by (simp add: length_dropWhile_le)
  finally show "(dropWhile (\<lambda>c. c \<noteq> CHR '' '') s1, s) \<in> measure length"
    by simp
qed simp

declare words.simps [simp del]

definition arg_bytes :: "string list \<Rightarrow> nat" where
  "arg_bytes ts = sum_list (map (\<lambda>t. length t + 1) ts)"

definition arg_offset :: "string list \<Rightarrow> nat \<Rightarrow> nat" where
  "arg_offset ts j = arg_bytes (take j ts)"

lemma join32_64: "ucast (ucast (v :: u64) :: u32) OR push_bit 32 (ucast (ucast (drop_bit 32 v) :: u32)) = v"
  by (rule bit_word_eqI) (auto simp: bit_simps)

lemma length_put64 [simp]: "length (put64 i v b) = length b"
  by (simp add: put64_def)

lemma get64_put64_same: "i + 7 < length b \<Longrightarrow> get64 (put64 i v b) i = v"
  by (simp add: get64_def put64_def get32_put32_same get32_put32_other join32_64)

lemma get8_put64_other: "i + 7 < length b \<Longrightarrow> j < i \<or> i + 8 \<le> j \<Longrightarrow> get8 (put64 i v b) j = get8 b j"
  by (auto simp: put64_def get8_put32)

lemma get64_cong: "(\<And>j. i \<le> j \<Longrightarrow> j < i + 8 \<Longrightarrow> get8 b j = get8 c j) \<Longrightarrow> get64 b i = get64 c i"
  by (simp add: get64_def get32_def get16_def)

definition arg_at :: "bytes \<Rightarrow> nat \<Rightarrow> nat \<Rightarrow> string \<Rightarrow> bool" where
  "arg_at page j pos t \<longleftrightarrow> get64 page (8 * (1 + j)) = USER_ARGV_BASE + 136 + of_nat pos \<and>
     (\<forall>n < length t. get8 page (136 + pos + n) = of_char (t ! n)) \<and> get8 page (136 + pos + length t) = 0"

lemma arg_at_cong:
  assumes "\<And>i. 8 * (1 + j) \<le> i \<and> i < 8 * (2 + j) \<or> 136 + pos \<le> i \<and> i \<le> 136 + pos + length t \<Longrightarrow> get8 b i = get8 c i"
  shows "arg_at b j pos t = arg_at c j pos t"
proof -
  have "get64 b (8 * (1 + j)) = get64 c (8 * (1 + j))"
    by (rule get64_cong) (use assms in auto)
  then show ?thesis
    using assms by (auto simp: arg_at_def)
qed

lemma args_loop_words:
  assumes "argc + length (words s) \<le> 16" "pos + arg_bytes (words s) < 3960" "length page = 4096"
  shows "\<exists>page'. args_loop s argc pos page = (argc + length (words s), page') \<and> length page' = 4096 \<and>
    (\<forall>i. i < 8 * (1 + argc) \<or> 136 \<le> i \<and> i < 136 + pos \<longrightarrow> get8 page' i = get8 page i) \<and>
    (\<forall>j < length (words s). arg_at page' (argc + j) (pos + arg_offset (words s) j) (words s ! j))"
  using assms
proof (induction s arbitrary: argc pos page rule: words.induct)
  case (1 s)
  define s1 where "s1 = dropWhile (\<lambda>c. c = CHR '' '') s"
  define tok where "tok = takeWhile (\<lambda>c. c \<noteq> CHR '' '') s1"
  define rest where "rest = dropWhile (\<lambda>c. c \<noteq> CHR '' '') s1"
  show ?case
  proof (cases "s1 = []")
    case True
    then have "words s = []"
      by (subst words.simps) (simp add: s1_def Let_def)
    moreover have "args_loop s argc pos page = (argc, page)"
      using True by (subst args_loop.simps) (simp add: s1_def Let_def)
    ultimately show ?thesis
      using 1(4) by simp
  next
    case False
    have w: "words s = tok # words rest"
      using False by (subst words.simps) (simp add: s1_def tok_def rest_def Let_def)
    have b: "argc < 16" "pos + length tok + 1 + arg_bytes (words rest) < 3960"
      using 1(2,3) by (auto simp: w arg_bytes_def)
    define page1 where "page1 = put8 (136 + pos + length tok) 0 (put_bytes (136 + pos) (map of_char tok)
        (put64 (8 * (1 + argc)) (USER_ARGV_BASE + 136 + of_nat pos) page))"
    have len1: "length page1 = 4096"
      using 1(4) b by (simp add: page1_def)
    have c: "s \<noteq> [] \<and> argc < 16 \<and> pos < 3959" "\<not> 3960 \<le> pos + length tok + 1"
      using b False by (auto simp: s1_def)
    have step: "args_loop s argc pos page = args_loop rest (argc + 1) (pos + length tok + 1) page1"
      unfolding args_loop.simps [of s] Let_def s1_def [symmetric] tok_def [symmetric] rest_def [symmetric]
        page1_def [symmetric] using c False by (simp only: if_True if_False simp_thms)
    obtain page' where p: "args_loop rest (argc + 1) (pos + length tok + 1) page1 = (argc + 1 + length (words rest), page')"
        "length page' = 4096"
        "\<And>i. i < 8 * (1 + (argc + 1)) \<or> 136 \<le> i \<and> i < 136 + (pos + length tok + 1) \<Longrightarrow> get8 page' i = get8 page1 i"
        "\<And>j. j < length (words rest) \<Longrightarrow>
          arg_at page' (argc + 1 + j) (pos + length tok + 1 + arg_offset (words rest) j) (words rest ! j)"
      using 1(1) [OF s1_def False, of "argc + 1" "pos + length tok + 1" page1] b len1 1(2) w
      unfolding rest_def [symmetric] by auto
    have old: "get8 page1 i = get8 page i" if "i < 8 * (1 + argc) \<or> 136 \<le> i \<and> i < 136 + pos" for i
      using that b 1(4) by (auto simp: page1_def get8_put8 get8_put_bytes get8_put64_other)
    have "get64 page1 (8 * (1 + argc)) = get64 (put64 (8 * (1 + argc)) (USER_ARGV_BASE + 136 + of_nat pos) page) (8 * (1 + argc))"
      by (rule get64_cong) (use b 1(4) in \<open>auto simp: page1_def get8_put8 get8_put_bytes\<close>)
    then have new: "arg_at page1 argc pos tok"
      using b 1(4) by (auto simp: arg_at_def get64_put64_same page1_def get8_put8 get8_put_bytes)
    have "arg_at page' argc pos tok"
      by (subst arg_at_cong [where c = page1]) (use new p(3) in auto)
    then have "arg_at page' (argc + j) (pos + arg_offset (words s) j) (words s ! j)" if "j < length (words s)" for j
      using that p(4) [of "j - 1"] by (cases j) (auto simp: w arg_offset_def arg_bytes_def add.assoc)
    then show ?thesis
      using p(1-3) old by (auto simp: step w)
  qed
qed

text \<open>C27. The argument page of a process holds its command line split at spaces: when there are at most 16
  words and they fit, \<open>argc\<close> is their number, entry \<open>j\<close> of the pointer array is the user address of word
  \<open>j\<close>, and the NUL-terminated word is stored there.\<close>
theorem argument_page_layout:
  assumes "length (words cmd) \<le> 16" "arg_bytes (words cmd) < 3960"
  shows "\<exists>page. args_loop cmd 0 0 (replicate 4096 0) = (length (words cmd), page) \<and> length page = 4096 \<and>
    (\<forall>k i. process_setup_user_args i cmd k =
       process_write_user i USER_ARGV_BASE (put64 0 (of_nat (length (words cmd))) page) k) \<and>
    (\<forall>j < length (words cmd). arg_at page j (arg_offset (words cmd) j) (words cmd ! j))"
  using args_loop_words [of 0 cmd 0 "replicate 4096 0"] assms by (auto simp: process_setup_user_args_def)

theorem argument_page_layout_witness:
  "\<exists>page. args_loop ''cat /etc/motd'' 0 0 (replicate 4096 0) = (2, page) \<and> arg_at page 1 4 ''/etc/motd''"
proof -
  have w: "words ''cat /etc/motd'' = [''cat'', ''/etc/motd'']"
    by (simp add: words.simps Let_def)
  have o: "arg_offset [''cat'', ''/etc/motd''] 1 = 4"
    by (simp add: arg_offset_def arg_bytes_def)
  show ?thesis
    using argument_page_layout [of "''cat /etc/motd''"] unfolding w
    by (auto simp: arg_bytes_def o [simplified] dest!: spec [of _ "Suc 0"])
qed

end
