(* ===== verification/Loader.thy ===== *)
theory Loader
  imports Sched
begin

text \<open>
  The program loaders (\<open>kernel/exec/elf.c\<close>, \<open>kernel/aob/aob.c\<close>). What \<open>fs_read\<close> left in the static
  buffer is the argument \<open>file\<close>: \<open>None\<close> when it failed, otherwise the whole buffer and the file size
  it reported. \<open>None\<close> as a result is an access outside a buffer or a call that does not return. A
  spawned foreground program is waited for: the spawn stops at that wait, and \<open>spawn_finish\<close> is what
  follows it. Log lines are left out.
\<close>

unbundle bit_operations_syntax

section \<open>Formats\<close>

definition ELF_MAGIC :: u32 where "ELF_MAGIC = 0x464C457F"
definition ELFCLASS64 :: u8 where "ELFCLASS64 = 2"
definition ELFDATA2LSB :: u8 where "ELFDATA2LSB = 1"
definition ET_EXEC :: u16 where "ET_EXEC = 2"
definition EM_X86_64 :: u16 where "EM_X86_64 = 62"
definition EV_CURRENT :: u32 where "EV_CURRENT = 1"
definition PT_LOAD :: u32 where "PT_LOAD = 1"
definition PF_X :: u32 where "PF_X = 1"
definition PF_W :: u32 where "PF_W = 2"
definition ELF_LOAD_BUFFER_SIZE :: nat where "ELF_LOAD_BUFFER_SIZE = 131072"

record elf64_header =
  e_magic :: u32
  e_class :: u8
  e_data :: u8
  e_type :: u16
  e_machine :: u16
  e_version :: u32
  e_entry :: u64
  e_phoff :: u64
  e_phentsize :: u16
  e_phnum :: u16

definition elf_header :: "bytes \<Rightarrow> elf64_header" where
  "elf_header b = \<lparr>e_magic = get32 b 0, e_class = get8 b 4, e_data = get8 b 5, e_type = get16 b 16,
     e_machine = get16 b 18, e_version = get32 b 20, e_entry = get64 b 24, e_phoff = get64 b 32,
     e_phentsize = get16 b 54, e_phnum = get16 b 56\<rparr>"

record elf64_phdr =
  p_type :: u32
  p_flags :: u32
  p_offset :: u64
  p_vaddr :: u64
  p_filesz :: u64
  p_memsz :: u64

definition elf_phdr :: "bytes \<Rightarrow> nat \<Rightarrow> elf64_phdr" where
  "elf_phdr b a = \<lparr>p_type = get32 b a, p_flags = get32 b (a + 4), p_offset = get64 b (a + 8),
     p_vaddr = get64 b (a + 16), p_filesz = get64 b (a + 32), p_memsz = get64 b (a + 40)\<rparr>"

section \<open>ELF\<close>

definition page_down :: "u64 \<Rightarrow> u64" where
  "page_down v = v AND NOT (4096 - 1)"

definition page_up :: "u64 \<Rightarrow> u64" where
  "page_up v = (v + 4095) AND NOT (4096 - 1)"

definition range_flags :: "u32 \<Rightarrow> vmm_state \<Rightarrow> u64" where
  "range_flags ph_flags s =
     PTE_USER OR (if ph_flags AND PF_W \<noteq> 0 then PTE_WRITABLE else 0)
       OR (if ph_flags AND PF_X = 0 \<and> vmm_nx_supported s then PTE_NX else 0)"

partial_function (option) map_range_loop :: "nat \<Rightarrow> u64 \<Rightarrow> u64 \<Rightarrow> u64 \<Rightarrow> kstate \<Rightarrow> (int \<times> kstate) option" where
  "map_range_loop i addr stop flags k =
     (if addr < stop then do {
        (r, k1) \<leftarrow> process_map_user_page i addr flags k;
        if r \<noteq> 0 then Some (-1, k1) else map_range_loop i (addr + 4096) stop flags k1 }
      else Some (0, k))"

declare map_range_loop.simps [code]

definition map_range :: "nat \<Rightarrow> u64 \<Rightarrow> u64 \<Rightarrow> u32 \<Rightarrow> kstate \<Rightarrow> (int \<times> kstate) option" where
  "map_range i start stop ph_flags k =
     map_range_loop i (page_down start) (page_up stop) (range_flags ph_flags (vm k)) k"

definition valid_user_range :: "u64 \<Rightarrow> u64 \<Rightarrow> bool" where
  "valid_user_range vaddr sz \<longleftrightarrow>
     (if sz = 0 then True
      else if vaddr < 0x10000 then False
      else if vaddr \<ge> USER_STACK_BASE then False
      else if vaddr + sz < vaddr then False
      else if vaddr + sz > USER_STACK_BASE then False
      else if vaddr \<le> USER_API_BASE + 4096 \<and> vaddr + sz > USER_API_BASE then False
      else if vaddr \<le> USER_ARGV_BASE + 4096 \<and> vaddr + sz > USER_ARGV_BASE then False
      else True)"

definition elf_header_ok :: "elf64_header \<Rightarrow> u32 \<Rightarrow> bool" where
  "elf_header_ok eh file_size \<longleftrightarrow>
     e_magic eh = ELF_MAGIC \<and> e_class eh = ELFCLASS64 \<and> e_data eh = ELFDATA2LSB \<and> e_type eh = ET_EXEC \<and>
     e_machine eh = EM_X86_64 \<and> e_version eh = EV_CURRENT \<and>
     e_phentsize eh = 56 \<and> e_phnum eh \<noteq> 0 \<and>
     e_phoff eh + ucast (e_phnum eh) * ucast (e_phentsize eh) \<le> ucast file_size \<and>
     valid_user_range (e_entry eh) 1"

definition phdr_ok :: "elf64_phdr \<Rightarrow> u32 \<Rightarrow> bool" where
  "phdr_ok ph file_size \<longleftrightarrow> p_filesz ph \<le> p_memsz ph \<and> p_offset ph + p_filesz ph \<le> ucast file_size \<and>
     valid_user_range (p_vaddr ph) (p_memsz ph)"

text \<open>\<open>elf_buffer + offset\<close> is an address in the buffer only if \<open>offset\<close> is small enough.\<close>

definition buf_slice :: "bytes \<Rightarrow> u64 \<Rightarrow> u64 \<Rightarrow> bytes option" where
  "buf_slice b off n =
     (if n = 0 then Some []
      else if unat off + unat n \<le> length b then Some (take (unat n) (drop (unat off) b)) else None)"

definition load_segment :: "nat \<Rightarrow> bytes \<Rightarrow> elf64_phdr \<Rightarrow> kstate \<Rightarrow> (int \<times> kstate) option" where
  "load_segment i b ph k = do {
     (r1, k1) \<leftarrow> map_range i (p_vaddr ph) (p_vaddr ph + p_memsz ph) (p_flags ph) k;
     if r1 \<noteq> 0 then Some (-1, k1)
     else do {
       data \<leftarrow> buf_slice b (p_offset ph) (p_filesz ph);
       let (r2, k2) = process_write_user i (p_vaddr ph) data k1;
       if r2 \<noteq> 0 then Some (-1, k2)
       else
         let (r3, k3) = process_zero_user i (p_vaddr ph + p_filesz ph) (p_memsz ph - p_filesz ph) k2
         in Some (if r3 \<noteq> 0 then -1 else 0, k3) } }"

text \<open>\<open>ph[i]\<close> for \<open>ph = (elf64_phdr_t*)(elf_buffer + eh->phoff)\<close>.\<close>

definition phdr_at :: "bytes \<Rightarrow> u64 \<Rightarrow> nat \<Rightarrow> elf64_phdr option" where
  "phdr_at b phoff j =
     (if unat phoff + 56 * j + 56 \<le> length b then Some (elf_phdr b (unat phoff + 56 * j)) else None)"

primrec load_segments :: "nat \<Rightarrow> bytes \<Rightarrow> u64 \<Rightarrow> u32 \<Rightarrow> nat list \<Rightarrow> kstate \<Rightarrow> (int \<times> kstate) option" where
  "load_segments i b phoff file_size [] k = Some (0, k)"
| "load_segments i b phoff file_size (j # js) k = do {
     ph \<leftarrow> phdr_at b phoff j;
     if p_type ph \<noteq> PT_LOAD then load_segments i b phoff file_size js k
     else if \<not> phdr_ok ph file_size then Some (-1, k)
     else do {
       (r, k1) \<leftarrow> load_segment i b ph k;
       if r \<noteq> 0 then Some (-1, k1) else load_segments i b phoff file_size js k1 } }"

text \<open>\<open>process_terminate(pid); process_wait(pid);\<close> for a process nobody else waits for.\<close>

definition spawn_abort :: "u64 \<Rightarrow> kstate \<Rightarrow> kstate option" where
  "spawn_abort p k = do {
     (r, k1) \<leftarrow> process_wait p (process_terminate p k);
     case r of
       WaitReturned x \<Rightarrow> Some k1
     | WaitBlocked t \<Rightarrow> map_option snd (waitpid_resume t k1) }"

text \<open>\<open>-1\<close>, the pid as an \<open>int\<close>, or \<open>0\<close> after the wait for the slot.\<close>

datatype spawn_outcome = SpawnFailed | SpawnBackground u32 | SpawnForeground nat | SpawnDone

text \<open>The end of both loaders: activate, then detach or take the foreground and wait.\<close>

definition spawn_start :: "nat \<Rightarrow> bool \<Rightarrow> kstate \<Rightarrow> (spawn_outcome \<times> kstate) option" where
  "spawn_start i background k =
     (let p = pid (processes k ! i); k1 = process_activate p k
      in if background then Some (SpawnBackground (ucast p), process_detach p k1)
         else do {
           (r, k2) \<leftarrow> process_wait p (process_set_foreground p k1);
           case r of
             WaitReturned x \<Rightarrow> Some (SpawnDone, process_set_foreground 0 k2)
           | WaitBlocked t \<Rightarrow> Some (SpawnForeground t, k2) })"

definition spawn_finish :: "nat \<Rightarrow> kstate \<Rightarrow> kstate option" where
  "spawn_finish t k = map_option (\<lambda>(r, k1). process_set_foreground 0 k1) (waitpid_resume t k)"

definition api_page :: "u64 list \<Rightarrow> bytes" where
  "api_page ws = fold (\<lambda>(j, w) b. put64 (8 * j) w b) (enumerate 0 ws) (replicate 64 0)"

definition elf_spawn ::
  "(bytes \<times> u32) option \<Rightarrow> string \<Rightarrow> string option \<Rightarrow> bool \<Rightarrow> kstate \<Rightarrow> (spawn_outcome \<times> kstate) option" where
  "elf_spawn file filename cmdline background k =
     (case file of
        None \<Rightarrow> Some (SpawnFailed, k)
      | Some (b, file_size) \<Rightarrow>
          if file_size < 64 \<or> unat file_size > ELF_LOAD_BUFFER_SIZE then Some (SpawnFailed, k)
          else if \<not> elf_header_ok (elf_header b) file_size then Some (SpawnFailed, k)
          else do {
            (pr, k1) \<leftarrow> process_create (take 31 filename) (e_entry (elf_header b)) True k;
            case pr of
              None \<Rightarrow> Some (SpawnFailed, k1)
            | Some i \<Rightarrow> do {
                (r, k2) \<leftarrow> load_segments i b (e_phoff (elf_header b)) file_size
                           [0..<unat (e_phnum (elf_header b))] k1;
                if r \<noteq> 0 then map_option (\<lambda>k3. (SpawnFailed, k3)) (spawn_abort (pid (processes k2 ! i)) k2)
                else do {
                  let k3 = snd (process_write_user i USER_API_BASE (api_page [0x414F4150]) k2);
                  let k4 = snd (process_setup_user_args i (case cmdline of Some c \<Rightarrow> c | None \<Rightarrow> filename) k3);
                  spawn_start i background k4 } } })"

definition elf_execute ::
  "(bytes \<times> u32) option \<Rightarrow> string \<Rightarrow> string option \<Rightarrow> kstate \<Rightarrow> (spawn_outcome \<times> kstate) option" where
  "elf_execute file filename cmdline k = elf_spawn file filename cmdline False k"

section \<open>AOB\<close>

definition AO_API_MAGIC :: u64 where "AO_API_MAGIC = 0x414F4150"
definition AOB_MAGIC :: u32 where "AOB_MAGIC = 0x00424F41"
definition AOB_VERSION :: u16 where "AOB_VERSION = 1"

record aob_header =
  h_magic :: u32
  h_version :: u16
  h_entry_point :: u32
  h_code_size :: u32
  h_name :: bytes

definition aob_header_at :: "bytes \<Rightarrow> aob_header" where
  "aob_header_at b = \<lparr>h_magic = get32 b 0, h_version = get16 b 4, h_entry_point = get32 b 8, h_code_size = get32 b 12,
     h_name = take 32 (drop 24 b)\<rparr>"

record aob_context =
  code_ptr :: "bytes option"
  code_size :: u32
  entry_point :: u32
  aname :: bytes

definition aob_load :: "(bytes \<times> u32) option \<Rightarrow> aob_context \<Rightarrow> int \<times> aob_context" where
  "aob_load file ctx =
     (case file of
        None \<Rightarrow> (-1, ctx)
      | Some (b, file_size) \<Rightarrow>
          (let h = aob_header_at b in
           if file_size < 72 then (-1, ctx)
           else if h_magic h \<noteq> AOB_MAGIC then (-1, ctx)
           else if h_version h \<noteq> AOB_VERSION then (-1, ctx)
           else if h_code_size h = 0 then (-1, ctx)
           else if unat file_size < 72 + unat (h_code_size h) then (-1, ctx)
           else (0, ctx\<lparr>code_ptr := Some (drop 72 b), code_size := h_code_size h, entry_point := h_entry_point h,
                         aname := h_name h\<rparr>)))"

definition aob_pages :: "u32 \<Rightarrow> u32" where
  "aob_pages n = (let pages = (n + 4095) div 4096 in if pages = 0 then 1 else pages)"

definition aob_spawn ::
  "u64 list \<Rightarrow> aob_context \<Rightarrow> string option \<Rightarrow> bool \<Rightarrow> kstate \<Rightarrow> (spawn_outcome \<times> kstate) option" where
  "aob_spawn api ctx cmdline background k =
     (case code_ptr ctx of
        None \<Rightarrow> Some (SpawnFailed, k)
      | Some code \<Rightarrow>
          if entry_point ctx \<ge> code_size ctx then Some (SpawnFailed, k)
          else
            (let nm = (if get8 (aname ctx) 0 \<noteq> 0 then map (\<lambda>x. char_of (unat x)) (aname ctx) else cstr ''aob'') in do {
               (pr, k1) \<leftarrow> process_create (c_content nm) (USER_CODE_BASE + ucast (entry_point ctx)) True k;
               case pr of
                 None \<Rightarrow> Some (SpawnFailed, k1)
               | Some i \<Rightarrow> do {
                   (r, k2) \<leftarrow> map_pages i (map (\<lambda>j. USER_CODE_BASE + of_nat j * 4096) [0..<unat (aob_pages (code_size ctx))])
                              PTE_WRITABLE k1;
                   if r \<noteq> 0 then Some (SpawnFailed, process_terminate (pid (processes k2 ! i)) k2)
                   else do {
                     text \<leftarrow> buf_slice code 0 (ucast (code_size ctx));
                     let (r2, k3) = process_write_user i USER_CODE_BASE text k2;
                     if r2 \<noteq> 0 then Some (SpawnFailed, process_terminate (pid (processes k3 ! i)) k3)
                     else do {
                       let k4 = snd (process_write_user i USER_API_BASE (api_page (AO_API_MAGIC # api)) k3);
                       args \<leftarrow> (case cmdline of Some c \<Rightarrow> Some c
                               | None \<Rightarrow> if NUL \<in> set nm then Some (c_content nm) else None);
                       spawn_start i background (snd (process_setup_user_args i args k4)) } } } }))"

definition aob_execute :: "u64 list \<Rightarrow> aob_context \<Rightarrow> string option \<Rightarrow> kstate \<Rightarrow> (spawn_outcome \<times> kstate) option" where
  "aob_execute api ctx cmdline k = aob_spawn api ctx cmdline False k"

definition aob_unload :: "aob_context \<Rightarrow> aob_context" where
  "aob_unload ctx = ctx\<lparr>code_ptr := None, code_size := 0, entry_point := 0\<rparr>"

section \<open>The pages of a segment\<close>

lemma page_mask: "(4096 :: u64) - 1 = mask 12"
  by (simp add: mask_eq_exp_minus_1)

lemma unat_page_down: "unat (page_down v) = unat v div 4096 * 4096"
  unfolding page_down_def page_mask by (simp add: unat_and_not_mask)

lemma unat_page_up: "unat v + 4095 < 2 ^ 64 \<Longrightarrow> unat (page_up v) = (unat v + 4095) div 4096 * 4096"
  unfolding page_up_def page_mask by (simp add: unat_and_not_mask unat_add_small)

definition pages_from :: "u64 \<Rightarrow> nat \<Rightarrow> u64 list" where
  "pages_from a n = map (\<lambda>j. a + of_nat j * 4096) [0..<n]"

lemma pages_from_Suc: "pages_from a (Suc n) = a # pages_from (a + 4096) n"
  unfolding pages_from_def
  by (simp add: upt_conv_Cons map_Suc_upt [symmetric] algebra_simps del: upt_Suc map_Suc_upt)

lemma map_user_page_status:
  "process_map_user_page i a flags k = Some (r, k') \<Longrightarrow> r = 0 \<or> r = -1"
  by (auto simp: process_map_user_page_def Let_def split: if_splits prod.splits bind_splits)

lemma map_range_loop_pages:
  assumes "unat a + n * 4096 < 2 ^ 64"
  shows "map_range_loop i a (a + of_nat n * 4096) flags k = map_pages i (pages_from a n) flags k"
  using assms
proof (induction n arbitrary: a k)
  case 0
  then show ?case
    by (simp add: map_range_loop.simps pages_from_def)
next
  case (Suc n)
  have u: "unat (a + of_nat (Suc n) * 4096) = unat a + Suc n * 4096"
  proof -
    have e: "a + of_nat (Suc n) * 4096 = of_nat (unat a + Suc n * 4096)"
      by simp
    show ?thesis
      unfolding e by (rule unat_of_nat_small) (use Suc.prems in simp)
  qed
  then have lt: "a < a + of_nat (Suc n) * 4096"
    by (simp add: word_less_nat_alt)
  have "unat (a + 4096) = unat a + 4096"
    using Suc.prems by (simp add: unat_add_small)
  then have IH: "map_range_loop i (a + 4096) (a + 4096 + of_nat n * 4096) flags k' =
      map_pages i (pages_from (a + 4096) n) flags k'" for k'
    using Suc by simp
  have e: "a + of_nat (Suc n) * 4096 = a + 4096 + of_nat n * 4096"
    by (simp add: algebra_simps)
  have step: "map_range_loop i a (a + of_nat (Suc n) * 4096) flags k = do {
      (r, k1) \<leftarrow> process_map_user_page i a flags k;
      if r \<noteq> 0 then Some (-1, k1) else map_pages i (pages_from (a + 4096) n) flags k1 }"
    using lt by (subst map_range_loop.simps) (simp only: e IH if_True)
  show ?case
    unfolding step pages_from_Suc
    by (auto split: bind_splits dest: map_user_page_status)
qed

text \<open>What \<open>valid_user_range\<close> admits, read on natural numbers.\<close>

lemma valid_user_range_nat:
  assumes "valid_user_range v sz" "sz \<noteq> 0"
  shows "0x10000 \<le> unat v" "unat v + unat sz \<le> 0x800000" "unat (v + sz) = unat v + unat sz"
    "unat v + unat sz \<le> 0x90000 \<or> 0x92000 < unat v"
proof -
  have v: "0x10000 \<le> v" "\<not> v + sz < v" "v + sz \<le> 0x800000" "v < 0x800000"
    "\<not> (v \<le> 0x91000 \<and> v + sz > 0x90000)" "\<not> (v \<le> 0x92000 \<and> v + sz > 0x91000)"
    using assms by (auto simp: valid_user_range_def USER_STACK_BASE_def USER_API_BASE_def USER_ARGV_BASE_def
        not_less not_le split: if_splits)
  show 1: "0x10000 \<le> unat v"
    using v(1) by (simp add: word_le_nat_alt)
  show 3: "unat (v + sz) = unat v + unat sz"
    using v(2) by (simp add: not_less) (metis unat_plus_simple)
  show 2: "unat v + unat sz \<le> 0x800000"
    using v(3) 3 by (simp add: word_le_nat_alt)
  show "unat v + unat sz \<le> 0x90000 \<or> 0x92000 < unat v"
    using v(5,6) 3 by (simp add: word_le_nat_alt word_less_nat_alt) linarith
qed

definition seg_pages :: "u64 \<Rightarrow> u64 \<Rightarrow> u64 list" where
  "seg_pages start stop = pages_from (page_down start) ((unat stop + 4095) div 4096 - unat start div 4096)"

lemma unat_pages_from:
  assumes "unat a + n * 4096 < 2 ^ 64" "j \<le> n"
  shows "unat (a + of_nat j * 4096 :: u64) = unat a + j * 4096"
proof -
  have e: "a + of_nat j * 4096 = of_nat (unat a + j * 4096)"
    by simp
  show ?thesis
    unfolding e by (rule unat_of_nat_small) (use assms in simp)
qed

lemma seg_span:
  assumes "unat start \<le> unat stop" "unat stop + 4095 < 2 ^ 64"
  shows "unat (page_down start) + ((unat stop + 4095) div 4096 - unat start div 4096) * 4096 =
    (unat stop + 4095) div 4096 * 4096"
    and "unat (page_down start) + ((unat stop + 4095) div 4096 - unat start div 4096) * 4096 < 2 ^ 64"
proof -
  have "unat start div 4096 \<le> (unat stop + 4095) div 4096"
    using assms(1) by (intro div_le_mono) simp
  then show e: "unat (page_down start) + ((unat stop + 4095) div 4096 - unat start div 4096) * 4096 =
      (unat stop + 4095) div 4096 * 4096"
    by (simp add: unat_page_down flip: distrib_right)
  have "(unat stop + 4095) div 4096 * 4096 \<le> unat stop + 4095"
    by simp
  then show "unat (page_down start) + ((unat stop + 4095) div 4096 - unat start div 4096) * 4096 < 2 ^ 64"
    using e assms(2) by linarith
qed

lemma map_range_pages:
  assumes "unat start \<le> unat stop" "unat stop + 4095 < 2 ^ 64"
  shows "map_range i start stop fl k = map_pages i (seg_pages start stop) (range_flags fl (vm k)) k"
proof -
  define n where "n = (unat stop + 4095) div 4096 - unat start div 4096"
  note sp = seg_span [OF assms, folded n_def]
  have "page_up stop = page_down start + of_nat n * 4096"
    using unat_page_up [OF assms(2)] sp unat_pages_from [OF sp(2), of n] by (simp add: word_unat_eq_iff)
  then show ?thesis
    using map_range_loop_pages [OF sp(2)] by (simp add: map_range_def seg_pages_def n_def)
qed

lemma seg_pages_set:
  assumes "unat start < unat stop" "unat stop + 4095 < 2 ^ 64"
  shows "p \<in> set (seg_pages start stop) \<longleftrightarrow> (\<exists>q. unat p = q * 4096 \<and> unat start div 4096 \<le> q \<and> q * 4096 < unat stop)"
proof -
  define lo where "lo = unat start div 4096"
  define hi where "hi = (unat stop + 4095) div 4096"
  have hi: "q < hi \<longleftrightarrow> q * 4096 < unat stop" for q
    unfolding hi_def by (simp add: less_eq_div_iff_mult_less_eq flip: Suc_le_eq)
  have un: "unat (page_down start + of_nat j * 4096) = (lo + j) * 4096" if "j < hi - lo" for j
    using unat_pages_from [OF seg_span(2) [OF _ assms(2), of start], of j] assms(1) that
    by (simp add: unat_page_down lo_def hi_def)
  have "p \<in> set (seg_pages start stop) \<longleftrightarrow> (\<exists>j<hi - lo. p = page_down start + of_nat j * 4096)"
    by (auto simp: seg_pages_def pages_from_def lo_def hi_def)
  also have "\<dots> \<longleftrightarrow> (\<exists>j<hi - lo. unat p = (lo + j) * 4096)"
    using un by (metis word_unat_eq_iff)
  also have "\<dots> \<longleftrightarrow> (\<exists>q. unat p = q * 4096 \<and> lo \<le> q \<and> q < hi)"
  proof
    assume "\<exists>q. unat p = q * 4096 \<and> lo \<le> q \<and> q < hi"
    then obtain q where "unat p = q * 4096" "lo \<le> q" "q < hi"
      by blast
    then show "\<exists>j<hi - lo. unat p = (lo + j) * 4096"
      by (intro exI [of _ "q - lo"]) auto
  next
    assume "\<exists>j<hi - lo. unat p = (lo + j) * 4096"
    then show "\<exists>q. unat p = q * 4096 \<and> lo \<le> q \<and> q < hi"
      by (metis le_add1 less_diff_conv add.commute)
  qed
  finally show ?thesis
    unfolding hi lo_def .
qed

text \<open>A segment the range check admits covers its bytes with pages of the user area only.\<close>

lemma valid_segment_pages:
  assumes v: "valid_user_range v sz" and sz: "sz \<noteq> 0"
  shows "map_range i v (v + sz) fl k = map_pages i (seg_pages v (v + sz)) (range_flags fl (vm k)) k"
    and "v \<le> a \<Longrightarrow> a < v + sz \<Longrightarrow> page_down a \<in> set (seg_pages v (v + sz))"
    and "p \<in> set (seg_pages v (v + sz)) \<Longrightarrow> 0x10000 \<le> unat p \<and> unat p + 4096 \<le> 0x800000 \<and>
      p \<noteq> USER_API_BASE \<and> p \<noteq> USER_ARGV_BASE"
proof -
  note n = valid_user_range_nat [OF v sz]
  have pos: "0 < unat sz"
    using sz by (simp add: unat_gt_0)
  have lt: "unat v < unat (v + sz)" and top: "unat (v + sz) + 4095 < 2 ^ 64"
    using n pos by auto
  show "map_range i v (v + sz) fl k = map_pages i (seg_pages v (v + sz)) (range_flags fl (vm k)) k"
    using lt top by (simp add: map_range_pages)
  show "page_down a \<in> set (seg_pages v (v + sz))" if "v \<le> a" "a < v + sz"
  proof -
    have "unat v \<le> unat a" "unat a < unat (v + sz)"
      using that by (auto simp: word_le_nat_alt word_less_nat_alt)
    then have "unat v div 4096 \<le> unat a div 4096" "unat a div 4096 * 4096 < unat (v + sz)"
      by (auto intro: div_le_mono le_less_trans [OF div_times_less_eq_dividend])
    then show ?thesis
      unfolding seg_pages_set [OF lt top] unat_page_down by blast
  qed
  show "0x10000 \<le> unat p \<and> unat p + 4096 \<le> 0x800000 \<and> p \<noteq> USER_API_BASE \<and> p \<noteq> USER_ARGV_BASE"
    if m: "p \<in> set (seg_pages v (v + sz))"
  proof -
    obtain q where q: "unat p = q * 4096" "unat v div 4096 \<le> q" "q * 4096 < unat v + unat sz"
      using m n(3) unfolding seg_pages_set [OF lt top] by auto
    have "16 \<le> q" "q < 2048" "q < 144 \<or> 146 \<le> q"
      using q n by auto
    then show ?thesis
      using q(1) by (auto simp: USER_API_BASE_def USER_ARGV_BASE_def)
  qed
qed

section \<open>The loaders as kernel steps\<close>

text \<open>
  Loading touches one slot only and, done by the kernel's own process, is a sequence of kernel steps.
\<close>

definition loads :: "nat \<Rightarrow> kstate \<Rightarrow> kstate \<Rightarrow> bool" where
  "loads i k k' \<longleftrightarrow> only i k k' \<and> (runs k 0 \<longrightarrow> kstep\<^sup>*\<^sup>* k k')"

lemma inv_ksteps: "kstep\<^sup>*\<^sup>* k k' \<Longrightarrow> sched_inv k \<Longrightarrow> sched_inv k'"
  by (induction rule: rtranclp_induct) (auto intro: inv_kstep)

lemma kreach_ksteps: "kstep\<^sup>*\<^sup>* k k' \<Longrightarrow> kreach k0 k \<Longrightarrow> kreach k0 k'"
  by (induction rule: rtranclp_induct) (auto intro: kreach.step)

lemma runs_only: "only i k k' \<Longrightarrow> runs k 0 \<Longrightarrow> runs k' 0"
  using only_view [of i k k' 0] by (simp add: runs_def only_def sched_view_def proc_view_def)

lemma loads_refl [simp]: "loads i k k"
  by (auto simp: loads_def)

lemma loads_trans: "loads i k k' \<Longrightarrow> loads i k' k'' \<Longrightarrow> loads i k k''"
  unfolding loads_def by (meson only_trans runs_only rtranclp_trans)

lemma loads_map_page: "process_map_user_page i a fl k = Some (r, k') \<Longrightarrow> loads i k k'"
  by (auto simp: loads_def intro: only_map_user_page kstep.load_map)

lemma loads_write: "process_write_user i a d k = (r, k') \<Longrightarrow> loads i k k'"
  by (auto simp: loads_def intro: only_write_user kstep.load_write)

lemma loads_zero: "process_zero_user i a n k = (r, k') \<Longrightarrow> loads i k k'"
  by (auto simp: loads_def intro: only_zero_user kstep.load_zero)

lemma loads_args: "process_setup_user_args i c k = (r, k') \<Longrightarrow> loads i k k'"
  by (auto simp: loads_def intro: only_setup_args kstep.load_args)

lemma loads_map_pages: "map_pages i as fl k = Some (r, k') \<Longrightarrow> loads i k k'"
proof (induction as arbitrary: k)
  case (Cons a as)
  then obtain r1 k1 where m: "process_map_user_page i a fl k = Some (r1, k1)"
    by (auto split: bind_splits)
  show ?case
    using Cons.prems m Cons.IH [of k1] loads_map_page [OF m] loads_trans [of i k k1 k']
    by (auto split: if_splits)
qed simp

lemma loads_map_range_loop:
  assumes "map_range_loop i a e fl k = Some y"
  shows "loads i k (snd y)"
  using assms
proof (rule map_range_loop.raw_induct [where P = "\<lambda>i a e fl k y. loads i k (snd y)", rotated])
  fix f :: "nat \<Rightarrow> u64 \<Rightarrow> u64 \<Rightarrow> u64 \<Rightarrow> kstate \<Rightarrow> (int \<times> kstate) option" and i a e fl k y
  assume IH: "\<And>i a e fl k y. f i a e fl k = Some y \<Longrightarrow> loads i k (snd y)"
    and b: "(if a < e then do { (r, k1) \<leftarrow> process_map_user_page i a fl k;
               if r \<noteq> 0 then Some (-1, k1) else f i (a + 4096) e fl k1 } else Some (0, k)) = Some y"
  show "loads i k (snd y)"
  proof (cases "a < e")
    case True
    then obtain x k1 where m: "process_map_user_page i a fl k = Some (x, k1)"
      using b by (auto split: bind_splits)
    show ?thesis
      using b True m IH [of i "a + 4096" e fl k1 y] loads_map_page [OF m] loads_trans [of i k k1 "snd y"]
      by (auto split: if_splits)
  qed (use b in auto)
qed

lemma loads_segment:
  assumes l: "load_segment i b ph k = Some (x, k')"
  shows "loads i k k'"
proof -
  obtain r1 k1 where m: "map_range i (p_vaddr ph) (p_vaddr ph + p_memsz ph) (p_flags ph) k = Some (r1, k1)"
    using l by (auto simp: load_segment_def split: bind_splits)
  have s1: "loads i k k1"
    using loads_map_range_loop [OF m [unfolded map_range_def]] by simp
  show ?thesis
  proof (cases "r1 = 0")
    case True
    then obtain data where d: "buf_slice b (p_offset ph) (p_filesz ph) = Some data"
      using l m by (auto simp: load_segment_def split: bind_splits)
    obtain r2 k2 where w: "process_write_user i (p_vaddr ph) data k1 = (r2, k2)"
      by fastforce
    obtain r3 k3 where z: "process_zero_user i (p_vaddr ph + p_filesz ph) (p_memsz ph - p_filesz ph) k2 = (r3, k3)"
      by fastforce
    have "loads i k k2" "loads i k k3"
      using loads_trans [OF s1 loads_write [OF w]] loads_trans [OF _ loads_zero [OF z], of k] by auto
    moreover have "k' = k2 \<or> k' = k3"
      using l m True d w z by (auto simp: load_segment_def split: if_splits)
    ultimately show ?thesis
      by auto
  qed (use l m s1 in \<open>auto simp: load_segment_def\<close>)
qed

lemma loads_segments: "load_segments i b phoff fs js k = Some (x, k') \<Longrightarrow> loads i k k'"
proof (induction js arbitrary: k)
  case (Cons j js)
  then obtain ph where ph: "phdr_at b phoff j = Some ph"
    by (auto split: bind_splits)
  show ?case
  proof (cases "p_type ph = PT_LOAD \<and> phdr_ok ph fs")
    case True
    then obtain r1 k1 where l: "load_segment i b ph k = Some (r1, k1)"
      using Cons.prems ph by (auto split: bind_splits)
    show ?thesis
      using Cons.prems ph True l Cons.IH [of k1] loads_segment [OF l] loads_trans [of i k k1 k']
      by (auto split: if_splits)
  qed (use Cons ph in \<open>auto split: if_splits\<close>)
qed simp

text \<open>The end of a spawn, from a state in which the kernel's process is running.\<close>

lemma only_runs_state:
  assumes "only i k k'"
  shows "pid (processes k' ! j) = pid (processes k ! j)" "pstate (processes k' ! j) = pstate (processes k ! j)"
    "used k' j = used k j" "exit_code (processes k' ! j) = exit_code (processes k ! j)"
    "detached (processes k' ! j) = detached (processes k ! j)"
  using only_view [OF assms, of j] by (auto simp: proc_view_def used_def)

lemma process_get_pid:
  assumes inv: "sched_inv k" and i: "i < 16" "used k i"
  shows "process_get (pid (processes k ! i)) k = Some i"
proof -
  have len: "length (processes k) = 16"
    using inv by (rule sched_invE)
  have "j = i" if "j < 16" "used k j" "pid (processes k ! j) = pid (processes k ! i)" for j
    using inv i that by (simp add: sched_inv_def MAX_PROCESSES_def)
  then show ?thesis
    using i len by (auto simp: process_get_def find_idx_Some_iff used_def) (metis less_irrefl less_trans)
qed

lemma reap_other: "j \<noteq> i \<Longrightarrow> used (reap i k) j = used k j"
  using only_other [OF only_cleanup, of j i k] by (simp add: reap_def used_def upd_proc_def)

lemma spawn_abort_result:
  assumes inv: "sched_inv k" and r: "runs k 0" and i: "i < 16" "i \<noteq> 0" "used k i"
  obtains k' where "spawn_abort (pid (processes k ! i)) k = Some k'" "kstep\<^sup>*\<^sup>* k k'" "\<not> used k' i"
    "\<And>j. j < 16 \<Longrightarrow> j \<noteq> i \<Longrightarrow> used k' j = used k j"
proof -
  define p where "p = pid (processes k ! i)"
  define k1 where "k1 = process_terminate p k"
  define k2 where "k2 = upd_proc 0 (\<lambda>q. q\<lparr>wait_target := p, pstate := PROC_BLOCKED\<rparr>) k1"
  define k3 where "k3 = upd_proc 0 (\<lambda>q. q\<lparr>pstate := PROC_RUNNING, wait_target := 0\<rparr>) k2"
  have len: "length (processes k) = 16"
    using inv by (rule sched_invE)
  have p: "p \<noteq> 0"
    using sched_inv_slot(3) [OF inv i(1,3)] i(2) by (simp add: p_def)
  have cur: "current_process k = Some 0"
    using r by (simp add: runs_def)
  have k1: "k1 = (upd_proc i (\<lambda>q. q\<lparr>pstate := PROC_TERMINATED\<rparr>) k)
      \<lparr>processes := map (\<lambda>q. if pstate q = PROC_BLOCKED then q\<lparr>pstate := PROC_READY\<rparr> else q)
        ((processes k)[i := (processes k ! i)\<lparr>pstate := PROC_TERMINATED\<rparr>])\<rparr>"
    using process_get_pid [OF inv i(1,3)] p by (simp add: k1_def process_terminate_def p_def Let_def upd_proc_def)
  have s1: "pstate (processes k1 ! i) = PROC_TERMINATED" "pid (processes k1 ! i) = p"
      "current_process k1 = Some 0" "length (processes k1) = 16" "processes k1 ! 0 = processes k ! 0"
    using i len cur r by (auto simp: k1 p_def upd_proc_def runs_def)
  have u1: "used k1 j = used k j" if "j < 16" for j
    using len i that by (cases "j = i") (auto simp: k1 used_def upd_proc_def)
  have inv1: "sched_inv k1"
    unfolding k1_def using inv r by (rule inv_terminate)
  have r1: "runs k1 0"
    using s1 r by (simp add: runs_def)
  have w: "process_wait p k1 = Some (WaitBlocked i, k2)"
    using process_get_pid [OF inv1, of i] i u1 [of i] s1 p
    by (simp add: process_wait_def process_waitpid_def k2_def)
  have s2: "processes k2 ! i = processes k1 ! i" "current_process k2 = Some 0" "length (processes k2) = 16"
      "pstate (processes k2 ! 0) = PROC_BLOCKED"
    using i s1 by (simp_all add: k2_def upd_proc_def)
  have c: "waitpid_resume i k2 = Some (exit_code (processes k3 ! i), reap i k3)"
    using s1 s2 i by (simp add: waitpid_resume_def waitpid_collect_def k3_def upd_proc_def)
  have s3: "length (processes k3) = 16" "pid (processes k3 ! i) = p"
    using s1 s2 i by (simp_all add: k3_def upd_proc_def)
  have u3: "used k3 j = used k j" if "j < 16" for j
    using u1 [OF that] s1 s2(3) sched_inv_zero(1) [OF inv1]
    by (cases "j = 0") (auto simp: k3_def k2_def upd_proc_def used_def)
  have st: "kstep k k1" "kstep k1 k2" "kstep k2 (reap i k3)"
    using kstep.terminate [OF r, of p] kstep.wait [OF r1 w [unfolded process_wait_def]]
      kstep.resume [OF s2(2) _ _ _ c] s2(4) i by (simp_all add: MAX_PROCESSES_def k1_def)
  show ?thesis
  proof (rule that)
    show "spawn_abort (pid (processes k ! i)) k = Some (reap i k3)"
      unfolding spawn_abort_def p_def [symmetric] k1_def [symmetric] w by (simp add: c)
    show "kstep\<^sup>*\<^sup>* k (reap i k3)"
      using st by (meson converse_rtranclp_into_rtranclp r_into_rtranclp)
    show "\<not> used (reap i k3) i"
      using reap_result(1) [of i k3] s3 i p by simp
    show "used (reap i k3) j = used k j" if "j < 16" "j \<noteq> i" for j
      using reap_other [OF that(2)] u3 [OF that(1)] by simp
  qed
qed

lemma runs_other:
  "current_process k' = current_process k \<Longrightarrow> processes k' ! 0 = processes k ! 0 \<Longrightarrow> runs k 0 \<Longrightarrow> runs k' 0"
  by (simp add: runs_def)

lemma spawn_start_result:
  assumes inv: "sched_inv k" and r: "runs k 0" and i: "i < 16" "i \<noteq> 0" "used k i"
    and s: "spawn_start i bg k = Some (out, k')"
  shows "kstep\<^sup>*\<^sup>* k k'" "out \<noteq> SpawnFailed"
proof -
  define p where "p = pid (processes k ! i)"
  define k1 where "k1 = process_activate p k"
  have g: "process_get p k = Some i"
    unfolding p_def using inv i(1,3) by (rule process_get_pid)
  have len: "length (processes k) = 16"
    using inv by (rule sched_invE)
  have k1: "current_process k1 = current_process k" "processes k1 ! 0 = processes k ! 0"
    using i len by (simp_all add: k1_def process_activate_def g upd_proc_def)
  have r1: "runs k1 0"
    using k1 r by (rule runs_other)
  have s1: "kstep k k1"
    unfolding k1_def using r by (rule kstep.activate)
  have "kstep\<^sup>*\<^sup>* k k' \<and> out \<noteq> SpawnFailed"
  proof (cases bg)
    case True
    then have "k' = process_detach p k1" "out \<noteq> SpawnFailed"
      using s by (auto simp: spawn_start_def p_def k1_def Let_def)
    then show ?thesis
      using s1 kstep.detach [OF r1, of p] by (auto intro: rtranclp.rtrancl_into_rtrancl)
  next
    case False
    define k2 where "k2 = process_set_foreground p k1"
    have r2: "runs k2 0"
      using r1 by (simp add: runs_def k2_def process_set_foreground_def)
    have s2: "kstep k1 k2"
      unfolding k2_def using r1 by (rule kstep.foreground)
    have eq: "do { (r, k3) \<leftarrow> process_wait p k2; case r of
          WaitReturned x \<Rightarrow> Some (SpawnDone, process_set_foreground 0 k3)
        | WaitBlocked t \<Rightarrow> Some (SpawnForeground t, k3) } = Some (out, k')"
      using s False unfolding spawn_start_def Let_def p_def [symmetric] k1_def [symmetric] k2_def [symmetric] by simp
    then obtain w k3 where w: "process_wait p k2 = Some (w, k3)"
      by (auto split: bind_splits)
    have s3: "kstep k2 k3"
      using kstep.wait [OF r2 w [unfolded process_wait_def]] .
    then have k3: "kstep\<^sup>*\<^sup>* k k3"
      using s1 s2 by (meson converse_rtranclp_into_rtranclp r_into_rtranclp)
    show ?thesis
    proof (cases w)
      case (WaitReturned x)
      then have "k3 = k2" "out = SpawnDone" "k' = process_set_foreground 0 k3"
        using eq w by (auto simp: process_wait_def process_waitpid_def split: option.splits if_splits)
      then show ?thesis
        using k3 kstep.foreground [OF r2, of 0] by (auto intro: rtranclp.rtrancl_into_rtrancl)
    next
      case (WaitBlocked t)
      then have "out = SpawnForeground t" "k' = k3"
        using eq w by auto
      then show ?thesis
        using k3 by simp
    qed
  qed
  then show "kstep\<^sup>*\<^sup>* k k'" "out \<noteq> SpawnFailed"
    by auto
qed

text \<open>What a spawn starts from, after the process has been created in slot \<open>i\<close>.\<close>

lemma create_then_load:
  assumes inv: "sched_inv k" and r: "runs k 0" and np: "next_pid k + 1 \<noteq> 0"
    and c: "process_create nm e True k = Some (pr, k1)"
  shows "kstep k k1"
    and "pr = None \<Longrightarrow> j < 16 \<Longrightarrow> used k1 j = used k j"
    and "pr = Some i \<Longrightarrow> loads i k1 k2 \<Longrightarrow> i < 16 \<and> i \<noteq> 0 \<and> used k2 i \<and> \<not> used k i \<and> sched_inv k2 \<and> runs k2 0 \<and>
      kstep\<^sup>*\<^sup>* k k2 \<and> (\<forall>j. j \<noteq> i \<longrightarrow> used k2 j = used k j)"
proof -
  show st: "kstep k k1"
    using r np c by (rule kstep.create)
  have len: "length (processes k) = 16"
    using inv by (rule sched_invE)
  have inv1: "sched_inv k1"
    using st inv by (rule inv_kstep)
  from c len show "used k1 j = used k j" if "pr = None" "j < 16" for j
  proof (cases rule: process_create_cases)
    case (slot s)
    then show ?thesis
      using that by (cases "j = s") (auto simp: claimed_def used_def)
  qed simp
  from c len show "i < 16 \<and> i \<noteq> 0 \<and> used k2 i \<and> \<not> used k i \<and> sched_inv k2 \<and> runs k2 0 \<and>
      kstep\<^sup>*\<^sup>* k k2 \<and> (\<forall>j. j \<noteq> i \<longrightarrow> used k2 j = used k j)" if pr: "pr = Some i" and l: "loads i k1 k2"
  proof (cases rule: process_create_cases)
    case (slot s)
    then have s: "s = i" "used k1 i" "\<And>j. j \<noteq> i \<Longrightarrow> processes k1 ! j = processes k ! j"
        "current_process k1 = current_process k"
      using pr by (auto simp: claimed_def used_def split: if_splits)
    have r1: "runs k1 0"
      using s slot(1) r by (intro runs_other [of k1 k]) auto
    have o: "only i k1 k2"
      using l by (simp add: loads_def)
    have "kstep\<^sup>*\<^sup>* k k2"
      using st l r1 by (auto simp: loads_def intro: converse_rtranclp_into_rtranclp)
    moreover have "sched_inv k2" "runs k2 0"
      using sched_inv_only [OF inv1 o] runs_only [OF o r1] by auto
    moreover have "used k2 j = used k j" if "j \<noteq> i" for j
      using only_runs_state(3) [OF o] s(3) [OF that] by (simp add: used_def)
    ultimately show ?thesis
      using slot(1-3) s(1,2) only_runs_state(3) [OF o] by simp
  qed (use pr in simp)
qed

lemma elf_spawn_result:
  assumes inv: "sched_inv k" and r: "runs k 0" and np: "next_pid k + 1 \<noteq> 0"
    and e: "elf_spawn file fname cmd bg k = Some (out, k')"
  shows "kstep\<^sup>*\<^sup>* k k' \<and> (out = SpawnFailed \<longrightarrow> (\<forall>j<16. used k' j = used k j))"
proof (cases "\<exists>b fs. file = Some (b, fs) \<and> \<not> (fs < 64 \<or> unat fs > ELF_LOAD_BUFFER_SIZE) \<and> elf_header_ok (elf_header b) fs")
  case True
  then obtain b fs where f: "file = Some (b, fs)" "\<not> (fs < 64 \<or> unat fs > ELF_LOAD_BUFFER_SIZE)"
      "elf_header_ok (elf_header b) fs"
    by blast
  obtain pr k1 where c: "process_create (take 31 fname) (e_entry (elf_header b)) True k = Some (pr, k1)"
    using e f by (auto simp: elf_spawn_def split: bind_splits)
  note cl = create_then_load [OF inv r np c]
  show ?thesis
  proof (cases pr)
    case None
    then show ?thesis
      using e f c cl(1,2) by (auto simp: elf_spawn_def)
  next
    case (Some i)
    obtain x k2 where l: "load_segments i b (e_phoff (elf_header b)) fs [0..<unat (e_phnum (elf_header b))] k1 = Some (x, k2)"
      using e f c Some by (auto simp: elf_spawn_def split: bind_splits)
    note l2 = loads_segments [OF l]
    note k2 = cl(3) [OF Some l2]
    show ?thesis
    proof (cases "x = 0")
      case False
      obtain k3 where k3: "spawn_abort (pid (processes k2 ! i)) k2 = Some k3" "kstep\<^sup>*\<^sup>* k2 k3" "\<not> used k3 i"
          "\<And>j. j < 16 \<Longrightarrow> j \<noteq> i \<Longrightarrow> used k3 j = used k2 j"
        using k2 by (metis spawn_abort_result)
      have "k' = k3"
        using e f c Some l False k3(1) by (simp add: elf_spawn_def)
      moreover have "used k3 j = used k j" if "j < 16" for j
        using k3(3,4) k2 that by (cases "j = i") auto
      ultimately show ?thesis
        using k2 k3(2) by (auto intro: rtranclp_trans)
    next
      case True
      obtain r3 k3 where w: "process_write_user i USER_API_BASE (api_page [0x414F4150]) k2 = (r3, k3)"
        by fastforce
      obtain r4 k4 where a: "process_setup_user_args i (case cmd of Some c \<Rightarrow> c | None \<Rightarrow> fname) k3 = (r4, k4)"
        by fastforce
      have "loads i k1 k4"
        using loads_trans [OF loads_trans [OF l2 loads_write [OF w]] loads_args [OF a]] .
      note k4 = cl(3) [OF Some this]
      have "spawn_start i bg k4 = Some (out, k')"
        using e f c Some l True w a by (simp add: elf_spawn_def)
      then show ?thesis
        using spawn_start_result [of k4 i bg out k'] k4 by (auto intro: rtranclp_trans)
    qed
  qed
qed (use e in \<open>auto simp: elf_spawn_def split: option.splits prod.splits if_splits\<close>)

section \<open>The ELF loader returns\<close>

lemma map_page_returns:
  assumes "unat a + 8192 \<le> 2 ^ 64"
  shows "process_map_user_page i a fl k \<noteq> None"
proof -
  have m: "PAGE_SIZE - 1 = 0xFFF"
    by (simp add: PAGE_SIZE_def)
  have al: "unat (a AND NOT (PAGE_SIZE - 1)) \<le> unat a"
    unfolding m unat_page_align by simp
  then have e: "unat ((a AND NOT (PAGE_SIZE - 1)) + 1) = unat (a AND NOT (PAGE_SIZE - 1)) + 1"
    using assms by (simp add: unat_add_small)
  have "user_range_loop c ((a AND NOT (PAGE_SIZE - 1)) AND NOT (PAGE_SIZE - 1)) ((a AND NOT (PAGE_SIZE - 1)) + 1) s \<noteq> None" for c s
    by (rule user_range_loop_returns) (use assms al e in simp)
  then have "vmm_user_range_ok c (a AND NOT (PAGE_SIZE - 1)) 1 s \<noteq> None" for c s
    by (auto simp: vmm_user_range_ok_def)
  then obtain m where "vmm_user_range_ok (pcr3 (processes k ! i)) (a AND NOT (PAGE_SIZE - 1)) 1 (vm k) = Some m"
    by blast
  then show ?thesis
    by (simp add: process_map_user_page_def Let_def split: prod.splits)
qed

lemma map_pages_returns:
  "(\<And>a. a \<in> set as \<Longrightarrow> unat a + 8192 \<le> 2 ^ 64) \<Longrightarrow> map_pages i as fl k \<noteq> None"
proof (induction as arbitrary: k)
  case (Cons a as)
  have "process_map_user_page i a fl k \<noteq> None"
    using Cons.prems by (intro map_page_returns) simp
  then show ?case
    using Cons by (auto split: bind_splits)
qed simp

lemma map_range_returns:
  assumes "valid_user_range v sz"
  shows "map_range i v (v + sz) fl k \<noteq> None"
proof (cases "sz = 0")
  case False
  have "unat a + 8192 \<le> 2 ^ 64" if "a \<in> set (seg_pages v (v + sz))" for a
    using valid_segment_pages(3) [OF assms False that] by simp
  then show ?thesis
    unfolding valid_segment_pages(1) [OF assms False] by (rule map_pages_returns)
next
  case True
  show ?thesis
  proof (cases "unat v + 4095 < 2 ^ 64")
    case small: True
    have "unat a + 8192 \<le> 2 ^ 64" if m: "a \<in> set (seg_pages v v)" for a
    proof -
      obtain j where j: "j < (unat v + 4095) div 4096 - unat v div 4096" "a = page_down v + of_nat j * 4096"
        using m by (auto simp: seg_pages_def pages_from_def)
      have "unat a = unat (page_down v) + j * 4096"
        unfolding j(2) by (rule unat_pages_from [OF seg_span(2) [OF order_refl small]]) (use j(1) in simp)
      moreover have "(unat v + 4095) div 4096 - unat v div 4096 \<le> 1"
        by linarith
      ultimately have "unat a = unat v div 4096 * 4096" "(unat v + 4095) div 4096 \<noteq> unat v div 4096"
        using j(1) by (auto simp: unat_page_down)
      then show ?thesis
        using small by simp
    qed
    then show ?thesis
      unfolding True add_0_right map_range_pages [OF order_refl small] by (rule map_pages_returns)
  next
    case False
    have m: "unat (v + 4095) = (unat v + 4095) mod 2 ^ 64"
      by (simp add: unat_word_ariths)
    have "unat v < 2 ^ 64"
      using unsigned_less [of v, where ?'a = nat] by simp
    then have "(unat v + 4095) mod 2 ^ 64 < 4096"
      using False by (simp add: le_mod_geq)
    then have "page_up v = 0"
      unfolding page_up_def page_mask word_unat_eq_iff unat_and_not_mask m by simp
    then have "map_range_loop i (page_down v) (page_up v) f k = Some (0, k)" for f
      by (subst map_range_loop.simps) simp
    then show ?thesis
      unfolding True add_0_right map_range_def by simp
  qed
qed

text \<open>The two sums of the header checks that are done in 64 bits must not wrap.\<close>

definition elf_nowrap :: "bytes \<Rightarrow> bool" where
  "elf_nowrap b \<longleftrightarrow>
     unat (e_phoff (elf_header b)) + 56 * unat (e_phnum (elf_header b)) < 2 ^ 64 \<and>
     (\<forall>j < unat (e_phnum (elf_header b)). case phdr_at b (e_phoff (elf_header b)) j of
        None \<Rightarrow> True
      | Some ph \<Rightarrow> unat (p_offset ph) + unat (p_filesz ph) < 2 ^ 64)"

lemma load_segment_returns:
  assumes "phdr_ok ph fs" "unat (p_offset ph) + unat (p_filesz ph) < 2 ^ 64" "unat fs \<le> length b"
  shows "load_segment i b ph k \<noteq> None"
proof -
  have "unat (p_offset ph + p_filesz ph) \<le> unat (ucast fs :: u64)"
    using assms(1) by (simp add: phdr_ok_def word_le_nat_alt)
  also have "\<dots> \<le> unat fs"
    by (simp add: unsigned_ucast_eq take_bit_nat_less_eq_self)
  finally have "unat (p_offset ph) + unat (p_filesz ph) \<le> length b"
    using assms(2,3) by (simp add: unat_add_small)
  then have "buf_slice b (p_offset ph) (p_filesz ph) \<noteq> None"
    by (simp add: buf_slice_def)
  moreover have "map_range i (p_vaddr ph) (p_vaddr ph + p_memsz ph) (p_flags ph) k \<noteq> None"
    using assms(1) by (intro map_range_returns) (simp add: phdr_ok_def)
  ultimately show ?thesis
    by (auto simp: load_segment_def split: bind_splits prod.splits)
qed

lemma load_segments_returns:
  assumes "\<And>j. j \<in> set js \<Longrightarrow> \<exists>ph. phdr_at b phoff j = Some ph \<and> unat (p_offset ph) + unat (p_filesz ph) < 2 ^ 64"
    and "unat fs \<le> length b"
  shows "load_segments i b phoff fs js k \<noteq> None"
  using assms(1)
proof (induction js arbitrary: k)
  case (Cons j js)
  then obtain ph where ph: "phdr_at b phoff j = Some ph" "unat (p_offset ph) + unat (p_filesz ph) < 2 ^ 64"
    by force
  have rec: "load_segments i b phoff fs js k' \<noteq> None" for k'
    using Cons by simp
  then show ?case
    using load_segment_returns [OF _ ph(2) assms(2), of i k] ph(1) by (auto split: bind_splits)
qed simp

lemma phdr_in_bounds:
  assumes ok: "elf_header_ok (elf_header b) fs" and nw: "elf_nowrap b" and l: "unat fs \<le> length b"
    and j: "j < unat (e_phnum (elf_header b))"
  shows "\<exists>ph. phdr_at b (e_phoff (elf_header b)) j = Some ph \<and> unat (p_offset ph) + unat (p_filesz ph) < 2 ^ 64"
proof -
  define eh where "eh = elf_header b"
  have n: "unat (ucast (e_phnum eh) :: u64) = unat (e_phnum eh)"
    by (simp add: unsigned_ucast_eq take_bit_nat_eq_self_iff order_less_trans [OF unsigned_less])
  have "unat (ucast (e_phnum eh) * ucast (e_phentsize eh) :: u64) = 56 * unat (e_phnum eh)"
    using ok nw n by (simp add: elf_header_ok_def elf_nowrap_def eh_def unat_word_ariths)
  then have "unat (e_phoff eh + ucast (e_phnum eh) * ucast (e_phentsize eh)) = unat (e_phoff eh) + 56 * unat (e_phnum eh)"
    using nw by (simp add: elf_nowrap_def eh_def unat_add_small)
  moreover have "unat (e_phoff eh + ucast (e_phnum eh) * ucast (e_phentsize eh)) \<le> unat (ucast fs :: u64)"
    using ok unfolding elf_header_ok_def eh_def word_le_nat_alt by blast
  moreover have "unat (ucast fs :: u64) \<le> unat fs"
    by (simp add: unsigned_ucast_eq take_bit_nat_less_eq_self)
  ultimately have "unat (e_phoff eh) + 56 * j + 56 \<le> length b"
    using l j by (simp add: eh_def)
  then show ?thesis
    using nw j by (auto simp: phdr_at_def elf_nowrap_def eh_def)
qed

lemma process_create_returns:
  assumes inv: "sched_inv k" and nm: "NUL \<notin> set nm"
  shows "process_create nm e True k \<noteq> None"
proof (cases "find_idx (\<lambda>q. pstate q = PROC_UNUSED) (drop 1 (processes k))")
  case (Some j)
  have len: "length (processes k) = 16"
    using inv by (rule sched_invE)
  then have "j + 1 < 16"
    using find_idx_SomeD [OF Some] by simp
  then have "length (pname (processes k ! (j + 1))) = 32"
    using sched_inv_slot(1) [OF inv] by blast
  then have "strncpy (pname (processes k ! (j + 1))) (cstr nm) 31 \<noteq> None"
    using nm strncpy_short [of nm 31 _ "[]"] strncpy_long [of nm 31 _ "[]"] by (cases "length nm < 31") auto
  then obtain k1 where k1: "create_claim (j + 1) nm True k = Some k1"
    by (cases "vmm_create_address_space (vm k)") (auto simp: create_claim_def)
  have pg: "map (\<lambda>i. USER_STACK_BASE + of_nat i * PAGE_SIZE) [0..<PROCESS_USER_STACK_PAGES] @ [USER_API_BASE, USER_ARGV_BASE]
      = [0x800000, 0x801000, 0x802000, 0x803000, 0x90000, 0x91000]"
    by (simp add: USER_STACK_BASE_def USER_API_BASE_def USER_ARGV_BASE_def PAGE_SIZE_def PROCESS_USER_STACK_PAGES_def
        upt_rec)
  have "create_pages (j + 1) k2 \<noteq> None" for k2
    unfolding create_pages_def pg by (rule map_pages_returns) auto
  then obtain r k3 where p: "create_pages (j + 1) (create_context (j + 1) e True k1) = Some (r, k3)"
    by fastforce
  show ?thesis
    unfolding process_create_def Some option.case k1 bind.bind_lunit Let_def if_True p by simp
qed (simp add: process_create_def)

lemma spawn_start_returns:
  assumes "runs k 0"
  shows "spawn_start i bg k \<noteq> None"
  using assms
  by (auto simp: spawn_start_def Let_def process_wait_def process_waitpid_def process_set_foreground_def
      process_activate_def runs_def split: bind_splits option.splits if_splits prod.splits wait_outcome.splits)

lemma elf_spawn_returns:
  assumes inv: "sched_inv k" and r: "runs k 0" and np: "next_pid k + 1 \<noteq> 0" and nm: "NUL \<notin> set fname"
    and b: "unat fs \<le> length b" "elf_nowrap b"
  shows "elf_spawn (Some (b, fs)) fname cmd bg k \<noteq> None"
proof (cases "\<not> (fs < 64 \<or> unat fs > ELF_LOAD_BUFFER_SIZE) \<and> elf_header_ok (elf_header b) fs")
  case True
  have "NUL \<notin> set (take 31 fname)"
    using nm by (auto dest: in_set_takeD)
  then obtain pr k1 where c: "process_create (take 31 fname) (e_entry (elf_header b)) True k = Some (pr, k1)"
    using process_create_returns [OF inv] by fastforce
  note cl = create_then_load [OF inv r np c]
  show ?thesis
  proof (cases pr)
    case (Some i)
    obtain x k2 where l: "load_segments i b (e_phoff (elf_header b)) fs [0..<unat (e_phnum (elf_header b))] k1 = Some (x, k2)"
      using load_segments_returns [of "[0..<unat (e_phnum (elf_header b))]" b "e_phoff (elf_header b)" fs i k1]
        phdr_in_bounds [OF _ b(2,1)] True b(1) by fastforce
    note l2 = loads_segments [OF l]
    note k2 = cl(3) [OF Some l2]
    have "\<exists>k3. spawn_abort (pid (processes k2 ! i)) k2 = Some k3"
      using k2 by (metis spawn_abort_result)
    moreover have "spawn_start i bg (snd (process_setup_user_args i c (snd (process_write_user i a d k2)))) \<noteq> None" for c a d
    proof -
      have "loads i k1 (snd (process_setup_user_args i c (snd (process_write_user i a d k2))))"
        by (metis loads_trans l2 loads_write loads_args surjective_pairing)
      then show ?thesis
        using cl(3) [OF Some] spawn_start_returns by blast
    qed
    ultimately show ?thesis
      using True c Some l by (auto simp: elf_spawn_def)
  qed (use True c in \<open>auto simp: elf_spawn_def\<close>)
qed (auto simp: elf_spawn_def)

section \<open>AOB programs\<close>

lemma aob_spawn_steps:
  assumes inv: "sched_inv k" and r: "runs k 0" and np: "next_pid k + 1 \<noteq> 0"
    and e: "aob_spawn api ctx cmd bg k = Some (out, k')"
  shows "kstep\<^sup>*\<^sup>* k k'"
proof (cases "\<exists>code. code_ptr ctx = Some code \<and> \<not> entry_point ctx \<ge> code_size ctx")
  case True
  then obtain code where f: "code_ptr ctx = Some code" "\<not> code_size ctx \<le> entry_point ctx"
    by blast
  define nm where "nm = (if get8 (aname ctx) 0 \<noteq> 0 then map (\<lambda>x. char_of (unat x)) (aname ctx) else cstr ''aob'')"
  obtain pr k1 where c: "process_create (c_content nm) (USER_CODE_BASE + ucast (entry_point ctx)) True k = Some (pr, k1)"
    using e f by (auto simp: aob_spawn_def Let_def nm_def split: bind_splits)
  note cl = create_then_load [OF inv r np c]
  show ?thesis
  proof (cases pr)
    case None
    then show ?thesis
      using e f c cl(1) by (auto simp: aob_spawn_def Let_def nm_def)
  next
    case (Some i)
    define ps where "ps = map (\<lambda>j. USER_CODE_BASE + of_nat j * 4096) [0..<unat (aob_pages (code_size ctx))]"
    obtain x k2 where m: "map_pages i ps PTE_WRITABLE k1 = Some (x, k2)"
      using e f c Some by (auto simp: aob_spawn_def Let_def nm_def ps_def split: bind_splits)
    note l2 = loads_map_pages [OF m]
    have kill: "kstep\<^sup>*\<^sup>* k (process_terminate p k3)" if "loads i k1 k3" for k3 p
      using cl(3) [OF Some that] kstep.terminate by (meson rtranclp.rtrancl_into_rtrancl)
    show ?thesis
    proof (cases "x = 0")
      case False
      then have "k' = process_terminate (pid (processes k2 ! i)) k2"
        using e f c Some m by (simp add: aob_spawn_def Let_def nm_def [symmetric] ps_def [symmetric])
      then show ?thesis
        using kill [OF l2] by simp
    next
      case True
      obtain tx where t: "buf_slice code 0 (ucast (code_size ctx)) = Some tx"
        using e f c Some m True
        by (auto simp: aob_spawn_def Let_def nm_def [symmetric] ps_def [symmetric] split: bind_splits)
      obtain r3 k3 where w: "process_write_user i USER_CODE_BASE tx k2 = (r3, k3)"
        by fastforce
      note l3 = loads_trans [OF l2 loads_write [OF w]]
      show ?thesis
      proof (cases "r3 = 0")
        case False
        then have "k' = process_terminate (pid (processes k3 ! i)) k3"
          using e f c Some m True t w by (simp add: aob_spawn_def Let_def nm_def [symmetric] ps_def [symmetric])
        then show ?thesis
          using kill [OF l3] by simp
      next
        case r3: True
        define k4 where "k4 = snd (process_write_user i USER_API_BASE (api_page (AO_API_MAGIC # api)) k3)"
        have l4: "loads i k1 k4"
          unfolding k4_def by (metis l3 loads_trans loads_write surjective_pairing)
        obtain args where s: "spawn_start i bg (snd (process_setup_user_args i args k4)) = Some (out, k')"
          using e f c Some m True t w r3
          by (auto simp: aob_spawn_def Let_def nm_def [symmetric] ps_def [symmetric] k4_def [symmetric] split: bind_splits)
        have "loads i k1 (snd (process_setup_user_args i args k4))"
          by (metis l4 loads_trans loads_args surjective_pairing)
        note k5 = cl(3) [OF Some this]
        show ?thesis
          using spawn_start_result(1) [OF _ _ _ _ _ s] k5 by (meson rtranclp_trans)
      qed
    qed
  qed
qed (use e in \<open>auto simp: aob_spawn_def Let_def split: option.splits if_splits\<close>)

section \<open>A program file\<close>

definition demo_elf :: bytes where
  "demo_elf = [0x7F, 0x45, 0x4C, 0x46, 2, 1, 1, 0, 0, 0, 0, 0, 0, 0, 0, 0, 2, 0, 62, 0, 1, 0, 0, 0,
     0, 0, 0x40, 0, 0, 0, 0, 0, 64, 0, 0, 0, 0, 0, 0, 0, 0, 0, 0, 0, 0, 0, 0, 0, 0, 0, 0, 0, 64, 0, 56, 0, 1, 0, 0, 0, 0, 0, 0, 0,
     1, 0, 0, 0, 5, 0, 0, 0, 0, 0, 0, 0, 0, 0, 0, 0, 0, 0, 0x40, 0, 0, 0, 0, 0, 0, 0, 0x40, 0, 0, 0, 0, 0,
     120, 0, 0, 0, 0, 0, 0, 0, 0, 0x20, 0, 0, 0, 0, 0, 0, 0, 0x10, 0, 0, 0, 0, 0, 0]"

lemma demo_elf_bytes: "length demo_elf = 120" "i < 120 \<Longrightarrow> get8 demo_elf i = demo_elf ! i"
  by (simp_all add: demo_elf_def get8_def)

lemma demo_elf_header:
  "elf_header demo_elf = \<lparr>e_magic = ELF_MAGIC, e_class = 2, e_data = 1, e_type = 2, e_machine = 62, e_version = 1,
     e_entry = 0x400000, e_phoff = 64, e_phentsize = 56, e_phnum = 1\<rparr>"
  by (simp add: elf_header_def get64_def get32_def get16_def demo_elf_bytes(2)) (simp add: demo_elf_def ELF_MAGIC_def)

lemma demo_elf_ok: "elf_header_ok (elf_header demo_elf) 120" "elf_nowrap demo_elf"
proof -
  show "elf_header_ok (elf_header demo_elf) 120"
    unfolding demo_elf_header
    by (simp add: elf_header_ok_def ELFCLASS64_def ELFDATA2LSB_def ET_EXEC_def EM_X86_64_def EV_CURRENT_def
        valid_user_range_def USER_STACK_BASE_def USER_API_BASE_def USER_ARGV_BASE_def)
  have "phdr_at demo_elf 64 0 = Some (elf_phdr demo_elf 64)" "p_offset (elf_phdr demo_elf 64) = 0"
      "p_filesz (elf_phdr demo_elf 64) = 120"
    by (simp_all add: phdr_at_def elf_phdr_def get64_def get32_def get16_def demo_elf_bytes) (simp_all add: demo_elf_def)
  then show "elf_nowrap demo_elf"
    by (simp add: elf_nowrap_def demo_elf_header)
qed

lemma demo_started_runs: "runs demo_started 0" "next_pid demo_started + 1 \<noteq> 0"
  unfolding runs_def by code_simp+

lemma ceil_page: "n mod 4096 \<noteq> 0 \<Longrightarrow> (n + 4095) div 4096 = n div 4096 + 1" for n :: nat
proof -
  assume "n mod 4096 \<noteq> 0"
  then have "(n mod 4096 + 4095) div 4096 = Suc 0"
    by (intro div_nat_eqI) auto
  then show ?thesis
    using div_add1_eq [of n 4095 4096] by simp
qed

section \<open>Properties\<close>

text \<open>C19. Loading an ELF file whose two 64-bit range sums do not wrap always returns; everything the
  loader does is a sequence of kernel steps, so the result is again a reachable state; and when it fails,
  at any point after the process was created, no slot stays occupied.\<close>
theorem elf_spawn_correct:
  assumes "boot_ok k0" "kreach k0 k" "runs k 0" "next_pid k + 1 \<noteq> 0"
    and "NUL \<notin> set fname" "unat fs \<le> length b" "elf_nowrap b"
  shows "\<exists>out k'. elf_spawn (Some (b, fs)) fname cmd bg k = Some (out, k') \<and> kreach k0 k' \<and>
    (out = SpawnFailed \<longrightarrow> (\<forall>j<MAX_PROCESSES. used k' j = used k j))"
proof -
  have inv: "sched_inv k"
    using assms(1,2) by (simp add: inv_kreach)
  obtain out k' where e: "elf_spawn (Some (b, fs)) fname cmd bg k = Some (out, k')"
    using elf_spawn_returns [OF inv assms(3-7)] by fastforce
  show ?thesis
    using elf_spawn_result [OF inv assms(3,4) e] kreach_ksteps [OF _ assms(2)] e by (auto simp: MAX_PROCESSES_def)
qed

theorem elf_spawn_correct_witness:
  "\<exists>out k'. elf_spawn (Some (demo_elf, 120)) ''init'' None True demo_started = Some (out, k') \<and> kreach demo_boot k'"
  using elf_spawn_correct [OF demo_boot_ok demo_reach(1) demo_started_runs _ _ demo_elf_ok(2), of "''init''" 120 None True]
    demo_elf_bytes(1) by auto



text \<open>A segment of size 0 passes \<open>valid_user_range\<close> at every address, and when its address is not page
  aligned the loader still maps the page around it: a program file can put a user page anywhere, over the
  kernel image included.\<close>
lemma elf_empty_segment_maps_page:
  assumes "unat v mod 4096 \<noteq> 0" "unat v + 4095 < 2 ^ 64"
  shows "valid_user_range v 0 \<and>
    map_range i v (v + 0) fl k = map_pages i [page_down v] (range_flags fl (vm k)) k"
proof -
  have "(unat v + 4095) div 4096 - unat v div 4096 = Suc 0"
    using ceil_page [OF assms(1)] by simp
  then have "seg_pages v v = [page_down v]"
    by (simp add: seg_pages_def pages_from_def)
  then show ?thesis
    using map_range_pages [OF order_refl assms(2)] by (simp add: valid_user_range_def)
qed

lemma elf_empty_segment_maps_page_example:
  "valid_user_range 0x100008 0 \<and>
    map_range 1 0x100008 (0x100008 + 0) 5 demo_started = map_pages 1 [page_down 0x100008] (range_flags 5 (vm demo_started)) demo_started"
  using elf_empty_segment_maps_page [of "0x100008" 1 5 demo_started] by simp

text \<open>The check of the program header table adds in 64 bits: an offset just below \<open>2^64\<close> wraps to a sum
  inside the file and is accepted, although the first program header is then read outside the buffer.\<close>
lemma elf_phoff_wraps:
  assumes "elf_header_ok eh fs" "length b = ELF_LOAD_BUFFER_SIZE"
  shows "elf_header_ok (eh\<lparr>e_phoff := - (56 * ucast (e_phnum eh))\<rparr>) fs \<and>
    phdr_at b (- (56 * ucast (e_phnum eh))) 0 = None"
proof -
  define n where "n = unat (e_phnum eh)"
  have n: "n < 2 ^ 16" "n \<noteq> 0"
    using unsigned_less [of "e_phnum eh", where ?'a = nat] assms(1)
    by (auto simp: n_def elf_header_ok_def unat_eq_zero)
  then have u: "unat (ucast (e_phnum eh) :: u64) = n"
    by (simp add: n_def unsigned_ucast_eq take_bit_nat_eq_self_iff)
  define x where "x = (56 * ucast (e_phnum eh) :: u64)"
  have x: "unat x = 56 * n"
    using u n by (simp add: x_def unat_word_ariths)
  have "unat (0 - x) = 2 ^ 64 - 56 * n"
    unfolding unat_sub_if' x using n by (simp add: word_size)
  then have "phdr_at b (- x) 0 = None"
    using n assms(2) by (simp add: phdr_at_def ELF_LOAD_BUFFER_SIZE_def)
  moreover have "elf_header_ok (eh\<lparr>e_phoff := - x\<rparr>) fs"
    using assms(1) by (simp add: elf_header_ok_def x_def mult.commute)
  ultimately show ?thesis
    by (simp add: x_def)
qed

lemma elf_phoff_wraps_example:
  "elf_header_ok ((elf_header demo_elf)\<lparr>e_phoff := - 56\<rparr>) 120 \<and> phdr_at (replicate ELF_LOAD_BUFFER_SIZE 0) (- 56) 0 = None"
  using elf_phoff_wraps [OF demo_elf_ok(1), of "replicate ELF_LOAD_BUFFER_SIZE 0"] by (simp add: demo_elf_header)

text \<open>C36. \<open>aob_load\<close> accepts a program only if its code lies inside the file: the code and its length can be
  copied without leaving the buffer, and the context it leaves describes exactly the header.\<close>
theorem aob_load_sound:
  assumes "aob_load (Some (b, fs)) ctx = (0, ctx')" "unat fs \<le> length b"
  shows "buf_slice (the (code_ptr ctx')) 0 (ucast (code_size ctx')) =
      Some (take (unat (h_code_size (aob_header_at b))) (drop 72 b)) \<and>
    entry_point ctx' = h_entry_point (aob_header_at b) \<and> 0 < code_size ctx' \<and>
    h_magic (aob_header_at b) = AOB_MAGIC \<and> length (aname ctx') = 32"
proof -
  have f: "\<not> fs < 72" "h_magic (aob_header_at b) = AOB_MAGIC" "h_code_size (aob_header_at b) \<noteq> 0"
      "\<not> unat fs < 72 + unat (h_code_size (aob_header_at b))"
      "ctx' = ctx\<lparr>code_ptr := Some (drop 72 b), code_size := h_code_size (aob_header_at b),
         entry_point := h_entry_point (aob_header_at b), aname := h_name (aob_header_at b)\<rparr>"
    using assms(1) by (auto simp: aob_load_def Let_def split: if_splits)
  have "unat (ucast (h_code_size (aob_header_at b)) :: u64) = unat (h_code_size (aob_header_at b))"
    using unsigned_less [of "h_code_size (aob_header_at b)", where ?'a = nat]
    by (simp add: unsigned_ucast_eq take_bit_nat_eq_self_iff)
  then show ?thesis
    using f assms(2) by (auto simp: buf_slice_def word_gt_0 aob_header_at_def unat_eq_zero
        dest: arg_cong [of _ _ unat])
qed

definition demo_aob :: bytes where
  "demo_aob = [0x41, 0x4F, 0x42, 0, 1, 0, 0, 0, 0, 0, 0, 0, 2, 0, 0, 0] @ replicate 56 0 @ [0xEB, 0xFE]"

theorem aob_load_sound_witness:
  "\<exists>ctx'. aob_load (Some (demo_aob, 74)) \<lparr>code_ptr = None, code_size = 0, entry_point = 0, aname = []\<rparr> = (0, ctx') \<and>
     buf_slice (the (code_ptr ctx')) 0 (ucast (code_size ctx')) = Some [0xEB, 0xFE]"
proof -
  have g: "get8 demo_aob i = demo_aob ! i" if "i < 16" for i
    using that by (simp add: get8_def demo_aob_def)
  have h: "h_magic (aob_header_at demo_aob) = AOB_MAGIC" "h_version (aob_header_at demo_aob) = AOB_VERSION"
      "h_code_size (aob_header_at demo_aob) = 2" "drop 72 demo_aob = [0xEB, 0xFE]" "length demo_aob = 74"
    by (simp_all add: aob_header_at_def get32_def get16_def g)
      (simp_all add: demo_aob_def AOB_MAGIC_def AOB_VERSION_def)
  obtain ctx' where "aob_load (Some (demo_aob, 74)) \<lparr>code_ptr = None, code_size = 0, entry_point = 0, aname = []\<rparr> = (0, ctx')"
    using h by (simp add: aob_load_def Let_def)
  then show ?thesis
    using aob_load_sound h by fastforce
qed

end
