(* ===== verification/Bus.thy ===== *)
theory Bus
  imports Prelude
begin

text \<open>
  The I/O ports (\<open>include/io.h\<close>). The hardware behind them is a parameter of every driver that uses
  them: a record of the port accesses over a device state \<open>'d\<close> that nothing in the kernel reads
  directly.
\<close>

record 'd bus =
  inb :: "u16 \<Rightarrow> 'd \<Rightarrow> u8 \<times> 'd"
  outb :: "u16 \<Rightarrow> u8 \<Rightarrow> 'd \<Rightarrow> 'd"
  inw :: "u16 \<Rightarrow> 'd \<Rightarrow> u16 \<times> 'd"
  outw :: "u16 \<Rightarrow> u16 \<Rightarrow> 'd \<Rightarrow> 'd"
  inl :: "u16 \<Rightarrow> 'd \<Rightarrow> u32 \<times> 'd"
  outl :: "u16 \<Rightarrow> u32 \<Rightarrow> 'd \<Rightarrow> 'd"

text \<open>\<open>insw\<close> and \<open>outsw\<close>: \<open>n\<close> words from or to one port.\<close>

primrec insw :: "'d bus \<Rightarrow> u16 \<Rightarrow> nat \<Rightarrow> 'd \<Rightarrow> u16 list \<times> 'd" where
  "insw b port 0 d = ([], d)"
| "insw b port (Suc n) d =
     (let (w, d1) = inw b port d; (ws, d2) = insw b port n d1 in (w # ws, d2))"

primrec outsw :: "'d bus \<Rightarrow> u16 \<Rightarrow> u16 list \<Rightarrow> 'd \<Rightarrow> 'd" where
  "outsw b port [] d = d"
| "outsw b port (w # ws) d = outsw b port ws (outw b port w d)"

lemma length_insw [simp]: "length (fst (insw b port n d)) = n"
  by (induction n arbitrary: d) (auto simp: Let_def split: prod.splits, metis fst_conv)

text \<open>Ports without a device: reads give 0, writes are ignored.\<close>

definition null_bus :: "unit bus" where
  "null_bus = \<lparr>inb = (\<lambda>p d. (0, d)), outb = (\<lambda>p v d. d), inw = (\<lambda>p d. (0, d)), outw = (\<lambda>p v d. d),
     inl = (\<lambda>p d. (0, d)), outl = (\<lambda>p v d. d)\<rparr>"

end
