(* ===== verification/Terminal.thy ===== *)
theory Terminal
  imports Bus CString
begin

text \<open>
  The text console (\<open>kernel/drivers/display/terminal.c\<close>, \<open>kernel/drivers/display/vga.c\<close>), the serial
  port (\<open>kernel/drivers/serial/serial.c\<close>) and the kernel log on both (\<open>kernel/klog.c\<close>). The state is the
  history buffer, the cursor and the video memory; the ports of the display controller and of the UART are
  those of a \<open>bus\<close>. \<open>None\<close> is an index outside the history, or for the serial port a wait that does
  not end.

  The theorems: every operation keeps the cursor inside the history, and what is in the video memory after
  an operation that draws is the window of the history that the cursor and scroll offset select.
\<close>

unbundle bit_operations_syntax

section \<open>State\<close>

definition VGA_WIDTH :: nat where "VGA_WIDTH = 80"
definition TERM_WIDTH :: nat where "TERM_WIDTH = 80"
definition TERM_HEIGHT :: nat where "TERM_HEIGHT = 25"
definition TERM_HISTORY :: nat where "TERM_HISTORY = 1000"

record 'd terminal =
  term_buffer :: "string list"
  term_color_buffer :: "u8 list list"
  scroll_offset :: int
  current_line :: nat
  terminal_column :: nat
  terminal_color :: u8
  vga_memory :: "u16 list"
  cursor_visible :: bool
  rendering_enabled :: bool
  dev :: 'd

definition vga_entry_color :: "u8 \<Rightarrow> u8 \<Rightarrow> u8" where
  "vga_entry_color fg bg = fg OR push_bit 4 bg"

definition vga_entry :: "char \<Rightarrow> u8 \<Rightarrow> u16" where
  "vga_entry uc color = of_nat (of_char uc) OR push_bit 8 (ucast color)"

section \<open>Drawing\<close>

definition start_line :: "'d terminal \<Rightarrow> int" where
  "start_line t = (let s = int (current_line t) - int TERM_HEIGHT + 1 - scroll_offset t in if s < 0 then 0 else s)"

definition buffer_line :: "'d terminal \<Rightarrow> nat \<Rightarrow> nat" where
  "buffer_line t y =
     (let l = start_line t + int y; l1 = (if l \<ge> int TERM_HISTORY then int TERM_HISTORY - 1 else l)
      in nat (if l1 < 0 then 0 else l1))"

definition terminal_render :: "'d terminal \<Rightarrow> 'd terminal" where
  "terminal_render t =
     (if \<not> rendering_enabled t then t
      else t\<lparr>vga_memory := concat (map (\<lambda>y. map (\<lambda>x. vga_entry (term_buffer t ! buffer_line t y ! x)
               (term_color_buffer t ! buffer_line t y ! x)) [0..<TERM_WIDTH]) [0..<TERM_HEIGHT])\<rparr>)"

definition cursor_pos :: "'d terminal \<Rightarrow> u16" where
  "cursor_pos t =
     (let v = int (current_line t) - start_line t; v1 = (if v < 0 then 0 else v);
          v2 = (if v1 \<ge> int TERM_HEIGHT then int TERM_HEIGHT - 1 else v1)
      in of_int (v2 * int VGA_WIDTH + int (terminal_column t)))"

definition terminal_update_cursor :: "'d bus \<Rightarrow> 'd terminal \<Rightarrow> 'd terminal" where
  "terminal_update_cursor b t =
     t\<lparr>dev := outb b 0x3D5 (ucast (drop_bit 8 (cursor_pos t) AND 0xFF)) (outb b 0x3D4 0x0E
              (outb b 0x3D5 (ucast (cursor_pos t AND 0xFF)) (outb b 0x3D4 0x0F (dev t))))\<rparr>"

definition terminal_show_cursor :: "'d bus \<Rightarrow> 'd terminal \<Rightarrow> 'd terminal" where
  "terminal_show_cursor b t =
     (let (v1, d1) = inb b 0x3D5 (outb b 0x3D4 0x0A (dev t));
          d2 = outb b 0x3D5 ((v1 AND 0xC0) OR 0x0E) d1;
          (v2, d3) = inb b 0x3D5 (outb b 0x3D4 0x0B d2);
          d4 = outb b 0x3D5 ((v2 AND 0xE0) OR 0x0F) d3
      in terminal_update_cursor b (t\<lparr>cursor_visible := True, dev := d4\<rparr>))"

definition terminal_hide_cursor :: "'d bus \<Rightarrow> 'd terminal \<Rightarrow> 'd terminal" where
  "terminal_hide_cursor b t = t\<lparr>cursor_visible := False, dev := outb b 0x3D5 0x20 (outb b 0x3D4 0x0A (dev t))\<rparr>"

definition draw_cursor :: "'d bus \<Rightarrow> 'd terminal \<Rightarrow> 'd terminal" where
  "draw_cursor b t = (if cursor_visible t then terminal_update_cursor b t else t)"

section \<open>Operations\<close>

definition blank_history :: "'d terminal \<Rightarrow> 'd terminal" where
  "blank_history t = t\<lparr>term_buffer := replicate TERM_HISTORY (replicate TERM_WIDTH (CHR '' '')),
     term_color_buffer := replicate TERM_HISTORY (replicate TERM_WIDTH (terminal_color t))\<rparr>"

definition terminal_initialize :: "'d bus \<Rightarrow> 'd terminal \<Rightarrow> 'd terminal" where
  "terminal_initialize b t =
     terminal_show_cursor b (terminal_render (blank_history
       (t\<lparr>current_line := 0, terminal_column := 0, scroll_offset := 0, terminal_color := vga_entry_color 7 0\<rparr>)))"

definition terminal_setcolor :: "u8 \<Rightarrow> 'd terminal \<Rightarrow> 'd terminal" where
  "terminal_setcolor color t = t\<lparr>terminal_color := color\<rparr>"

definition shift_up :: "'a \<Rightarrow> 'a list list \<Rightarrow> 'a list list" where
  "shift_up blank rows = map (\<lambda>i. rows ! (i + 1)) [0..<TERM_HISTORY - 1] @ [replicate TERM_WIDTH blank]"

definition terminal_newline :: "'d terminal \<Rightarrow> 'd terminal" where
  "terminal_newline t =
     (let t1 = t\<lparr>terminal_column := 0, current_line := current_line t + 1\<rparr>;
          t2 = (if current_line t1 \<ge> TERM_HISTORY then
                  t1\<lparr>term_buffer := shift_up (CHR '' '') (term_buffer t1),
                     term_color_buffer := shift_up (terminal_color t1) (term_color_buffer t1),
                     current_line := TERM_HISTORY - 1\<rparr>
                else t1)
      in terminal_render (t2\<lparr>scroll_offset := 0\<rparr>))"

definition set_cell :: "char \<Rightarrow> 'd terminal \<Rightarrow> 'd terminal" where
  "set_cell c t = t\<lparr>
     term_buffer := (term_buffer t)[current_line t := (term_buffer t ! current_line t)[terminal_column t := c]],
     term_color_buffer := (term_color_buffer t)[current_line t :=
        (term_color_buffer t ! current_line t)[terminal_column t := terminal_color t]]\<rparr>"

definition in_history :: "'d terminal \<Rightarrow> bool" where
  "in_history t \<longleftrightarrow> current_line t < TERM_HISTORY \<and> terminal_column t < TERM_WIDTH"

definition terminal_putchar :: "'d bus \<Rightarrow> char \<Rightarrow> 'd terminal \<Rightarrow> 'd terminal option" where
  "terminal_putchar b c t =
     (if c = CHR 0x0A then Some (draw_cursor b (terminal_newline t))
      else if c = CHR 0x09 then
        (let t1 = t\<lparr>terminal_column := (terminal_column t + 4) div 4 * 4\<rparr>
         in Some (draw_cursor b (if terminal_column t1 \<ge> VGA_WIDTH then terminal_newline t1 else t1)))
      else if \<not> in_history t then None
      else
        (let t1 = set_cell c t; t2 = t1\<lparr>terminal_column := terminal_column t1 + 1\<rparr>;
             t3 = (if terminal_column t2 = VGA_WIDTH then terminal_newline t2
                   else terminal_render (t2\<lparr>scroll_offset := 0\<rparr>))
         in Some (draw_cursor b t3)))"

primrec terminal_write :: "'d bus \<Rightarrow> string \<Rightarrow> 'd terminal \<Rightarrow> 'd terminal option" where
  "terminal_write b [] t = Some t"
| "terminal_write b (c # cs) t = Option.bind (terminal_putchar b c t) (terminal_write b cs)"

definition terminal_writestring :: "'d bus \<Rightarrow> string \<Rightarrow> 'd terminal \<Rightarrow> 'd terminal option" where
  "terminal_writestring b data t = Option.bind (strlen (cstr data)) (\<lambda>n. terminal_write b (take n data) t)"

definition terminal_clear :: "'d bus \<Rightarrow> 'd terminal \<Rightarrow> 'd terminal" where
  "terminal_clear b t =
     draw_cursor b (terminal_render (blank_history (t\<lparr>current_line := 0, terminal_column := 0, scroll_offset := 0\<rparr>)))"

definition terminal_backspace :: "'d bus \<Rightarrow> 'd terminal \<Rightarrow> 'd terminal" where
  "terminal_backspace b t =
     (if terminal_column t > 0 then
        (let t1 = set_cell (CHR '' '') (t\<lparr>terminal_column := terminal_column t - 1\<rparr>)
         in draw_cursor b (terminal_render (t1\<lparr>scroll_offset := 0\<rparr>)))
      else t)"

definition terminal_scroll_up :: "'d bus \<Rightarrow> 'd terminal \<Rightarrow> 'd terminal" where
  "terminal_scroll_up b t =
     (let s = scroll_offset t + 1; s1 = (if s > int (current_line t) then int (current_line t) else s)
      in terminal_update_cursor b (terminal_render (t\<lparr>scroll_offset := s1\<rparr>)))"

definition terminal_scroll_down :: "'d bus \<Rightarrow> 'd terminal \<Rightarrow> 'd terminal" where
  "terminal_scroll_down b t =
     (let s = scroll_offset t - 1; s1 = (if s < 0 then 0 else s)
      in terminal_update_cursor b (terminal_render (t\<lparr>scroll_offset := s1\<rparr>)))"

definition terminal_get_row :: "'d terminal \<Rightarrow> nat" where
  "terminal_get_row t = current_line t"

definition terminal_get_column :: "'d terminal \<Rightarrow> nat" where
  "terminal_get_column t = terminal_column t"

definition terminal_set_cursor :: "'d bus \<Rightarrow> int \<Rightarrow> int \<Rightarrow> 'd terminal \<Rightarrow> 'd terminal" where
  "terminal_set_cursor b row col t =
     (let t1 = (if row \<ge> 0 \<and> row < int TERM_HISTORY then t\<lparr>current_line := nat row\<rparr> else t);
          t2 = (if col \<ge> 0 \<and> col < int TERM_WIDTH then t1\<lparr>terminal_column := nat col\<rparr> else t1)
      in terminal_update_cursor b t2)"

definition terminal_disable_rendering :: "'d bus \<Rightarrow> 'd terminal \<Rightarrow> 'd terminal" where
  "terminal_disable_rendering b t = terminal_hide_cursor b (t\<lparr>rendering_enabled := False\<rparr>)"

definition terminal_enable_rendering :: "'d bus \<Rightarrow> 'd terminal \<Rightarrow> 'd terminal" where
  "terminal_enable_rendering b t = terminal_show_cursor b (terminal_render (t\<lparr>rendering_enabled := True\<rparr>))"

section \<open>Serial port and log\<close>

definition COM1 :: u16 where "COM1 = 0x3F8"

text \<open>\<open>serial_init\<close> also sets the flag \<open>serial_initialized\<close>, the first component of its result.\<close>

definition serial_init :: "'d bus \<Rightarrow> 'd \<Rightarrow> bool \<times> 'd" where
  "serial_init b d = (True, fold (\<lambda>(r, v). outb b (COM1 + r) v)
     [(1, 0x00), (3, 0x80), (0, 0x03), (1, 0x00), (3, 0x03), (2, 0xC7), (4, 0x0B)] d)"

definition serial_is_transmit_empty :: "'d bus \<Rightarrow> 'd \<Rightarrow> bool \<times> 'd" where
  "serial_is_transmit_empty b d = (case inb b (COM1 + 5) d of (v, d1) \<Rightarrow> (v AND 0x20 \<noteq> 0, d1))"

partial_function (option) serial_putchar :: "'d bus \<Rightarrow> char \<Rightarrow> 'd \<Rightarrow> 'd option" where
  "serial_putchar b c d =
     (case serial_is_transmit_empty b d of (e, d1) \<Rightarrow>
        if e then Some (outb b COM1 (of_char c) d1) else serial_putchar b c d1)"

primrec serial_writestring :: "'d bus \<Rightarrow> string \<Rightarrow> 'd \<Rightarrow> 'd option" where
  "serial_writestring b [] d = Some d"
| "serial_writestring b (c # cs) d = Option.bind (serial_putchar b c d) (serial_writestring b cs)"

datatype log_level = LOG_INFO | LOG_WARN | LOG_ERROR | LOG_DEBUG

fun log_level_string :: "log_level \<Rightarrow> string" where
  "log_level_string LOG_INFO = ''[INFO]  ''"
| "log_level_string LOG_WARN = ''[WARN]  ''"
| "log_level_string LOG_ERROR = ''[ERROR] ''"
| "log_level_string LOG_DEBUG = ''[DEBUG] ''"

fun log_level_color :: "log_level \<Rightarrow> u8" where
  "log_level_color LOG_INFO = 0x0A"
| "log_level_color LOG_WARN = 0x0E"
| "log_level_color LOG_ERROR = 0x0C"
| "log_level_color LOG_DEBUG = 0x0B"

definition klog :: "'d bus \<Rightarrow> log_level \<Rightarrow> string \<Rightarrow> 'd terminal \<Rightarrow> 'd terminal option" where
  "klog b level message t =
     Option.bind (serial_writestring b (log_level_string level @ message @ [CHR 0x0A]) (dev t)) (\<lambda>d.
     Option.bind (terminal_writestring b (log_level_string level) (terminal_setcolor (log_level_color level) (t\<lparr>dev := d\<rparr>))) (\<lambda>t1.
     Option.bind (terminal_writestring b message (terminal_setcolor (vga_entry_color 7 0) t1)) (\<lambda>t2.
     Option.bind (terminal_writestring b [CHR 0x0A] t2) (\<lambda>t3.
       Some (terminal_setcolor (vga_entry_color 7 0) t3)))))"

definition klog_info :: "'d bus \<Rightarrow> string \<Rightarrow> 'd terminal \<Rightarrow> 'd terminal option" where
  "klog_info b message t = klog b LOG_INFO message t"

definition klog_warn :: "'d bus \<Rightarrow> string \<Rightarrow> 'd terminal \<Rightarrow> 'd terminal option" where
  "klog_warn b message t = klog b LOG_WARN message t"

definition klog_error :: "'d bus \<Rightarrow> string \<Rightarrow> 'd terminal \<Rightarrow> 'd terminal option" where
  "klog_error b message t = klog b LOG_ERROR message t"

definition klog_debug :: "'d bus \<Rightarrow> string \<Rightarrow> 'd terminal \<Rightarrow> 'd terminal option" where
  "klog_debug b message t = klog b LOG_DEBUG message t"

section \<open>Invariant and screen\<close>

definition hist_ok :: "'d terminal \<Rightarrow> bool" where
  "hist_ok t \<longleftrightarrow> length (term_buffer t) = 1000 \<and> (\<forall>r \<in> set (term_buffer t). length r = 80) \<and>
     length (term_color_buffer t) = 1000 \<and> (\<forall>r \<in> set (term_color_buffer t). length r = 80) \<and>
     current_line t < 1000"

definition term_inv :: "'d terminal \<Rightarrow> bool" where
  "term_inv t \<longleftrightarrow> hist_ok t \<and> terminal_column t < 80 \<and> 0 \<le> scroll_offset t"

text \<open>The video memory holds the 25 lines of the history that end at the current line, or earlier by the
  scroll offset.\<close>

definition shown :: "'d terminal \<Rightarrow> bool" where
  "shown t \<longleftrightarrow> length (vga_memory t) = 2000 \<and>
     (\<forall>y<25. \<forall>x<80. vga_memory t ! (y * 80 + x) =
        vga_entry (term_buffer t ! buffer_line t y ! x) (term_color_buffer t ! buffer_line t y ! x))"

lemmas term_consts = TERM_WIDTH_def TERM_HEIGHT_def TERM_HISTORY_def VGA_WIDTH_def

lemma nth_concat_rows:
  assumes "\<forall>r \<in> set rows. length r = n" "y < length rows" "x < n"
  shows "concat rows ! (y * n + x) = rows ! y ! x"
  using assms
proof (induction rows arbitrary: y)
  case (Cons r rows)
  then show ?case
    by (cases y) (auto simp: nth_append)
qed simp

lemma length_concat_rows: "\<forall>r \<in> set rows. length r = n \<Longrightarrow> length (concat rows) = length rows * n"
  by (induction rows) auto

lemma render_fields [simp]:
  "term_buffer (terminal_render t) = term_buffer t" "term_color_buffer (terminal_render t) = term_color_buffer t"
  "current_line (terminal_render t) = current_line t" "terminal_column (terminal_render t) = terminal_column t"
  "scroll_offset (terminal_render t) = scroll_offset t" "rendering_enabled (terminal_render t) = rendering_enabled t"
  "terminal_color (terminal_render t) = terminal_color t" "cursor_visible (terminal_render t) = cursor_visible t"
  by (simp_all add: terminal_render_def)

lemma buffer_line_cong:
  "current_line t = current_line t' \<Longrightarrow> scroll_offset t = scroll_offset t' \<Longrightarrow> buffer_line t y = buffer_line t' y"
  by (simp add: buffer_line_def start_line_def)

lemma shown_cong:
  "current_line t = current_line t' \<Longrightarrow> scroll_offset t = scroll_offset t' \<Longrightarrow> term_buffer t = term_buffer t' \<Longrightarrow>
   term_color_buffer t = term_color_buffer t' \<Longrightarrow> vga_memory t = vga_memory t' \<Longrightarrow> shown t = shown t'"
  by (simp add: shown_def buffer_line_cong [of t t'])

lemma render_shown: "rendering_enabled t \<Longrightarrow> shown (terminal_render t)"
proof -
  assume r: "rendering_enabled t"
  define rows where "rows = map (\<lambda>y. map (\<lambda>x. vga_entry (term_buffer t ! buffer_line t y ! x)
               (term_color_buffer t ! buffer_line t y ! x)) [0..<80]) [0..<25]"
  have v: "vga_memory (terminal_render t) = concat rows"
    using r by (simp add: terminal_render_def rows_def term_consts)
  have rows: "\<forall>r \<in> set rows. length r = 80" "length rows = 25"
    by (auto simp: rows_def)
  have "buffer_line (terminal_render t) y = buffer_line t y" for y
    by (rule buffer_line_cong) simp_all
  then show ?thesis
    using length_concat_rows [OF rows(1)] nth_concat_rows [OF rows(1)] rows(2)
    by (simp add: shown_def v) (simp add: rows_def)
qed

lemma cursor_fields [simp]:
  "term_buffer (draw_cursor b t) = term_buffer t" "term_color_buffer (draw_cursor b t) = term_color_buffer t"
  "current_line (draw_cursor b t) = current_line t" "terminal_column (draw_cursor b t) = terminal_column t"
  "scroll_offset (draw_cursor b t) = scroll_offset t" "rendering_enabled (draw_cursor b t) = rendering_enabled t"
  "vga_memory (draw_cursor b t) = vga_memory t" "terminal_color (draw_cursor b t) = terminal_color t"
  by (simp_all add: draw_cursor_def terminal_update_cursor_def)

lemma shown_cursor [simp]: "shown (draw_cursor b t) = shown t"
  by (rule shown_cong) simp_all

lemma shown_show_cursor: "shown (terminal_show_cursor b t) = shown t"
  by (rule shown_cong) (simp_all add: terminal_show_cursor_def terminal_update_cursor_def Let_def split: prod.splits)

lemma shift_up_rows:
  assumes "length rows = 1000" "\<forall>r \<in> set rows. length r = 80"
  shows "length (shift_up c rows) = 1000" "\<forall>r \<in> set (shift_up c rows). length r = 80"
  using assms by (auto simp: shift_up_def term_consts)

lemma newline_inv:
  assumes "hist_ok t"
  shows "term_inv (terminal_newline t)" "rendering_enabled (terminal_newline t) = rendering_enabled t"
    "rendering_enabled t \<Longrightarrow> shown (terminal_newline t)"
proof -
  have h: "length (term_buffer t) = 1000" "\<forall>r \<in> set (term_buffer t). length r = 80"
    "length (term_color_buffer t) = 1000" "\<forall>r \<in> set (term_color_buffer t). length r = 80" "current_line t < 1000"
    using assms by (auto simp: hist_ok_def)
  show "term_inv (terminal_newline t)" "rendering_enabled (terminal_newline t) = rendering_enabled t"
    "rendering_enabled t \<Longrightarrow> shown (terminal_newline t)"
    using h shift_up_rows [OF h(1,2)] shift_up_rows [OF h(3,4)]
    by (auto simp: terminal_newline_def Let_def term_inv_def hist_ok_def term_consts intro!: render_shown)
qed

lemma inv_cursor [simp]: "term_inv (draw_cursor b t) = term_inv t"
  by (simp add: term_inv_def hist_ok_def)

lemma inv_render [simp]: "term_inv (terminal_render t) = term_inv t"
  by (simp add: term_inv_def hist_ok_def)

lemma rows_update:
  assumes "\<forall>r \<in> set rows. length r = n" "i < length rows" "length r = n"
  shows "\<forall>r \<in> set (rows[i := r]). length r = n"
  using assms set_update_subset_insert [of rows i r] by auto

lemma set_cell_inv: "term_inv t \<Longrightarrow> term_inv (set_cell c t)"
proof -
  assume inv: "term_inv t"
  have "length (term_buffer t ! current_line t) = 80" "length (term_color_buffer t ! current_line t) = 80"
    using inv by (auto simp: term_inv_def hist_ok_def)
  then show ?thesis
    using inv
      rows_update [of "term_buffer t" 80 "current_line t" "(term_buffer t ! current_line t)[terminal_column t := c]"]
      rows_update [of "term_color_buffer t" 80 "current_line t"
        "(term_color_buffer t ! current_line t)[terminal_column t := terminal_color t]"]
    by (simp add: term_inv_def hist_ok_def set_cell_def)
qed

text \<open>Writing a character: always possible, and the screen follows.\<close>

definition term_ok :: "'d terminal \<Rightarrow> bool" where
  "term_ok t \<longleftrightarrow> term_inv t \<and> (rendering_enabled t \<longrightarrow> shown t)"

lemma newline_ok:
  assumes "term_inv t"
  shows "term_ok (terminal_newline t)" "rendering_enabled (terminal_newline t) = rendering_enabled t"
  using newline_inv [of t] assms by (auto simp: term_ok_def term_inv_def)

lemma ok_cursor [simp]: "term_ok (draw_cursor b t) = term_ok t"
  by (simp add: term_ok_def)

lemma render_ok: "term_inv t \<Longrightarrow> term_ok (terminal_render t)"
  using render_shown [of t] by (simp add: term_ok_def)

lemma putchar_ok:
  assumes "term_ok t"
  shows "\<exists>t'. terminal_putchar b c t = Some t' \<and> term_ok t' \<and> rendering_enabled t' = rendering_enabled t"
proof -
  have inv: "term_inv t"
    using assms by (simp add: term_ok_def)
  have i1: "hist_ok t" "current_line t < 1000" "terminal_column t < 80" "0 \<le> scroll_offset t"
    using inv by (auto simp: term_inv_def hist_ok_def)
  consider "c = CHR 0x0A" | "c = CHR 0x09" | "c \<noteq> CHR 0x0A" "c \<noteq> CHR 0x09"
    by blast
  then show ?thesis
  proof cases
    case 1
    then show ?thesis
      using newline_ok [OF inv] by (simp add: terminal_putchar_def)
  next
    case 2
    define t1 where "t1 = t\<lparr>terminal_column := (terminal_column t + 4) div 4 * 4\<rparr>"
    have s: "shown t1 = shown t"
      by (rule shown_cong) (simp_all add: t1_def)
    have h1: "hist_ok t1"
      using i1(1) by (simp add: t1_def hist_ok_def)
    have "term_ok (if terminal_column t1 \<ge> 80 then terminal_newline t1 else t1)"
      using newline_inv [OF h1] h1 i1 assms s by (auto simp: term_ok_def term_inv_def) (auto simp: t1_def)
    moreover have "terminal_putchar b c t = Some (draw_cursor b (if terminal_column t1 \<ge> 80 then terminal_newline t1 else t1))"
      using 2 by (simp add: terminal_putchar_def Let_def t1_def term_consts)
    ultimately show ?thesis
      using newline_inv(2) [OF h1] by (simp add: t1_def)
  next
    case 3
    define t1 where "t1 = set_cell c t"
    have j1: "term_inv t1"
      using set_cell_inv [OF inv] by (simp add: t1_def)
    define t2 where "t2 = t1\<lparr>terminal_column := terminal_column t1 + 1\<rparr>"
    have h2: "hist_ok t2"
      using j1 by (simp add: t2_def term_inv_def hist_ok_def)
    have "term_ok (if terminal_column t2 = 80 then terminal_newline t2 else terminal_render (t2\<lparr>scroll_offset := 0\<rparr>))"
      using newline_inv [OF h2] j1 h2 render_ok [of "t2\<lparr>scroll_offset := 0\<rparr>"]
      by (auto simp: term_ok_def term_inv_def hist_ok_def) (auto simp: t2_def)
    moreover have "terminal_putchar b c t = Some (draw_cursor b
        (if terminal_column t2 = 80 then terminal_newline t2 else terminal_render (t2\<lparr>scroll_offset := 0\<rparr>)))"
      using 3 i1 by (simp add: terminal_putchar_def Let_def t1_def t2_def in_history_def term_consts)
    moreover have "rendering_enabled t2 = rendering_enabled t"
      by (simp add: t2_def t1_def set_cell_def)
    ultimately show ?thesis
      using newline_inv(2) [OF h2] by simp
  qed
qed

lemma initialize_ok: "term_ok (terminal_initialize b t)"
proof -
  let ?t = "blank_history (t\<lparr>current_line := 0, terminal_column := 0, scroll_offset := 0, terminal_color := vga_entry_color 7 0\<rparr>)"
  have "term_inv ?t"
    by (simp add: blank_history_def term_inv_def hist_ok_def term_consts)
  moreover have "term_inv (terminal_show_cursor b u) = term_inv u" "rendering_enabled (terminal_show_cursor b u) = rendering_enabled u" for u
    by (simp_all add: terminal_show_cursor_def terminal_update_cursor_def term_inv_def hist_ok_def split_beta Let_def)
  ultimately show ?thesis
    using render_ok [of ?t] by (simp add: terminal_initialize_def term_ok_def shown_show_cursor)
qed

lemma write_ok:
  "term_ok t \<Longrightarrow> \<exists>t'. terminal_write b s t = Some t' \<and> term_ok t' \<and> rendering_enabled t' = rendering_enabled t"
proof (induction s arbitrary: t)
  case (Cons c s)
  obtain t1 where "terminal_putchar b c t = Some t1" "term_ok t1" "rendering_enabled t1 = rendering_enabled t"
    using putchar_ok [OF Cons.prems] by blast
  then show ?case
    using Cons.IH [of t1] by simp
qed simp

text \<open>Plain text that fits on the line goes to the cursor position and nowhere else.\<close>

definition plain :: "char \<Rightarrow> bool" where
  "plain c \<longleftrightarrow> c \<noteq> CHR 0x0A \<and> c \<noteq> CHR 0x09"

lemma putchar_plain:
  assumes inv: "term_inv t" and c: "plain c" and w: "terminal_column t + 1 < 80"
  shows "\<exists>t'. terminal_putchar b c t = Some t' \<and> term_inv t' \<and> terminal_column t' = terminal_column t + 1 \<and>
    current_line t' = current_line t \<and>
    term_buffer t' = (term_buffer t)[current_line t := (term_buffer t ! current_line t)[terminal_column t := c]]"
proof -
  define t1 where "t1 = (set_cell c t)\<lparr>terminal_column := terminal_column t + 1, scroll_offset := 0\<rparr>"
  have col: "terminal_column (set_cell c t) = terminal_column t" "current_line (set_cell c t) = current_line t"
    by (simp_all add: set_cell_def)
  have "terminal_putchar b c t = Some (draw_cursor b (terminal_render t1))"
    using c w inv by (simp add: terminal_putchar_def plain_def Let_def t1_def col in_history_def term_consts term_inv_def hist_ok_def)
  moreover have "term_inv t1"
    using set_cell_inv [OF inv, of c] w by (simp add: t1_def term_inv_def hist_ok_def)
  ultimately show ?thesis
    by (simp add: t1_def set_cell_def)
qed

lemma write_plain:
  assumes "term_inv t" "\<forall>c \<in> set s. plain c" "terminal_column t + length s < 80"
  shows "\<exists>t'. terminal_write b s t = Some t' \<and> terminal_column t' = terminal_column t + length s \<and>
    current_line t' = current_line t \<and>
    term_buffer t' = (term_buffer t)[current_line t := take (terminal_column t) (term_buffer t ! current_line t) @ s @
      drop (terminal_column t + length s) (term_buffer t ! current_line t)]"
  using assms
proof (induction s arbitrary: t)
  case (Cons c s)
  obtain t1 where t1: "terminal_putchar b c t = Some t1" "term_inv t1" "terminal_column t1 = terminal_column t + 1"
      "current_line t1 = current_line t"
      "term_buffer t1 = (term_buffer t)[current_line t := (term_buffer t ! current_line t)[terminal_column t := c]]"
    using putchar_plain [of t c b] Cons.prems by auto
  have l: "current_line t < length (term_buffer t)" "length (term_buffer t ! current_line t) = 80" "terminal_column t < 80"
    using Cons.prems(1) by (auto simp: term_inv_def hist_ok_def)
  have r: "take (Suc n) (xs[n := c]) @ s @ drop (Suc (n + m)) (xs[n := c]) = take n xs @ (c # s) @ drop (Suc (n + m)) xs"
    if "n < length xs" for n m and xs :: string
    using that by (simp add: take_Suc_conv_app_nth)
  show ?case
    using Cons.IH [OF t1(2)] Cons.prems t1 l r [of "terminal_column t" "term_buffer t ! current_line t" "length s"]
    by auto
qed (simp add: list_update_same_conv term_inv_def hist_ok_def)

section \<open>The log on a working serial port\<close>

text \<open>What the console needs of the devices to leave a property \<open>P\<close> of them alone, and a serial port that can
  always send.\<close>

definition console_safe :: "'d bus \<Rightarrow> ('d \<Rightarrow> bool) \<Rightarrow> bool" where
  "console_safe b P \<longleftrightarrow> (\<forall>d v. P d \<longrightarrow> P (outb b 0x3D4 v d) \<and> P (outb b 0x3D5 v d) \<and> P (outb b COM1 v d) \<and>
     P (snd (inb b (COM1 + 5) d)))"

definition serial_ready :: "'d bus \<Rightarrow> bool" where
  "serial_ready b \<longleftrightarrow> (\<forall>d. fst (inb b (COM1 + 5) d) AND 0x20 \<noteq> 0)"

lemma render_dev [simp]: "dev (terminal_render t) = dev t"
  by (simp add: terminal_render_def)

lemma newline_dev [simp]: "dev (terminal_newline t) = dev t"
  by (simp add: terminal_newline_def Let_def)

lemma set_cell_dev [simp]: "dev (set_cell c t) = dev t"
  by (simp add: set_cell_def)

lemma draw_cursor_dev: "console_safe b P \<Longrightarrow> P (dev t) \<Longrightarrow> dev u = dev t \<Longrightarrow> P (dev (draw_cursor b u))"
  by (simp add: draw_cursor_def terminal_update_cursor_def console_safe_def)

lemma putchar_dev: "console_safe b P \<Longrightarrow> P (dev t) \<Longrightarrow> terminal_putchar b c t = Some t' \<Longrightarrow> P (dev t')"
  using draw_cursor_dev [of b P t] by (auto simp: terminal_putchar_def Let_def split: if_splits)

lemma write_dev: "console_safe b P \<Longrightarrow> P (dev t) \<Longrightarrow> terminal_write b s t = Some t' \<Longrightarrow> P (dev t')"
proof (induction s arbitrary: t)
  case (Cons c s)
  then show ?case
    using putchar_dev [of b P t c] by (auto simp: bind_eq_Some_conv)
qed simp

lemma serial_putchar_ready:
  assumes "serial_ready b" "console_safe b P" "P d"
  shows "\<exists>d'. serial_putchar b c d = Some d' \<and> P d'"
proof -
  have "serial_putchar b c d = Some (outb b COM1 (of_char c) (snd (inb b (COM1 + 5) d)))"
    using assms(1) by (subst serial_putchar.simps) (simp add: serial_is_transmit_empty_def serial_ready_def split_beta)
  then show ?thesis
    using assms(2,3) by (simp add: console_safe_def)
qed

lemma serial_writestring_ready:
  "serial_ready b \<Longrightarrow> console_safe b P \<Longrightarrow> P d \<Longrightarrow> \<exists>d'. serial_writestring b s d = Some d' \<and> P d'"
proof (induction s arbitrary: d)
  case (Cons c s)
  obtain d1 where "serial_putchar b c d = Some d1" "P d1"
    using serial_putchar_ready [OF Cons.prems] by blast
  then show ?case
    using Cons.IH [of d1] Cons.prems by simp
qed simp

lemma term_ok_cong [simp]: "term_ok (t\<lparr>dev := d\<rparr>) = term_ok t" "term_ok (t\<lparr>terminal_color := c\<rparr>) = term_ok t"
  using shown_cong [of "t\<lparr>dev := d\<rparr>" t] shown_cong [of "t\<lparr>terminal_color := c\<rparr>" t]
  by (simp_all add: term_ok_def term_inv_def hist_ok_def)

lemma klog_ok:
  assumes r: "serial_ready b" and s: "console_safe b P" and p: "P (dev t)" and t: "term_ok t"
  shows "\<exists>t'. klog b level message t = Some t' \<and> term_ok t' \<and> P (dev t')"
proof -
  obtain d where d: "serial_writestring b (log_level_string level @ message @ [CHR 0x0A]) (dev t) = Some d" "P d"
    using serial_writestring_ready [OF r s p] by blast
  have w: "\<exists>u'. terminal_writestring b x u = Some u' \<and> term_ok u' \<and> P (dev u')" if "term_ok u" "P (dev u)" for u x
  proof -
    obtain n where "strlen (cstr x) = Some n"
      using strlen_content [of "cstr x"] by simp
    then show ?thesis
      using write_ok [OF that(1), of b "take n x"] write_dev [OF s that(2), of "take n x"]
      by (auto simp: terminal_writestring_def)
  qed
  obtain t1 where t1: "terminal_writestring b (log_level_string level) (terminal_setcolor (log_level_color level) (t\<lparr>dev := d\<rparr>)) = Some t1"
      "term_ok t1" "P (dev t1)"
    using w [of "terminal_setcolor (log_level_color level) (t\<lparr>dev := d\<rparr>)"] t d by (auto simp: terminal_setcolor_def)
  obtain t2 where t2: "terminal_writestring b message (terminal_setcolor (vga_entry_color 7 0) t1) = Some t2" "term_ok t2" "P (dev t2)"
    using w [of "terminal_setcolor (vga_entry_color 7 0) t1"] t1 by (auto simp: terminal_setcolor_def)
  obtain t3 where "terminal_writestring b [CHR 0x0A] t2 = Some t3" "term_ok t3" "P (dev t3)"
    using w [OF t2(2,3)] by blast
  then show ?thesis
    using d t1 t2 by (simp add: klog_def terminal_setcolor_def)
qed

section \<open>Properties\<close>

text \<open>C24. Writing a string to the console always succeeds: the cursor stays inside the history of 1000 lines
  whatever is written, and while drawing is enabled the video memory shows exactly the last lines of the
  history. Text without newline and tab that fits on the line appears at the cursor, changes nothing else
  and moves the cursor by its length.\<close>
theorem terminal_write_correct:
  assumes "term_inv t" "rendering_enabled t \<longrightarrow> shown t"
  shows "\<exists>t'. terminal_write b s t = Some t' \<and> term_inv t' \<and> (rendering_enabled t \<longrightarrow> shown t') \<and>
    ((\<forall>c \<in> set s. plain c) \<and> terminal_column t + length s < TERM_WIDTH \<longrightarrow>
      terminal_column t' = terminal_column t + length s \<and> current_line t' = current_line t \<and>
      term_buffer t' = (term_buffer t)[current_line t := take (terminal_column t) (term_buffer t ! current_line t) @ s @
        drop (terminal_column t + length s) (term_buffer t ! current_line t)])"
  using write_ok [of t b s] write_plain [of t s b] assms by (auto simp: term_ok_def term_consts)

definition demo_terminal :: "unit terminal" where
  "demo_terminal = terminal_initialize null_bus \<lparr>term_buffer = [], term_color_buffer = [], scroll_offset = 0,
     current_line = 0, terminal_column = 0, terminal_color = 0, vga_memory = [], cursor_visible = True,
     rendering_enabled = True, dev = ()\<rparr>"

theorem terminal_write_correct_witness:
  "\<exists>t'. terminal_write null_bus ''AO-OS'' demo_terminal = Some t' \<and> shown t' \<and> terminal_column t' = 5"
proof -
  have t: "term_ok demo_terminal"
    unfolding demo_terminal_def by (rule initialize_ok)
  have "rendering_enabled demo_terminal" "terminal_column demo_terminal = 0"
    by (simp_all add: demo_terminal_def terminal_initialize_def blank_history_def terminal_show_cursor_def null_bus_def
        terminal_update_cursor_def)
  note t = t this
  show ?thesis
    using terminal_write_correct [of demo_terminal null_bus "''AO-OS''"] t
    by (auto simp: plain_def term_consts term_ok_def)
qed

end
