(* ===== verification/Keyboard.thy ===== *)
theory Keyboard
  imports Bus
begin

text \<open>
  The keyboard driver (\<open>kernel/drivers/input/keyboard.c\<close>, \<open>kernel/drivers/input/scancode.c\<close>): the
  translation of scancodes with its modifier state, and the ring buffer between the interrupt handler and
  the readers. The ring buffer is shown to be a bounded FIFO queue through the interface
  \<open>bounded_queue\<close>. \<open>None\<close> is a wait that does not end.
\<close>

unbundle bit_operations_syntax

section \<open>Scancodes\<close>

definition KEY_UP :: u8 where "KEY_UP = 0x80"
definition KEY_DOWN :: u8 where "KEY_DOWN = 0x81"
definition KEY_LEFT :: u8 where "KEY_LEFT = 0x82"
definition KEY_RIGHT :: u8 where "KEY_RIGHT = 0x83"
definition KEY_PAGEUP :: u8 where "KEY_PAGEUP = 0x84"
definition KEY_PAGEDOWN :: u8 where "KEY_PAGEDOWN = 0x85"

definition scancode_to_ascii :: string where
  "scancode_to_ascii = [NUL, CHR 27] @ ''1234567890-='' @ [CHR 8, CHR 9] @ ''qwertyuiop[]'' @ [CHR 10, NUL]
     @ ''asdfghjkl;'' @ [CHR 39] @ [CHR 96, NUL] @ [CHR 92] @ ''zxcvbnm,./'' @ [NUL] @ ''*'' @ [NUL] @ '' ''"

definition scancode_to_ascii_shift :: string where
  "scancode_to_ascii_shift = [NUL, CHR 27] @ ''!@#$%^&*()_+'' @ [CHR 8, CHR 9] @ ''QWERTYUIOP{}'' @ [CHR 10, NUL]
     @ ''ASDFGHJKL:'' @ [CHR 34] @ ''~'' @ [NUL] @ ''|ZXCVBNM<>?'' @ [NUL] @ ''*'' @ [NUL] @ '' ''"

record kb_state =
  kb_buffer :: "u8 list"
  kb_head :: nat
  kb_tail :: nat
  shift_pressed :: bool
  ctrl_pressed :: bool
  extended_key :: bool

definition extended_code :: "u8 \<Rightarrow> u8" where
  "extended_code sc =
     (if sc = 0x48 then KEY_UP else if sc = 0x50 then KEY_DOWN else if sc = 0x4B then KEY_LEFT
      else if sc = 0x4D then KEY_RIGHT else if sc = 0x49 then KEY_PAGEUP else if sc = 0x51 then KEY_PAGEDOWN else 0)"

definition translate_scancode :: "u8 \<Rightarrow> kb_state \<Rightarrow> u8 \<times> kb_state" where
  "translate_scancode sc k =
     (if sc = 0xE0 then (0, k\<lparr>extended_key := True\<rparr>)
      else if sc = 0x2A \<or> sc = 0x36 then (0, k\<lparr>shift_pressed := True\<rparr>)
      else if sc = 0xAA \<or> sc = 0xB6 then (0, k\<lparr>shift_pressed := False\<rparr>)
      else if sc = 0x1D then (0, k\<lparr>ctrl_pressed := True\<rparr>)
      else if sc = 0x9D then (0, k\<lparr>ctrl_pressed := False\<rparr>)
      else if sc AND 0x80 \<noteq> 0 then (0, k\<lparr>extended_key := False\<rparr>)
      else if extended_key k then (extended_code sc, k\<lparr>extended_key := False\<rparr>)
      else if unat sc < length scancode_to_ascii then
        (let ch :: u8 = of_nat (of_char (if shift_pressed k then scancode_to_ascii_shift ! unat sc else scancode_to_ascii ! unat sc))
         in if ctrl_pressed k \<and> ch \<ge> 97 \<and> ch \<le> 122 then (ch - 97 + 1, k)
            else if ctrl_pressed k \<and> ch \<ge> 65 \<and> ch \<le> 90 then (ch - 65 + 1, k)
            else (ch, k))
      else (0, k))"

section \<open>The ring buffer\<close>

definition KB_BUFFER_SIZE :: nat where "KB_BUFFER_SIZE = 256"

definition kb_push :: "u8 \<Rightarrow> kb_state \<Rightarrow> kb_state" where
  "kb_push ch k =
     (let nxt = (kb_head k + 1) mod KB_BUFFER_SIZE
      in if nxt \<noteq> kb_tail k then k\<lparr>kb_buffer := (kb_buffer k)[kb_head k := ch], kb_head := nxt\<rparr> else k)"

definition keyboard_irq_handler :: "'d bus \<Rightarrow> kb_state \<Rightarrow> 'd \<Rightarrow> kb_state \<times> 'd" where
  "keyboard_irq_handler b k d =
     (let (sc, d1) = inb b 0x60 d; (ch, k1) = translate_scancode sc k
      in (if ch \<noteq> 0 then kb_push ch k1 else k1, d1))"

definition keyboard_getchar :: "kb_state \<Rightarrow> u8 \<times> kb_state" where
  "keyboard_getchar k =
     (if kb_tail k \<noteq> kb_head k then (kb_buffer k ! kb_tail k, k\<lparr>kb_tail := (kb_tail k + 1) mod KB_BUFFER_SIZE\<rparr>)
      else (0, k))"

text \<open>Waiting for a key: \<open>hlt\<close> is what the interrupts that end the halt do to the keyboard state and the devices.\<close>

partial_function (option) keyboard_wait_for_key ::
    "(kb_state \<Rightarrow> 'd \<Rightarrow> kb_state \<times> 'd) \<Rightarrow> kb_state \<Rightarrow> 'd \<Rightarrow> (kb_state \<times> 'd) option" where
  "keyboard_wait_for_key hlt k d =
     (case keyboard_getchar k of (c, k1) \<Rightarrow>
        if c \<noteq> 0 then Some (k1, d) else (case hlt k1 d of (k2, d1) \<Rightarrow> keyboard_wait_for_key hlt k2 d1))"

section \<open>Controller initialisation\<close>

definition PS2_TIMEOUT :: nat where "PS2_TIMEOUT = 100000"

primrec ps2_wait :: "(u8 \<Rightarrow> bool) \<Rightarrow> 'd bus \<Rightarrow> nat \<Rightarrow> 'd \<Rightarrow> bool \<times> 'd" where
  "ps2_wait ready b 0 d = (False, d)"
| "ps2_wait ready b (Suc n) d = (case inb b 0x64 d of (s, d1) \<Rightarrow> if ready s then (True, d1) else ps2_wait ready b n d1)"

definition ps2_wait_input :: "'d bus \<Rightarrow> 'd \<Rightarrow> bool \<times> 'd" where
  "ps2_wait_input b d = ps2_wait (\<lambda>s. s AND 0x02 = 0) b PS2_TIMEOUT d"

definition ps2_wait_output :: "'d bus \<Rightarrow> 'd \<Rightarrow> bool \<times> 'd" where
  "ps2_wait_output b d = ps2_wait (\<lambda>s. s AND 0x01 \<noteq> 0) b PS2_TIMEOUT d"

partial_function (option) ps2_drain :: "'d bus \<Rightarrow> 'd \<Rightarrow> 'd option" where
  "ps2_drain b d = (case inb b 0x64 d of (s, d1) \<Rightarrow>
     if s AND 0x01 \<noteq> 0 then ps2_drain b (snd (inb b 0x60 d1)) else Some d1)"

definition ps2_configure :: "'d bus \<Rightarrow> 'd \<Rightarrow> 'd" where
  "ps2_configure b d =
     (let (ok1, d1) = ps2_wait_input b d; d2 = (if ok1 then outb b 0x64 0xAE d1 else d1);
          (ok2, d3) = ps2_wait_input b d2
      in if \<not> ok2 then d3
         else let (ok3, d4) = ps2_wait_output b (outb b 0x64 0x20 d3)
         in if \<not> ok3 then d4
            else let (config, d5) = inb b 0x60 d4;
                     config1 = (config OR 0x01) AND NOT 0x10;
                     (ok4, d6) = ps2_wait_input b d5
            in if \<not> ok4 then d6
               else let (ok5, d7) = ps2_wait_input b (outb b 0x64 0x60 d6)
               in if ok5 then outb b 0x60 config1 d7 else d7)"

definition keyboard_init :: "'d bus \<Rightarrow> kb_state \<Rightarrow> 'd \<Rightarrow> (kb_state \<times> 'd) option" where
  "keyboard_init b k d =
     Option.bind (ps2_drain b d) (\<lambda>d1.
     Option.bind (ps2_drain b (ps2_configure b d1)) (\<lambda>d2. Some (k\<lparr>kb_head := 0, kb_tail := 0\<rparr>, d2)))"

section \<open>A bounded queue\<close>

datatype 'a qevent = Push 'a | Pop

text \<open>The specification: a list of at most \<open>cap\<close> elements; what does not fit is dropped.\<close>

fun spec_run :: "nat \<Rightarrow> 'a qevent list \<Rightarrow> 'a list \<Rightarrow> 'a list \<times> 'a list" where
  "spec_run cap [] q = ([], q)"
| "spec_run cap (Push x # es) q = spec_run cap es (if length q < cap then q @ [x] else q)"
| "spec_run cap (Pop # es) [] = spec_run cap es []"
| "spec_run cap (Pop # es) (y # q) = (let (ys, q') = spec_run cap es q in (y # ys, q'))"

fun impl_run :: "('a \<Rightarrow> 'q \<Rightarrow> 'q) \<Rightarrow> ('q \<Rightarrow> 'a option \<times> 'q) \<Rightarrow> 'a qevent list \<Rightarrow> 'q \<Rightarrow> 'a list \<times> 'q" where
  "impl_run push pop [] q = ([], q)"
| "impl_run push pop (Push x # es) q = impl_run push pop es (push x q)"
| "impl_run push pop (Pop # es) q =
     (case pop q of
        (None, q1) \<Rightarrow> impl_run push pop es q1
      | (Some y, q1) \<Rightarrow> (let (ys, q2) = impl_run push pop es q1 in (y # ys, q2)))"

locale bounded_queue =
  fixes elems :: "'q \<Rightarrow> 'a list"
    and invar :: "'q \<Rightarrow> bool"
    and good :: "'a \<Rightarrow> bool"
    and push :: "'a \<Rightarrow> 'q \<Rightarrow> 'q"
    and pop :: "'q \<Rightarrow> 'a option \<times> 'q"
    and cap :: nat
  assumes push_elems: "invar q \<Longrightarrow> good x \<Longrightarrow>
      elems (push x q) = (if length (elems q) < cap then elems q @ [x] else elems q)"
    and push_invar: "invar q \<Longrightarrow> good x \<Longrightarrow> invar (push x q)"
    and pop_empty: "invar q \<Longrightarrow> elems q = [] \<Longrightarrow> pop q = (None, q)"
    and pop_elems: "invar q \<Longrightarrow> elems q = x # xs \<Longrightarrow> fst (pop q) = Some x \<and> elems (snd (pop q)) = xs"
    and pop_invar: "invar q \<Longrightarrow> invar (snd (pop q))"
begin

lemma run_refines:
  assumes "invar q" "\<forall>e \<in> set es. case e of Push x \<Rightarrow> good x | Pop \<Rightarrow> True"
  shows "fst (impl_run push pop es q) = fst (spec_run cap es (elems q)) \<and>
    elems (snd (impl_run push pop es q)) = snd (spec_run cap es (elems q))"
  using assms
proof (induction es arbitrary: q)
  case (Cons e es)
  show ?case
  proof (cases e)
    case (Push x)
    then show ?thesis
      using Cons.IH [of "push x q"] Cons.prems push_invar push_elems by simp
  next
    case Pop
    obtain r q1 where p: "pop q = (r, q1)"
      by fastforce
    have "invar q1"
      using pop_invar [OF Cons.prems(1)] p by simp
    then show ?thesis
      using Pop p Cons.IH [of q1] Cons.prems pop_empty pop_elems [OF Cons.prems(1)]
      by (cases "elems q") (auto simp: Let_def split: prod.splits)
  qed
qed simp

end

text \<open>In the specification, what comes out followed by what is left is what was accepted, in order.\<close>

lemma spec_run_fifo:
  assumes "length q + length (filter (\<lambda>e. e \<noteq> Pop) es) \<le> cap"
  shows "fst (spec_run cap es q) @ snd (spec_run cap es q) = q @ concat (map (\<lambda>e. case e of Push x \<Rightarrow> [x] | Pop \<Rightarrow> []) es)"
  using assms by (induction cap es q rule: spec_run.induct) (auto simp: Let_def split: prod.splits)

definition kb_elems :: "kb_state \<Rightarrow> u8 list" where
  "kb_elems k = map (\<lambda>i. kb_buffer k ! ((kb_tail k + i) mod 256)) [0..<(kb_head k + 256 - kb_tail k) mod 256]"

definition kb_invar :: "kb_state \<Rightarrow> bool" where
  "kb_invar k \<longleftrightarrow> length (kb_buffer k) = 256 \<and> kb_head k < 256 \<and> kb_tail k < 256 \<and> 0 \<notin> set (kb_elems k)"

definition kb_pop :: "kb_state \<Rightarrow> u8 option \<times> kb_state" where
  "kb_pop k = (case keyboard_getchar k of (c, k') \<Rightarrow> (if c = 0 then None else Some c, k'))"

section \<open>The ring buffer is a bounded queue\<close>

lemma ring_count: "h < 256 \<Longrightarrow> t < 256 \<Longrightarrow> (h + 256 - t) mod 256 = (if t \<le> h then h - t else h + 256 - t)" for h t :: nat
proof -
  assume "h < 256" "t < 256"
  moreover have "(h + 256 - t) mod 256 = h - t" if "t \<le> h"
  proof -
    have "h + 256 - t = (h - t) + 256"
      using that by simp
    then have "(h + 256 - t) mod 256 = (h - t) mod 256"
      by (metis mod_add_self2)
    then show ?thesis
      using \<open>h < 256\<close> by simp
  qed
  ultimately show ?thesis
    by auto
qed

lemma ring_wrap: "a < 512 \<Longrightarrow> a mod 256 = (if a < 256 then a else a - 256)" for a :: nat
  by (simp add: mod_if)

lemma ring_after_push:
  fixes h t :: nat
  assumes "h < 256" "t < 256" "(h + 1) mod 256 \<noteq> t"
  shows "((h + 1) mod 256 + 256 - t) mod 256 = Suc ((h + 256 - t) mod 256)"
proof (cases "h = 255")
  case True
  then show ?thesis
    using assms ring_count [of 0 t] ring_count [of 255 t] by simp
next
  case False
  then have "(h + 1) mod 256 = h + 1"
    using assms(1) by simp
  then show ?thesis
    using assms False ring_count [of "h + 1" t] ring_count [of h t] by auto
qed

lemma ring_index:
  fixes h t i :: nat
  assumes "h < 256" "t < 256" "i < (h + 256 - t) mod 256"
  shows "(t + i) mod 256 \<noteq> h"
  using assms ring_count [of h t] ring_wrap [of "t + i"] by (cases "t \<le> h") auto

lemma ring_last: "h < 256 \<Longrightarrow> t < 256 \<Longrightarrow> (t + (h + 256 - t) mod 256) mod 256 = h" for h t :: nat
  using ring_count [of h t] by (cases "t \<le> h") auto

lemma length_kb_elems: "kb_invar k \<Longrightarrow>
    length (kb_elems k) = (if kb_tail k \<le> kb_head k then kb_head k - kb_tail k else kb_head k + 256 - kb_tail k)"
  using ring_count [of "kb_head k" "kb_tail k"] by (simp add: kb_elems_def kb_invar_def)

lemma kb_push_full: "kb_invar k \<Longrightarrow> (kb_head k + 1) mod 256 = kb_tail k \<longleftrightarrow> \<not> length (kb_elems k) < 255"
  by (auto simp: length_kb_elems ring_wrap kb_invar_def split: if_splits)

lemma kb_push_elems:
  assumes inv: "kb_invar k"
  shows "kb_elems (kb_push x k) = (if length (kb_elems k) < 255 then kb_elems k @ [x] else kb_elems k)"
proof (cases "length (kb_elems k) < 255")
  case False
  then show ?thesis
    using kb_push_full [OF inv] by (simp add: kb_push_def KB_BUFFER_SIZE_def)
next
  case True
  define h where "h = kb_head k"
  define t where "t = kb_tail k"
  define n where "n = (h + 256 - t) mod 256"
  have b: "h < 256" "t < 256" "length (kb_buffer k) = 256"
    using inv by (auto simp: kb_invar_def h_def t_def)
  have p: "kb_push x k = k\<lparr>kb_buffer := (kb_buffer k)[h := x], kb_head := (h + 1) mod 256\<rparr>"
    using kb_push_full [OF inv] True by (auto simp: kb_push_def KB_BUFFER_SIZE_def h_def Let_def)
  have c: "((h + 1) mod 256 + 256 - t) mod 256 = Suc n"
    unfolding n_def using b kb_push_full [OF inv] True by (intro ring_after_push) (auto simp: h_def t_def)
  have last: "(t + n) mod 256 = h"
    unfolding n_def using b by (intro ring_last)
  have old: "(kb_buffer k)[h := x] ! ((t + i) mod 256) = kb_buffer k ! ((t + i) mod 256)" if "i < n" for i
    using ring_index [OF b(1,2), of i] that by (intro nth_list_update_neq) (auto simp: n_def)
  have "kb_elems (kb_push x k) = map (\<lambda>i. (kb_buffer k)[h := x] ! ((t + i) mod 256)) [0..<Suc n]"
    by (simp add: kb_elems_def p c [unfolded Suc_eq_plus1 [symmetric]] t_def [symmetric] del: upt_Suc)
  also have "\<dots> = map (\<lambda>i. kb_buffer k ! ((t + i) mod 256)) [0..<n] @ [x]"
    using last old b by simp
  finally show ?thesis
    using True by (simp add: kb_elems_def n_def h_def t_def)
qed

lemma kb_push_invar: "kb_invar k \<Longrightarrow> x \<noteq> 0 \<Longrightarrow> kb_invar (kb_push x k)"
  using kb_push_elems [of k x] by (auto simp: kb_invar_def kb_push_def KB_BUFFER_SIZE_def Let_def split: if_splits)

lemma kb_pop_elems:
  assumes inv: "kb_invar k"
  shows "kb_elems k = [] \<Longrightarrow> kb_pop k = (None, k)"
    and "kb_elems k = x # xs \<Longrightarrow> fst (kb_pop k) = Some x \<and> kb_elems (snd (kb_pop k)) = xs"
    and "kb_invar (snd (kb_pop k))"
proof -
  define h where "h = kb_head k"
  define t where "t = kb_tail k"
  define n where "n = (h + 256 - t) mod 256"
  have b: "h < 256" "t < 256" "length (kb_buffer k) = 256"
    using inv by (auto simp: kb_invar_def h_def t_def)
  have n: "n = (if t \<le> h then h - t else h + 256 - t)"
    using ring_count [OF b(1,2)] by (simp add: n_def)
  have e: "kb_elems k = map (\<lambda>i. kb_buffer k ! ((t + i) mod 256)) [0..<n]"
    by (simp add: kb_elems_def n_def h_def t_def)
  show 1: "kb_pop k = (None, k)" if "kb_elems k = []"
    using that e n b by (auto simp: kb_pop_def keyboard_getchar_def h_def t_def split: if_splits)
  have 2: "fst (kb_pop k) = Some x \<and> kb_elems (snd (kb_pop k)) = xs \<and> kb_invar (snd (kb_pop k))" if x: "kb_elems k = x # xs" for x xs
  proof -
    obtain m where m: "n = Suc m"
      using x e by (cases n) auto
    have ne: "t \<noteq> h"
      using n m by auto
    have x0: "x = kb_buffer k ! t" "x \<noteq> 0"
      using x e m b inv by (auto simp: kb_invar_def upt_conv_Cons simp del: upt_Suc)
    have p: "kb_pop k = (Some x, k\<lparr>kb_tail := (t + 1) mod 256\<rparr>)"
      using ne x0 by (simp add: kb_pop_def keyboard_getchar_def KB_BUFFER_SIZE_def h_def t_def)
    have c: "(h + 256 - (t + 1) mod 256) mod 256 = m"
      using ring_count [of h "(t + 1) mod 256"] b n m ring_wrap [of "t + 1"] by (cases "t = 255"; cases "t \<le> h") auto
    have "kb_elems (snd (kb_pop k)) = map (\<lambda>i. kb_buffer k ! (((t + 1) mod 256 + i) mod 256)) [0..<m]"
      by (simp add: p kb_elems_def c [unfolded Suc_eq_plus1 [symmetric]] h_def [symmetric])
    also have "\<dots> = map (\<lambda>i. kb_buffer k ! ((t + Suc i) mod 256)) [0..<m]"
      by (simp add: mod_add_left_eq)
    also have "\<dots> = xs"
      using x unfolding e m by (simp add: upt_conv_Cons map_Suc_upt [symmetric] o_def del: upt_Suc map_Suc_upt)
    finally have xs: "kb_elems (snd (kb_pop k)) = xs" .
    moreover have "0 \<notin> set xs"
      using inv x by (auto simp: kb_invar_def)
    ultimately show ?thesis
      using p b inv by (simp add: kb_invar_def)
  qed
  show "kb_invar (snd (kb_pop k))"
    using 1 2 inv by (cases "kb_elems k") auto
  show "fst (kb_pop k) = Some x \<and> kb_elems (snd (kb_pop k)) = xs" if "kb_elems k = x # xs"
    using 2 [OF that] by simp
qed

interpretation kb: bounded_queue kb_elems kb_invar "\<lambda>x. x \<noteq> 0" kb_push kb_pop 255
  by unfold_locales (auto simp: kb_push_elems kb_push_invar kb_pop_elems)

section \<open>Properties\<close>

text \<open>C25. The keyboard ring buffer is a FIFO queue of 255 characters: for every interleaving of interrupts that
  store a character and readers that take one, the readers receive exactly what the list queue would give
  them, in order; only characters that arrive when 255 are waiting are dropped.\<close>
theorem keyboard_ring_fifo:
  assumes "kb_invar k" "\<forall>e \<in> set es. e \<noteq> Push 0"
  shows "fst (impl_run kb_push kb_pop es k) = fst (spec_run 255 es (kb_elems k)) \<and>
    kb_elems (snd (impl_run kb_push kb_pop es k)) = snd (spec_run 255 es (kb_elems k))"
proof -
  have "\<forall>e \<in> set es. case e of Push x \<Rightarrow> x \<noteq> 0 | Pop \<Rightarrow> True"
    using assms(2) by (auto split: qevent.splits)
  then show ?thesis
    using assms(1) by (simp add: kb.run_refines)
qed

definition demo_kb :: kb_state where
  "demo_kb = \<lparr>kb_buffer = replicate 256 0, kb_head = 255, kb_tail = 255, shift_pressed = False, ctrl_pressed = False,
     extended_key = False\<rparr>"

theorem keyboard_ring_fifo_witness:
  "fst (impl_run kb_push kb_pop [Push 97, Push 98, Pop, Pop, Pop] demo_kb) = [97, 98]"
proof -
  have "kb_invar demo_kb" "kb_elems demo_kb = []"
    by (simp_all add: demo_kb_def kb_invar_def kb_elems_def)
  then show ?thesis
    using keyboard_ring_fifo [of demo_kb "[Push 97, Push 98, Pop, Pop, Pop]"] by simp
qed

end
