(* ===== verification/Rtc.thy ===== *)
theory Rtc
  imports Bus
begin

text \<open>
  The real-time clock driver (\<open>kernel/drivers/time/rtc.c\<close>). The CMOS chip is behind the index and data
  ports of the bus; \<open>None\<close> is a clock whose update flag never clears.
\<close>

unbundle bit_operations_syntax

definition CMOS_ADDR :: u16 where "CMOS_ADDR = 0x70"
definition CMOS_DATA :: u16 where "CMOS_DATA = 0x71"

record rtc_time =
  second :: u8
  minute :: u8
  hour :: u8
  day :: u8
  month :: u8
  year :: u16
  weekday :: u8

definition cmos_read :: "'d bus \<Rightarrow> u8 \<Rightarrow> 'd \<Rightarrow> u8 \<times> 'd" where
  "cmos_read b reg d = inb b CMOS_DATA (outb b CMOS_ADDR reg d)"

definition bcd_to_bin :: "u8 \<Rightarrow> u8" where
  "bcd_to_bin bcd = drop_bit 4 bcd * 10 + (bcd AND 0x0F)"

definition cmos_updating :: "'d bus \<Rightarrow> 'd \<Rightarrow> bool \<times> 'd" where
  "cmos_updating b d = (case inb b CMOS_DATA (outb b CMOS_ADDR 0x0A d) of (v, d1) \<Rightarrow> (v AND 0x80 \<noteq> 0, d1))"

partial_function (option) cmos_wait :: "'d bus \<Rightarrow> 'd \<Rightarrow> 'd option" where
  "cmos_wait b d = (case cmos_updating b d of (u, d1) \<Rightarrow> if u then cmos_wait b d1 else Some d1)"

text \<open>The conversions after the reads; \<open>hour_reg\<close> is the second read of register 4 and \<open>regb\<close> the mode register.\<close>

definition from_mode :: "u8 \<Rightarrow> u8 \<Rightarrow> u8" where
  "from_mode regb v = (if regb AND 0x04 = 0 then bcd_to_bin v else v)"

definition convert_hour :: "u8 \<Rightarrow> u8 \<Rightarrow> u8 \<Rightarrow> u8" where
  "convert_hour regb h hour_reg =
     (let h1 = (if regb AND 0x04 = 0 then bcd_to_bin (h AND 0x7F) else h)
      in if regb AND 0x02 = 0 \<and> hour_reg AND 0x80 \<noteq> 0 then of_nat ((unat (h1 AND 0x7F) + 12) mod 24) else h1)"

definition rtc_read :: "'d bus \<Rightarrow> 'd \<Rightarrow> (rtc_time \<times> 'd) option" where
  "rtc_read b d = Option.bind (cmos_wait b d) (\<lambda>d0.
     (let (sec, d1) = cmos_read b 0x00 d0; (minu, d2) = cmos_read b 0x02 d1; (hr, d3) = cmos_read b 0x04 d2;
          (dy, d4) = cmos_read b 0x07 d3; (mon, d5) = cmos_read b 0x08 d4; (yr, d6) = cmos_read b 0x09 d5;
          (wday, d7) = cmos_read b 0x06 d6; (regb, d8) = cmos_read b 0x0B d7;
          (hour_reg, d9) = (if regb AND 0x02 = 0 then cmos_read b 0x04 d8 else (0, d8))
      in Some (\<lparr>second = from_mode regb sec, minute = from_mode regb minu, hour = convert_hour regb hr hour_reg,
                day = from_mode regb dy, month = from_mode regb mon, year = 2000 + ucast (from_mode regb yr),
                weekday = from_mode regb wday\<rparr>, d9)))"

section \<open>Decoding\<close>

definition to_bcd :: "nat \<Rightarrow> u8" where
  "to_bcd n = of_nat (n div 10 * 16 + n mod 10)"

lemma bcd_roundtrip_all: "\<forall>n < 100. bcd_to_bin (to_bcd n) = of_nat n"
  unfolding all_less_upt by code_simp

lemma bcd_roundtrip: "n < 100 \<Longrightarrow> bcd_to_bin (to_bcd n) = of_nat n"
  using bcd_roundtrip_all by blast

text \<open>What the clock chip holds for hour \<open>h\<close> of the day: register B selects BCD or binary and 24 or 12 hours; in
  12-hour mode the hours are 12, 1, \<open>\<dots>\<close>, 11 and bit 7 marks the afternoon.\<close>

definition encode :: "u8 \<Rightarrow> nat \<Rightarrow> u8" where
  "encode regb n = (if regb AND 0x04 = 0 then to_bcd n else of_nat n)"

definition encode_hour :: "u8 \<Rightarrow> nat \<Rightarrow> u8" where
  "encode_hour regb h =
     (if regb AND 0x02 \<noteq> 0 then encode regb h
      else encode regb (if h mod 12 = 0 then 12 else h mod 12) OR (if h \<ge> 12 then 0x80 else 0))"

lemma from_mode_encode: "n < 100 \<Longrightarrow> from_mode regb (encode regb n) = of_nat n"
  by (simp add: from_mode_def encode_def bcd_roundtrip)

lemma convert_hour_cases:
  assumes "h < 24"
  shows "convert_hour regb (encode_hour regb h) (if regb AND 0x02 = 0 then encode_hour regb h else 0) =
    (if regb AND 0x02 = 0 \<and> h mod 12 = 0 then (if h = 0 then 12 else 0) else of_nat h)"
proof -
  have "\<forall>p q. \<forall>h < 24.
      (let e = (\<lambda>n. if p then to_bcd n else of_nat n :: u8);
           r = (if \<not> q then e h else e (if h mod 12 = 0 then 12 else h mod 12) OR (if h \<ge> 12 then 0x80 else 0));
           s = (if q then r else 0);
           h1 = (if p then bcd_to_bin (r AND 0x7F) else r)
       in (if q \<and> s AND 0x80 \<noteq> 0 then of_nat ((unat (h1 AND 0x7F) + 12) mod 24) else h1) =
          (if q \<and> h mod 12 = 0 then (if h = 0 then 12 else 0) else of_nat h))"
    unfolding all_less_upt by code_simp
  from this [rule_format, OF assms, of "regb AND 0x04 = 0" "regb AND 0x02 = 0"] show ?thesis
    by (auto simp: convert_hour_def encode_hour_def encode_def Let_def)
qed

section \<open>Properties\<close>

text \<open>The chip as the driver relies on it: reading the data port gives the register selected through the index
  port, and no update happens during the reads.\<close>

definition cmos_chip :: "'d bus \<Rightarrow> (u8 \<Rightarrow> u8) \<Rightarrow> bool" where
  "cmos_chip b regs \<longleftrightarrow> (\<forall>reg d. fst (inb b CMOS_DATA (outb b CMOS_ADDR reg d)) = regs reg) \<and> regs 0x0A AND 0x80 = 0"

lemma cmos_read_chip: "cmos_chip b regs \<Longrightarrow> cmos_read b reg d = (regs reg, snd (cmos_read b reg d))"
  by (simp add: cmos_chip_def cmos_read_def prod_eq_iff)

lemma cmos_wait_chip: "cmos_chip b regs \<Longrightarrow> \<exists>d'. cmos_wait b d = Some d'"
  by (subst cmos_wait.simps) (auto simp: cmos_chip_def cmos_updating_def split: prod.splits, metis fst_conv)

lemma rtc_read_chip:
  assumes c: "cmos_chip b regs"
  defines "rb \<equiv> regs 0x0B"
  shows "\<exists>d'. rtc_read b d = Some (\<lparr>second = from_mode rb (regs 0), minute = from_mode rb (regs 2),
    hour = convert_hour rb (regs 4) (if rb AND 0x02 = 0 then regs 4 else 0), day = from_mode rb (regs 7),
    month = from_mode rb (regs 8), year = 2000 + ucast (from_mode rb (regs 9)), weekday = from_mode rb (regs 6)\<rparr>, d')"
proof -
  obtain d0 where w: "cmos_wait b d = Some d0"
    using cmos_wait_chip [OF c] by blast
  have r: "\<exists>e. cmos_read b reg d = (regs reg, e)" for reg d
    using cmos_read_chip [OF c, of reg d] by metis
  obtain d1 d2 d3 d4 d5 d6 d7 d8 d9 where
    "cmos_read b 0 d0 = (regs 0, d1)" "cmos_read b 2 d1 = (regs 2, d2)" "cmos_read b 4 d2 = (regs 4, d3)"
    "cmos_read b 7 d3 = (regs 7, d4)" "cmos_read b 8 d4 = (regs 8, d5)" "cmos_read b 9 d5 = (regs 9, d6)"
    "cmos_read b 6 d6 = (regs 6, d7)" "cmos_read b 0x0B d7 = (regs 0x0B, d8)" "cmos_read b 4 d8 = (regs 4, d9)"
    using r by metis
  then show ?thesis
    unfolding rtc_read_def rb_def by (simp add: w)
qed

text \<open>C31. Reading the clock returns the time of day and the date that the chip holds, in each of its four modes (BCD
  or binary, 24 or 12 hours), except in the hours from midnight and from noon of a clock in 12-hour mode, where the hour returned is the other one:
  12 for midnight and 0 for noon.\<close>
theorem rtc_read_correct:
  assumes c: "cmos_chip b regs" and r: "regs 0x0B = rb"
    and "regs 0 = encode rb s" "regs 2 = encode rb m" "regs 4 = encode_hour rb h" "regs 7 = encode rb dd"
      "regs 8 = encode rb mm" "regs 9 = encode rb yy" "regs 6 = encode rb w"
    and "s < 60" "m < 60" "h < 24" "dd < 32" "mm < 13" "yy < 100" "w < 8"
  shows "\<exists>d'. rtc_read b d = Some (\<lparr>second = of_nat s, minute = of_nat m,
    hour = (if rb AND 0x02 = 0 \<and> h mod 12 = 0 then 12 - of_nat h else of_nat h),
    day = of_nat dd, month = of_nat mm, year = of_nat (2000 + yy), weekday = of_nat w\<rparr>, d')"
proof -
  have y: "2000 + ucast (of_nat yy :: u8) = (of_nat (2000 + yy) :: u16)"
    using assms(15) by (simp add: unsigned_of_nat take_bit_nat_eq_self)
  have h: "h mod 12 = 0 \<longleftrightarrow> h = 0 \<or> h = 12"
    using assms(12) by (auto simp: mod_if)
  show ?thesis
    using rtc_read_chip [OF c, of d] assms(3-16) convert_hour_cases [of h rb] h
    by (auto simp: r from_mode_encode y)
qed

definition demo_cmos :: "u8 bus" where
  "demo_cmos = \<lparr>inb = (\<lambda>p d. (if d = 0x0B then 0 else if d = 0x04 then 0x92 else if d = 0x0A then 0x26
       else if d = 9 then 0x26 else 0x01, d)), outb = (\<lambda>p v d. v), inw = (\<lambda>p d. (0, d)), outw = (\<lambda>p v d. d),
     inl = (\<lambda>p d. (0, d)), outl = (\<lambda>p v d. d)\<rparr>"

theorem rtc_read_correct_witness:
  "\<exists>d'. rtc_read demo_cmos 0 = Some (\<lparr>second = 1, minute = 1, hour = 0, day = 1, month = 1, year = 2026, weekday = 1\<rparr>, d')"
  using rtc_read_correct [of demo_cmos "\<lambda>d. if d = 0x0B then 0 else if d = 0x04 then 0x92 else if d = 0x0A then 0x26
       else if d = 9 then 0x26 else 0x01" 0 1 1 12 1 1 26 1 0]
  by (simp add: demo_cmos_def cmos_chip_def encode_def encode_hour_def to_bcd_def)

end
