(* ===== verification/Ata.thy ===== *)
theory Ata
  imports Terminal
begin

text \<open>
  The ATA disk driver (\<open>kernel/drivers/storage/ata.c\<close>). What the driver relies on of the drive is the
  interface \<open>ata_drive\<close>: registers, a medium of sectors and the state of a transfer, seen through a function
  from the state of the devices, with the effect of each port access. In it the driver's two operations are
  shown to meet the interface \<open>sector_store\<close> that file systems use. In the results the outer \<open>None\<close> is a
  serial port that never accepts a log message, the inner \<open>None\<close> and \<open>False\<close> are the return value -1.
\<close>

unbundle bit_operations_syntax

section \<open>Registers and state\<close>

definition ATA_REG_DATA :: u16 where "ATA_REG_DATA = 0x1F0"
definition ATA_REG_SECCOUNT :: u16 where "ATA_REG_SECCOUNT = 0x1F2"
definition ATA_REG_LBA_LOW :: u16 where "ATA_REG_LBA_LOW = 0x1F3"
definition ATA_REG_LBA_MID :: u16 where "ATA_REG_LBA_MID = 0x1F4"
definition ATA_REG_LBA_HIGH :: u16 where "ATA_REG_LBA_HIGH = 0x1F5"
definition ATA_REG_DRIVE :: u16 where "ATA_REG_DRIVE = 0x1F6"
definition ATA_REG_STATUS :: u16 where "ATA_REG_STATUS = 0x1F7"
definition ATA_REG_COMMAND :: u16 where "ATA_REG_COMMAND = 0x1F7"
definition ATA_CMD_READ_PIO :: u8 where "ATA_CMD_READ_PIO = 0x20"
definition ATA_CMD_WRITE_PIO :: u8 where "ATA_CMD_WRITE_PIO = 0x30"
definition ATA_CMD_IDENTIFY :: u8 where "ATA_CMD_IDENTIFY = 0xEC"
definition ATA_STATUS_BSY :: u8 where "ATA_STATUS_BSY = 0x80"
definition ATA_STATUS_DRQ :: u8 where "ATA_STATUS_DRQ = 0x08"
definition ATA_STATUS_ERR :: u8 where "ATA_STATUS_ERR = 0x01"
definition ATA_TIMEOUT :: nat where "ATA_TIMEOUT = 1000000"

text \<open>The driver's variables.\<close>

record ata_state =
  ata_available :: bool
  ata_sector_count :: u32
  ata_drive_select :: u8

section \<open>Operations\<close>

primrec ata_poll :: "(u8 \<Rightarrow> bool) \<Rightarrow> 'd bus \<Rightarrow> nat \<Rightarrow> 'd \<Rightarrow> bool \<times> 'd" where
  "ata_poll ready b 0 d = (False, d)"
| "ata_poll ready b (Suc n) d =
     (case inb b ATA_REG_STATUS d of (s, d1) \<Rightarrow> if ready s then (True, d1) else ata_poll ready b n d1)"

definition ata_wait_bsy :: "'d bus \<Rightarrow> 'd \<Rightarrow> bool \<times> 'd" where
  "ata_wait_bsy b d = ata_poll (\<lambda>s. s AND ATA_STATUS_BSY = 0) b ATA_TIMEOUT d"

definition ata_wait_drq :: "'d bus \<Rightarrow> 'd \<Rightarrow> bool \<times> 'd" where
  "ata_wait_drq b d = ata_poll (\<lambda>s. s AND ATA_STATUS_DRQ \<noteq> 0) b ATA_TIMEOUT d"

text \<open>The part of \<open>ata_init\<close> after the drive has answered: IDENTIFY, whose words 60 and 61 are the capacity.\<close>

definition ata_identify :: "'d bus \<Rightarrow> ata_state \<Rightarrow> 'd \<Rightarrow> ata_state \<times> 'd" where
  "ata_identify b a d =
     (let d1 = fold (\<lambda>(r, v). outb b r v) [(ATA_REG_DRIVE, 0xA0), (ATA_REG_SECCOUNT, 0), (ATA_REG_LBA_LOW, 0),
                 (ATA_REG_LBA_MID, 0), (ATA_REG_LBA_HIGH, 0), (ATA_REG_COMMAND, ATA_CMD_IDENTIFY)] d;
          (ok1, d2) = ata_wait_bsy b d1
      in if \<not> ok1 then (a, d2)
         else let (ok2, d3) = ata_wait_drq b d2
         in if \<not> ok2 then (a, d3)
            else let (ws, d4) = insw b ATA_REG_DATA 256 d3
            in (a\<lparr>ata_sector_count := ucast (ws ! 60) OR push_bit 16 (ucast (ws ! 61))\<rparr>, d4))"

definition ata_init :: "'d bus \<Rightarrow> ata_state \<Rightarrow> 'd terminal \<Rightarrow> (ata_state \<times> 'd terminal) option" where
  "ata_init b a t =
     Option.bind (klog_info b ''Initializing ATA driver...'' t) (\<lambda>t1.
     (let (ok1, d1) = ata_wait_bsy b (outb b ATA_REG_DRIVE 0xA0 (dev t1))
      in if \<not> ok1 then
           map_option (\<lambda>t2. (a\<lparr>ata_available := False\<rparr>, t2))
             (klog_warn b ''ATA drive not responding (timeout)'' (t1\<lparr>dev := d1\<rparr>))
         else let (status, d2) = inb b ATA_REG_STATUS d1
         in if status = 0xFF \<or> status = 0x00 then
              map_option (\<lambda>t2. (a\<lparr>ata_available := False\<rparr>, t2)) (klog_warn b ''No ATA drive detected'' (t1\<lparr>dev := d2\<rparr>))
            else let (a1, d3) = ata_identify b a d2
            in map_option (\<lambda>t2. (a1\<lparr>ata_available := True\<rparr>, t2))
                 (klog_info b ''ATA driver initialized'' (t1\<lparr>dev := d3\<rparr>))))"

definition ata_is_available :: "ata_state \<Rightarrow> bool" where
  "ata_is_available a = ata_available a"

definition ata_get_sector_count :: "ata_state \<Rightarrow> u32" where
  "ata_get_sector_count a = ata_sector_count a"

definition ata_select_drive :: "bool \<Rightarrow> ata_state \<Rightarrow> ata_state" where
  "ata_select_drive slave a = a\<lparr>ata_drive_select := (if slave then 0xF0 else 0xE0)\<rparr>"

text \<open>Programming the drive, the sector number and the command, as both transfers do.\<close>

definition ata_issue :: "'d bus \<Rightarrow> u8 \<Rightarrow> u32 \<Rightarrow> u8 \<Rightarrow> 'd \<Rightarrow> 'd" where
  "ata_issue b sel lba cmd d =
     fold (\<lambda>(r, v). outb b r v)
       [(ATA_REG_DRIVE, sel OR ucast (drop_bit 24 lba AND 0x0F)), (ATA_REG_SECCOUNT, 1), (ATA_REG_LBA_LOW, ucast lba),
        (ATA_REG_LBA_MID, ucast (drop_bit 8 lba)), (ATA_REG_LBA_HIGH, ucast (drop_bit 16 lba)), (ATA_REG_COMMAND, cmd)] d"

definition word_bytes :: "u16 list \<Rightarrow> bytes" where
  "word_bytes ws = concat (map (\<lambda>w. [ucast w, ucast (drop_bit 8 w)]) ws)"

definition byte_words :: "bytes \<Rightarrow> u16 list" where
  "byte_words buf = map (\<lambda>i. get16 buf (i * 2)) [0..<256]"

definition ata_read_sector :: "'d bus \<Rightarrow> ata_state \<Rightarrow> u32 \<Rightarrow> 'd terminal \<Rightarrow> (bytes option \<times> 'd terminal) option" where
  "ata_read_sector b a lba t =
     (let (ok1, d1) = ata_wait_bsy b (dev t)
      in if \<not> ok1 then Some (None, t\<lparr>dev := d1\<rparr>)
         else let (ok2, d2) = ata_wait_bsy b (ata_issue b (ata_drive_select a) lba ATA_CMD_READ_PIO d1)
         in if \<not> ok2 then Some (None, t\<lparr>dev := d2\<rparr>)
            else let (status, d3) = inb b ATA_REG_STATUS d2
            in if status AND ATA_STATUS_ERR \<noteq> 0 then map_option (Pair None) (klog_error b ''ATA read error'' (t\<lparr>dev := d3\<rparr>))
               else let (ok3, d4) = ata_wait_drq b d3
               in if \<not> ok3 then Some (None, t\<lparr>dev := d4\<rparr>)
                  else let (ws, d5) = insw b ATA_REG_DATA 256 d4
                  in Some (Some (word_bytes ws), t\<lparr>dev := d5\<rparr>))"

definition ata_write_sector :: "'d bus \<Rightarrow> ata_state \<Rightarrow> u32 \<Rightarrow> bytes \<Rightarrow> 'd terminal \<Rightarrow> bool \<times> 'd terminal" where
  "ata_write_sector b a lba buf t =
     (let (ok1, d1) = ata_wait_bsy b (dev t)
      in if \<not> ok1 then (False, t\<lparr>dev := d1\<rparr>)
         else let (ok2, d2) = ata_wait_bsy b (ata_issue b (ata_drive_select a) lba ATA_CMD_WRITE_PIO d1)
         in if \<not> ok2 then (False, t\<lparr>dev := d2\<rparr>)
            else let (ok3, d3) = ata_wait_drq b d2
            in if \<not> ok3 then (False, t\<lparr>dev := d3\<rparr>)
               else let (ok4, d4) = ata_wait_bsy b (outb b ATA_REG_COMMAND 0xE7 (outsw b ATA_REG_DATA (byte_words buf) d3))
               in (ok4, t\<lparr>dev := d4\<rparr>))"

section \<open>Sector stores\<close>

text \<open>The contract of a disk for its clients: over an abstract disk \<open>content\<close>, a read returns or gives the sector,
  and a successful write replaces it. Sector numbers have 28 bits. Nothing is promised after a failed write.\<close>

datatype disk_op = ReadSec u32 | WriteSec u32 bytes

fun op_ok :: "disk_op \<Rightarrow> bool" where
  "op_ok (ReadSec lba) \<longleftrightarrow> lba < 0x10000000"
| "op_ok (WriteSec lba v) \<longleftrightarrow> lba < 0x10000000 \<and> length v = 512"

text \<open>A sequence of operations up to the first failed write: what the reads gave, and whether no write failed.\<close>

fun run_ops :: "(u32 \<Rightarrow> 's \<Rightarrow> (bytes option \<times> 's) option) \<Rightarrow> (u32 \<Rightarrow> bytes \<Rightarrow> 's \<Rightarrow> (bool \<times> 's) option) \<Rightarrow>
    disk_op list \<Rightarrow> 's \<Rightarrow> (bytes option list \<times> bool \<times> 's) option" where
  "run_ops rd wr [] s = Some ([], True, s)"
| "run_ops rd wr (ReadSec lba # ops) s =
     Option.bind (rd lba s) (\<lambda>(r, s1). map_option (\<lambda>(rs, res). (r # rs, res)) (run_ops rd wr ops s1))"
| "run_ops rd wr (WriteSec lba v # ops) s =
     Option.bind (wr lba v s) (\<lambda>(ok, s1). if ok then run_ops rd wr ops s1 else Some ([], False, s1))"

fun spec_reads :: "disk_op list \<Rightarrow> (u32 \<Rightarrow> bytes) \<Rightarrow> bytes list" where
  "spec_reads [] D = []"
| "spec_reads (ReadSec lba # ops) D = D lba # spec_reads ops D"
| "spec_reads (WriteSec lba v # ops) D = spec_reads ops (D(lba := v))"

fun spec_disk :: "disk_op list \<Rightarrow> (u32 \<Rightarrow> bytes) \<Rightarrow> u32 \<Rightarrow> bytes" where
  "spec_disk [] D = D"
| "spec_disk (ReadSec lba # ops) D = spec_disk ops D"
| "spec_disk (WriteSec lba v # ops) D = spec_disk ops (D(lba := v))"

text \<open>What was read agrees with the disk, as far as it was read: the reads of a run that stopped early are a prefix.\<close>

fun reads_agree :: "bytes option list \<Rightarrow> bytes list \<Rightarrow> bool" where
  "reads_agree [] vs \<longleftrightarrow> True"
| "reads_agree (r # rs) (v # vs) \<longleftrightarrow> (r = None \<or> r = Some v) \<and> reads_agree rs vs"
| "reads_agree (r # rs) [] \<longleftrightarrow> False"

locale sector_store =
  fixes rd :: "u32 \<Rightarrow> 's \<Rightarrow> (bytes option \<times> 's) option"
    and wr :: "u32 \<Rightarrow> bytes \<Rightarrow> 's \<Rightarrow> (bool \<times> 's) option"
    and content :: "'s \<Rightarrow> u32 \<Rightarrow> bytes"
    and invar :: "'s \<Rightarrow> bool"
  assumes rd_spec: "invar s \<Longrightarrow> lba < 0x10000000 \<Longrightarrow>
      \<exists>r s'. rd lba s = Some (r, s') \<and> invar s' \<and> content s' = content s \<and> (r = None \<or> r = Some (content s lba))"
    and wr_spec: "invar s \<Longrightarrow> lba < 0x10000000 \<Longrightarrow> length v = 512 \<Longrightarrow>
      \<exists>ok s'. wr lba v s = Some (ok, s') \<and> (ok \<longrightarrow> invar s' \<and> content s' = (content s)(lba := v))"
    and content_length: "invar s \<Longrightarrow> length (content s lba) = 512"
begin

lemma run_ops_correct:
  "invar s \<Longrightarrow> list_all op_ok ops \<Longrightarrow>
   \<exists>rs ok s'. run_ops rd wr ops s = Some (rs, ok, s') \<and> reads_agree rs (spec_reads ops (content s)) \<and>
     (ok \<longrightarrow> length rs = length (spec_reads ops (content s)) \<and> invar s' \<and> content s' = spec_disk ops (content s))"
proof (induction ops arbitrary: s)
  case (Cons op ops)
  show ?case
  proof (cases op)
    case (ReadSec lba)
    obtain r s1 where "rd lba s = Some (r, s1)" "invar s1" "content s1 = content s" "r = None \<or> r = Some (content s lba)"
      using rd_spec [of s lba] Cons.prems ReadSec by auto
    then show ?thesis
      using Cons.IH [of s1] Cons.prems ReadSec by auto
  next
    case (WriteSec lba v)
    obtain ok s1 where "wr lba v s = Some (ok, s1)" "ok \<longrightarrow> invar s1 \<and> content s1 = (content s)(lba := v)"
      using wr_spec [of s lba v] Cons.prems WriteSec by auto
    then show ?thesis
      using Cons.IH [of s1] Cons.prems WriteSec by (cases ok) (auto simp: fun_upd_def)
  qed
qed auto

end

section \<open>The drive\<close>

datatype transfer = Idle | Reading "u16 list" | Writing bool u32 "u16 list"

record drive_view =
  r_drive :: u8
  r_count :: u8
  r_low :: u8
  r_mid :: u8
  r_high :: u8
  medium :: "bool \<Rightarrow> u32 \<Rightarrow> u16 list"
  transfer :: transfer
  drq_seen :: bool

text \<open>The unit (slave or not) and the 28-bit sector number that the registers select.\<close>

definition sel_unit :: "u8 \<Rightarrow> bool" where
  "sel_unit v \<longleftrightarrow> bit v 4"

definition sel_lba :: "drive_view \<Rightarrow> u32" where
  "sel_lba v = ucast (r_low v) OR push_bit 8 (ucast (r_mid v)) OR push_bit 16 (ucast (r_high v)) OR
     push_bit 24 (ucast (r_drive v AND 0x0F))"

text \<open>What a drive does on the port accesses of the driver: the registers hold what is written; a status read
  changes nothing but tells whether data may be transferred; the read command offers the words of the
  selected sector, one for each read of the data port; the write command takes 256 words and then stores
  them. The serial port, which the log is written to, can always send, and the display and serial ports
  are not those of the drive. A drive may refuse any command by not becoming ready or by setting the error flag.\<close>

locale ata_drive =
  fixes b :: "'d bus" and view :: "'d \<Rightarrow> drive_view"
  assumes out_drive: "view (outb b 0x1F6 v d) = (view d)\<lparr>r_drive := v\<rparr>"
    and out_count: "view (outb b 0x1F2 v d) = (view d)\<lparr>r_count := v\<rparr>"
    and out_low: "view (outb b 0x1F3 v d) = (view d)\<lparr>r_low := v\<rparr>"
    and out_mid: "view (outb b 0x1F4 v d) = (view d)\<lparr>r_mid := v\<rparr>"
    and out_high: "view (outb b 0x1F5 v d) = (view d)\<lparr>r_high := v\<rparr>"
    and out_read: "r_count (view d) = 1 \<Longrightarrow> view (outb b 0x1F7 0x20 d) =
        (view d)\<lparr>transfer := Reading (medium (view d) (sel_unit (r_drive (view d))) (sel_lba (view d))), drq_seen := False\<rparr>"
    and out_write: "r_count (view d) = 1 \<Longrightarrow> view (outb b 0x1F7 0x30 d) =
        (view d)\<lparr>transfer := Writing (sel_unit (r_drive (view d))) (sel_lba (view d)) [], drq_seen := False\<rparr>"
    and out_flush: "view (outb b 0x1F7 0xE7 d) = (view d)\<lparr>transfer := Idle, drq_seen := False\<rparr>"
    and in_status: "view (snd (inb b 0x1F7 d)) = (view d)\<lparr>drq_seen := (fst (inb b 0x1F7 d) AND 0x08 \<noteq> 0)\<rparr>"
    and in_data: "drq_seen (view d) \<Longrightarrow> transfer (view d) = Reading (w # ws) \<Longrightarrow>
        fst (inw b 0x1F0 d) = w \<and> view (snd (inw b 0x1F0 d)) = (view d)\<lparr>transfer := Reading ws\<rparr>"
    and out_data: "drq_seen (view d) \<Longrightarrow> transfer (view d) = Writing s l ws \<Longrightarrow> length ws < 255 \<Longrightarrow>
        view (outw b 0x1F0 w d) = (view d)\<lparr>transfer := Writing s l (ws @ [w])\<rparr>"
    and out_last: "drq_seen (view d) \<Longrightarrow> transfer (view d) = Writing s l ws \<Longrightarrow> length ws = 255 \<Longrightarrow>
        view (outw b 0x1F0 w d) =
          (view d)\<lparr>transfer := Idle, medium := (medium (view d))(s := (medium (view d) s)(l := ws @ [w]))\<rparr>"
    and others: "p = 0x3D4 \<or> p = 0x3D5 \<or> p = 0x3F8 \<Longrightarrow> view (outb b p v d) = view d"
    and others_in: "view (snd (inb b 0x3FD d)) = view d"
    and serial: "fst (inb b 0x3FD d) AND 0x20 \<noteq> 0"
begin

lemma ready_serial: "serial_ready b"
  using serial by (simp add: serial_ready_def COM1_def)

lemma safe_console: "console_safe b (\<lambda>d. view d = V)"
  using others others_in by (simp add: console_safe_def COM1_def)

lemma poll_view: "ata_poll f b n d = (r, d') \<Longrightarrow> \<exists>q. view d' = (view d)\<lparr>drq_seen := q\<rparr>"
proof (induction n arbitrary: d)
  case 0
  then show ?case
    by (intro exI [of _ "drq_seen (view d)"]) simp
next
  case (Suc n)
  show ?case
    using Suc.prems Suc.IH [of "snd (inb b 0x1F7 d)"] in_status [of d]
    by (auto simp: ATA_REG_STATUS_def split_beta split: if_splits)
qed

lemma poll_drq: "ata_poll (\<lambda>s. s AND 0x08 \<noteq> 0) b n d = (True, d') \<Longrightarrow> view d' = (view d)\<lparr>drq_seen := True\<rparr>"
proof (induction n arbitrary: d)
  case (Suc n)
  then show ?case
    using Suc.IH [of "snd (inb b 0x1F7 d)"] in_status [of d]
    by (auto simp: ATA_REG_STATUS_def split_beta split: if_splits)
qed simp

lemma bsy_view: "ata_wait_bsy b d = (r, d') \<Longrightarrow> \<exists>q. view d' = (view d)\<lparr>drq_seen := q\<rparr>"
  unfolding ata_wait_bsy_def by (rule poll_view)

lemma drq_view: "ata_wait_drq b d = (r, d') \<Longrightarrow> \<exists>q. view d' = (view d)\<lparr>drq_seen := q\<rparr> \<and> (r \<longrightarrow> q)"
  using poll_view [of _ ATA_TIMEOUT d r d'] poll_drq [of ATA_TIMEOUT d d'] unfolding ata_wait_drq_def ATA_STATUS_DRQ_def
  by (cases r) (metis, metis)

lemma issue_view:
  assumes "cmd = 0x20 \<or> cmd = 0x30"
  shows "\<exists>v. view (ata_issue b sel lba cmd d) = v \<and> medium v = medium (view d) \<and>
    transfer v = (if cmd = 0x20 then Reading (medium v (sel_unit (r_drive v)) (sel_lba v))
                  else Writing (sel_unit (r_drive v)) (sel_lba v) []) \<and>
    r_drive v = sel OR ucast (drop_bit 24 lba AND 0x0F) \<and> r_low v = ucast lba \<and> r_mid v = ucast (drop_bit 8 lba) \<and>
    r_high v = ucast (drop_bit 16 lba)"
  using assms by (auto simp: ata_issue_def ATA_REG_DRIVE_def ATA_REG_SECCOUNT_def ATA_REG_LBA_LOW_def ATA_REG_LBA_MID_def
      ATA_REG_LBA_HIGH_def ATA_REG_COMMAND_def out_drive out_count out_low out_mid out_high out_read out_write sel_lba_def)

lemma insw_view:
  "drq_seen (view d) \<Longrightarrow> transfer (view d) = Reading (ws @ rest) \<Longrightarrow>
   \<exists>d'. insw b 0x1F0 (length ws) d = (ws, d') \<and> view d' = (view d)\<lparr>transfer := Reading rest\<rparr>"
proof (induction ws arbitrary: d)
  case Nil
  then show ?case
    by (intro exI [of _ d]) (simp add: drive_view.equality)
next
  case (Cons w ws)
  then show ?case
    using in_data [of d w "ws @ rest"] Cons.IH [of "snd (inw b 0x1F0 d)"] by (auto simp: split_beta)
qed

lemma outsw_view:
  "drq_seen (view d) \<Longrightarrow> transfer (view d) = Writing s l old \<Longrightarrow> length old + length ws = 256 \<Longrightarrow> ws \<noteq> [] \<Longrightarrow>
   view (outsw b 0x1F0 ws d) =
     (view d)\<lparr>transfer := Idle, medium := (medium (view d))(s := (medium (view d) s)(l := old @ ws))\<rparr>"
proof (induction ws arbitrary: d old)
  case step: (Cons w ws)
  show ?case
  proof (cases ws)
    case Nil
    then show ?thesis
      using step.prems out_last [of d s l old w] by (simp add: fun_upd_def)
  next
    case (Cons w1 ws1)
    then show ?thesis
      using step.IH [of "outw b 0x1F0 w d" "old @ [w]"] step.prems out_data [of d s l old w] by (simp add: fun_upd_def)
  qed
qed simp

end

text \<open>Registers and data of a transfer.\<close>

definition valid_select :: "ata_state \<Rightarrow> bool" where
  "valid_select a \<longleftrightarrow> ata_drive_select a = 0xE0 \<or> ata_drive_select a = 0xF0"

definition media_ok :: "drive_view \<Rightarrow> bool" where
  "media_ok v \<longleftrightarrow> (\<forall>u l. length (medium v u l) = 256)"

definition sector :: "ata_state \<Rightarrow> drive_view \<Rightarrow> u32 \<Rightarrow> bytes" where
  "sector a v lba = word_bytes (medium v (sel_unit (ata_drive_select a)) lba)"

lemma sel_unit_issue: "valid_select a \<Longrightarrow> sel_unit (ata_drive_select a OR (x AND 0x0F)) = sel_unit (ata_drive_select a)"
  by (auto simp: valid_select_def sel_unit_def bit_simps)

lemma length_word_bytes [simp]: "length (word_bytes ws) = 2 * length ws"
  by (induction ws) (auto simp: word_bytes_def)

lemma nth_word_bytes: "i < length ws \<Longrightarrow> word_bytes ws ! (2 * i) = ucast (ws ! i) \<and>
    word_bytes ws ! (2 * i + 1) = ucast (drop_bit 8 (ws ! i))"
proof (induction ws arbitrary: i)
  case (Cons w ws)
  then show ?case
    by (cases i) (auto simp: word_bytes_def)
qed simp

lemma split16: "ucast (ucast (x :: u8) OR push_bit 8 (ucast (y :: u8)) :: u16) = x"
    "ucast (drop_bit 8 (ucast (x :: u8) OR push_bit 8 (ucast (y :: u8)) :: u16)) = y"
  by (rule bit_word_eqI; auto simp: bit_simps dest: bit_imp_le_length)+

lemma word_bytes_byte_words: "length buf = 512 \<Longrightarrow> word_bytes (byte_words buf) = buf"
proof (rule nth_equalityI)
  fix i
  assume l: "length buf = 512" and "i < length (word_bytes (byte_words buf))"
  then have i: "i < 512" "i div 2 < length (byte_words buf)"
    by (auto simp: byte_words_def)
  have w: "byte_words buf ! (i div 2) = ucast (buf ! (2 * (i div 2))) OR push_bit 8 (ucast (buf ! (2 * (i div 2) + 1)))"
    using i l by (simp add: byte_words_def get16_def get8_def mult.commute)
  show "word_bytes (byte_words buf) ! i = buf ! i"
    using nth_word_bytes [OF i(2)] w split16 by (cases "even i") (auto elim!: evenE oddE)
qed (simp add: byte_words_def)

lemma sel_lba_issue:
  assumes "lba < 0x10000000" "r_drive v = s OR ucast (drop_bit 24 lba AND 0x0F)" "s AND 0x0F = 0" "r_low v = ucast lba"
    "r_mid v = ucast (drop_bit 8 lba)" "r_high v = ucast (drop_bit 16 lba)"
  shows "sel_lba v = lba"
proof (rule bit_word_eqI)
  fix n
  have "unat lba < 2 ^ 28"
    using assms(1) by (simp add: word_less_nat_alt)
  then have lt: "take_bit 28 (unat lba) = unat lba"
    by (rule take_bit_nat_eq_self)
  have hi: "n < 28" if "bit lba n"
    using that lt by (metis bit_take_bit_iff bit_unsigned_iff bit_imp_le_length possible_bit_nat)
  have m: "bit (15 :: u8) k \<longleftrightarrow> k < 4" "bit (15 :: u32) k \<longleftrightarrow> k < 4" for k
    using bit_mask_iff [of 4 k, where 'a = u8] bit_mask_iff [of 4 k, where 'a = u32]
    by (auto simp: mask_eq_exp_minus_1)
  have nib: "\<not> bit s k" if "k < 4" for k
    using assms(3) that bit_and_iff [of s 15 k] m(1) [of k] by simp
  assume n: "n < LENGTH(32)"
  have d: "bit (r_drive v) k \<longleftrightarrow> bit lba (k + 24)" if "k < 4" for k
    using that assms(2) nib [OF that] m(2) [of k] by (simp add: bit_simps add.commute)
  have l: "\<not> bit (r_low v) k" "\<not> bit (r_mid v) k" "\<not> bit (r_high v) k" if "8 \<le> k" for k
    using that bit_imp_le_length [of "r_low v" k] bit_imp_le_length [of "r_mid v" k] bit_imp_le_length [of "r_high v" k]
    by auto
  note defs = sel_lba_def bit_or_iff bit_push_bit_iff bit_unsigned_iff bit_and_iff
  consider "n < 8" | "8 \<le> n" "n < 16" | "16 \<le> n" "n < 24" | "24 \<le> n" "n < 28" | "28 \<le> n"
    by linarith
  then show "bit (sel_lba v) n = bit lba n"
  proof cases
    case 1
    then show ?thesis
      using assms(4) by (simp add: defs)
  next
    case 2
    then show ?thesis
      using l [of n] assms(5) n by (auto simp: defs bit_drop_bit_eq)
  next
    case 3
    then show ?thesis
      using l [of n] l [of "n - 8"] assms(6) n by (auto simp: defs bit_drop_bit_eq)
  next
    case 4
    then show ?thesis
      using l [of n] l [of "n - 8"] l [of "n - 16"] d [of "n - 24"] m(1) [of "n - 24"] n by (auto simp: defs)
  next
    case 5
    then show ?thesis
      using l [of n] l [of "n - 8"] l [of "n - 16"] hi m(1) [of "n - 24"] n by (auto simp: defs)
  qed
qed

lemma ucast_and_nibble: "ucast (x AND 0x0F :: u32) = (ucast x AND 0x0F :: u8)"
  by (rule bit_word_eqI) (simp add: bit_simps)

context ata_drive
begin

lemma read_sector_spec:
  assumes sel: "valid_select a" and lba: "lba < 0x10000000" and t: "term_ok t" and m: "media_ok (view (dev t))"
  shows "\<exists>r t'. ata_read_sector b a lba t = Some (r, t') \<and> term_ok t' \<and> medium (view (dev t')) = medium (view (dev t)) \<and>
    (r = None \<or> r = Some (sector a (view (dev t)) lba))"
proof -
  define cmd where "cmd = ata_issue b (ata_drive_select a) lba 0x20"
  obtain ok1 d1 where w1: "ata_wait_bsy b (dev t) = (ok1, d1)"
    by fastforce
  obtain ok2 d2 where w2: "ata_wait_bsy b (cmd d1) = (ok2, d2)"
    by fastforce
  obtain st d3 where st: "inb b 0x1F7 d2 = (st, d3)"
    by fastforce
  obtain ok3 d4 where w3: "ata_wait_drq b d3 = (ok3, d4)"
    by fastforce
  obtain q1 q2 q3 where v: "view d1 = (view (dev t))\<lparr>drq_seen := q1\<rparr>" "view d2 = (view (cmd d1))\<lparr>drq_seen := q2\<rparr>"
      "view d3 = (view d2)\<lparr>drq_seen := (st AND 0x08 \<noteq> 0)\<rparr>" "view d4 = (view d3)\<lparr>drq_seen := q3\<rparr>" "ok3 \<longrightarrow> q3"
    using bsy_view [OF w1] bsy_view [OF w2] in_status [of d2] drq_view [OF w3] st by auto
  obtain c where c: "view (cmd d1) = c" "medium c = medium (view d1)"
      "transfer c = Reading (medium c (sel_unit (r_drive c)) (sel_lba c))"
      "r_drive c = ata_drive_select a OR ucast (drop_bit 24 lba AND 0x0F)" "r_low c = ucast lba"
      "r_mid c = ucast (drop_bit 8 lba)" "r_high c = ucast (drop_bit 16 lba)"
    using issue_view [of "0x20" "ata_drive_select a" lba d1] by (auto simp: cmd_def)
  have med: "medium (view d) = medium (view (dev t))" if "d \<in> {d1, d2, d3, d4}" for d
    using that v c by auto
  have nib: "ata_drive_select a AND 0x0F = 0"
    using sel by (auto simp: valid_select_def)
  have "sel_unit (r_drive c) = sel_unit (ata_drive_select a)"
    using sel_unit_issue [OF sel, of "ucast (drop_bit 24 lba)"] c(4) by (simp add: ucast_and_nibble)
  then have tr: "transfer (view d4) = Reading (medium (view (dev t)) (sel_unit (ata_drive_select a)) lba)"
    using sel_lba_issue [OF lba c(4) nib c(5-7)] v c by simp
  have "\<exists>d5. insw b 0x1F0 256 d4 = (medium (view (dev t)) (sel_unit (ata_drive_select a)) lba, d5) \<and>
      medium (view d5) = medium (view (dev t))" if "ok3"
    using insw_view [of d4 "medium (view (dev t)) (sel_unit (ata_drive_select a)) lba" "[]"] that v tr m med [of d4]
    by (auto simp: media_ok_def)
  moreover have "\<exists>t'. klog_error b ''ATA read error'' (t\<lparr>dev := d3\<rparr>) = Some t' \<and> term_ok t' \<and> view (dev t') = view d3"
    using klog_ok [OF ready_serial safe_console, of "t\<lparr>dev := d3\<rparr>" "view d3" LOG_ERROR "''ATA read error''"] t
    by (simp add: klog_error_def)
  ultimately show ?thesis
    using t w1 w2 st w3 med [of d1] med [of d2] med [of d3] med [of d4]
    by (cases ok1; cases ok2; cases "st AND 1 = 0"; cases ok3)
      (auto simp: ata_read_sector_def Let_def cmd_def ATA_CMD_READ_PIO_def ATA_REG_STATUS_def ATA_REG_DATA_def
        ATA_STATUS_ERR_def sector_def)
qed

end

lemma byte_words_length [simp]: "length (byte_words buf) = 256" "byte_words buf \<noteq> []"
  by (auto simp: byte_words_def)

context ata_drive
begin

lemma write_sector_spec:
  assumes sel: "valid_select a" and lba: "lba < 0x10000000" and t: "term_ok t"
  shows "\<exists>ok t'. ata_write_sector b a lba buf t = (ok, t') \<and> term_ok t' \<and>
    (medium (view (dev t')) = medium (view (dev t)) \<and> \<not> ok \<or>
     medium (view (dev t')) = (medium (view (dev t)))(sel_unit (ata_drive_select a) :=
       (medium (view (dev t)) (sel_unit (ata_drive_select a)))(lba := byte_words buf)))"
proof -
  define cmd where "cmd = ata_issue b (ata_drive_select a) lba 0x30"
  obtain ok1 d1 where w1: "ata_wait_bsy b (dev t) = (ok1, d1)"
    by fastforce
  obtain ok2 d2 where w2: "ata_wait_bsy b (cmd d1) = (ok2, d2)"
    by fastforce
  obtain ok3 d3 where w3: "ata_wait_drq b d2 = (ok3, d3)"
    by fastforce
  define d4 where "d4 = outb b 0x1F7 0xE7 (outsw b 0x1F0 (byte_words buf) d3)"
  obtain ok4 d5 where w4: "ata_wait_bsy b d4 = (ok4, d5)"
    by fastforce
  obtain q1 q2 q3 q4 where v: "view d1 = (view (dev t))\<lparr>drq_seen := q1\<rparr>" "view d2 = (view (cmd d1))\<lparr>drq_seen := q2\<rparr>"
      "view d3 = (view d2)\<lparr>drq_seen := q3\<rparr>" "ok3 \<longrightarrow> q3" "view d5 = (view d4)\<lparr>drq_seen := q4\<rparr>"
    using bsy_view [OF w1] bsy_view [OF w2] drq_view [OF w3] bsy_view [OF w4] by auto
  obtain c where c: "view (cmd d1) = c" "medium c = medium (view d1)"
      "transfer c = Writing (sel_unit (r_drive c)) (sel_lba c) []"
      "r_drive c = ata_drive_select a OR ucast (drop_bit 24 lba AND 0x0F)" "r_low c = ucast lba"
      "r_mid c = ucast (drop_bit 8 lba)" "r_high c = ucast (drop_bit 16 lba)"
    using issue_view [of "0x30" "ata_drive_select a" lba d1] by (auto simp: cmd_def)
  have med: "medium (view d) = medium (view (dev t))" if "d \<in> {d1, d2, d3}" for d
    using that v c by auto
  have nib: "ata_drive_select a AND 0x0F = 0"
    using sel by (auto simp: valid_select_def)
  have "sel_unit (r_drive c) = sel_unit (ata_drive_select a)"
    using sel_unit_issue [OF sel, of "ucast (drop_bit 24 lba)"] c(4) by (simp add: ucast_and_nibble)
  then have tr: "transfer (view d3) = Writing (sel_unit (ata_drive_select a)) lba []"
    using sel_lba_issue [OF lba c(4) nib c(5-7)] v c by simp
  have "medium (view d5) = (medium (view (dev t)))(sel_unit (ata_drive_select a) :=
       (medium (view (dev t)) (sel_unit (ata_drive_select a)))(lba := byte_words buf))" if "ok3"
    using outsw_view [of d3 "sel_unit (ata_drive_select a)" lba "[]" "byte_words buf"] out_flush that v tr med [of d3]
    by (simp add: d4_def)
  then show ?thesis
    using t w1 w2 w3 w4 med
    by (auto simp: ata_write_sector_def Let_def cmd_def d4_def ATA_CMD_WRITE_PIO_def ATA_REG_COMMAND_def ATA_REG_DATA_def)
qed

end

text \<open>With a drive selected, the driver provides a sector store.\<close>

locale ata_disk = ata_drive b view for b :: "'d bus" and view :: "'d \<Rightarrow> drive_view" +
  fixes a :: ata_state
  assumes selected: "valid_select a"

sublocale ata_disk \<subseteq> ata: sector_store "ata_read_sector b a" "\<lambda>lba v t. Some (ata_write_sector b a lba v t)"
  "\<lambda>t. sector a (view (dev t))" "\<lambda>t. term_ok t \<and> media_ok (view (dev t))"
proof
  fix s :: "'d terminal" and lba :: u32
  assume i: "term_ok s \<and> media_ok (view (dev s))" and l: "lba < 0x10000000"
  show "\<exists>r s'. ata_read_sector b a lba s = Some (r, s') \<and> (term_ok s' \<and> media_ok (view (dev s'))) \<and>
      sector a (view (dev s')) = sector a (view (dev s)) \<and> (r = None \<or> r = Some (sector a (view (dev s)) lba))"
    using read_sector_spec [OF selected l, of s] i by (auto simp: media_ok_def sector_def fun_eq_iff)
  fix v :: bytes
  assume v: "length v = 512"
  show "\<exists>ok s'. Some (ata_write_sector b a lba v s) = Some (ok, s') \<and>
      (ok \<longrightarrow> (term_ok s' \<and> media_ok (view (dev s'))) \<and> sector a (view (dev s')) = (sector a (view (dev s)))(lba := v))"
    using write_sector_spec [OF selected l, of s v] i word_bytes_byte_words [OF v]
    by (auto simp: media_ok_def sector_def fun_eq_iff)
next
  fix s :: "'d terminal" and lba
  assume "term_ok s \<and> media_ok (view (dev s))"
  then show "length (sector a (view (dev s)) lba) = 512"
    by (simp add: sector_def media_ok_def)
qed

end
