(* ===== verification/BlockCache.thy ===== *)
theory BlockCache
  imports Ata
begin

text \<open>
  The sector cache (\<open>kernel/drivers/storage/block_cache.c\<close>): 32 sectors in front of the ATA driver, written
  through. Over a drive that meets \<open>ata_drive\<close> the cached disk is again a \<open>sector_store\<close>, so its clients see
  the disk itself. Results are those of \<open>Ata\<close>.
\<close>

unbundle bit_operations_syntax

section \<open>Operations\<close>

definition BLOCK_CACHE_SIZE :: nat where "BLOCK_CACHE_SIZE = 32"
definition SECTOR_SIZE :: nat where "SECTOR_SIZE = 512"

record cache_entry =
  valid :: bool
  c_lba :: u32
  age :: u32
  data :: bytes

text \<open>The cache with the driver's variables and the console, which holds the state of the devices.\<close>

record 'd disk =
  ata :: ata_state
  cache :: "cache_entry list"
  clock_tick :: u32
  con :: "'d terminal"

definition block_cache_invalidate :: "'d disk \<Rightarrow> 'd disk" where
  "block_cache_invalidate s =
     s\<lparr>cache := replicate BLOCK_CACHE_SIZE \<lparr>valid = False, c_lba = 0, age = 0, data = replicate SECTOR_SIZE 0\<rparr>,
       clock_tick := 1\<rparr>"

definition block_cache_init :: "'d disk \<Rightarrow> 'd disk" where
  "block_cache_init s = block_cache_invalidate s"

definition cache_find_entry :: "u32 \<Rightarrow> cache_entry list \<Rightarrow> nat option" where
  "cache_find_entry lba c = find_idx (\<lambda>e. valid e \<and> c_lba e = lba) c"

fun victim_loop :: "cache_entry list \<Rightarrow> nat list \<Rightarrow> nat \<Rightarrow> nat" where
  "victim_loop c [] victim = victim"
| "victim_loop c (i # is) victim =
     (if \<not> valid (c ! i) then i else victim_loop c is (if age (c ! i) < age (c ! victim) then i else victim))"

definition choose_victim :: "cache_entry list \<Rightarrow> nat" where
  "choose_victim c = victim_loop c [0..<BLOCK_CACHE_SIZE] 0"

text \<open>Filling entry \<open>i\<close>, as both operations end.\<close>

definition cache_fill :: "nat \<Rightarrow> u32 \<Rightarrow> bytes \<Rightarrow> 'd disk \<Rightarrow> 'd disk" where
  "cache_fill i lba v s =
     s\<lparr>cache := (cache s)[i := \<lparr>valid = True, c_lba = lba, age = clock_tick s, data = v\<rparr>], clock_tick := clock_tick s + 1\<rparr>"

definition block_cache_read_sector :: "'d bus \<Rightarrow> u32 \<Rightarrow> 'd disk \<Rightarrow> (bytes option \<times> 'd disk) option" where
  "block_cache_read_sector b lba s =
     (case cache_find_entry lba (cache s) of
        Some i \<Rightarrow> Some (Some (data (cache s ! i)),
          s\<lparr>cache := (cache s)[i := (cache s ! i)\<lparr>age := clock_tick s\<rparr>], clock_tick := clock_tick s + 1\<rparr>)
      | None \<Rightarrow>
          Option.bind (ata_read_sector b (ata s) lba (con s)) (\<lambda>(r, t).
            case r of
              None \<Rightarrow> Some (None, s\<lparr>con := t\<rparr>)
            | Some v \<Rightarrow> Some (Some v, cache_fill (choose_victim (cache s)) lba v (s\<lparr>con := t\<rparr>))))"

definition block_cache_write_sector :: "'d bus \<Rightarrow> u32 \<Rightarrow> bytes \<Rightarrow> 'd disk \<Rightarrow> bool \<times> 'd disk" where
  "block_cache_write_sector b lba buf s =
     (case ata_write_sector b (ata s) lba buf (con s) of (ok, t) \<Rightarrow>
        if \<not> ok then (False, s\<lparr>con := t\<rparr>)
        else (True, cache_fill (case cache_find_entry lba (cache s) of Some i \<Rightarrow> i | None \<Rightarrow> choose_victim (cache s))
               lba buf (s\<lparr>con := t\<rparr>)))"

definition block_cache_flush :: "'d disk \<Rightarrow> 'd disk" where
  "block_cache_flush s = s"

section \<open>The cached disk\<close>

definition entries_ok :: "(u32 \<Rightarrow> bytes) \<Rightarrow> cache_entry list \<Rightarrow> bool" where
  "entries_ok D c \<longleftrightarrow> length c = 32 \<and> (\<forall>e \<in> set c. valid e \<longrightarrow> data e = D (c_lba e)) \<and>
     (\<forall>i<32. \<forall>j<32. valid (c ! i) \<and> valid (c ! j) \<and> c_lba (c ! i) = c_lba (c ! j) \<longrightarrow> i = j)"

definition cache_ok :: "('d \<Rightarrow> drive_view) \<Rightarrow> ata_state \<Rightarrow> 'd disk \<Rightarrow> bool" where
  "cache_ok view a s \<longleftrightarrow> ata s = a \<and> term_ok (con s) \<and> media_ok (view (dev (con s))) \<and>
     entries_ok (sector a (view (dev (con s)))) (cache s)"

lemma victim_loop_bound:
  "(\<forall>i \<in> set is. i < n) \<Longrightarrow> v < n \<Longrightarrow> victim_loop c is v < n"
  by (induction c "is" v rule: victim_loop.induct) auto

lemma choose_victim_bound: "choose_victim c < 32"
  unfolding choose_victim_def BLOCK_CACHE_SIZE_def by (rule victim_loop_bound) auto

lemma cache_find_entry_Some: "cache_find_entry lba c = Some i \<Longrightarrow> i < length c \<and> valid (c ! i) \<and> c_lba (c ! i) = lba"
  unfolding cache_find_entry_def by (drule find_idx_SomeD) auto

lemma cache_find_entry_None: "cache_find_entry lba c = None \<longleftrightarrow> (\<forall>i<length c. \<not> (valid (c ! i) \<and> c_lba (c ! i) = lba))"
  by (auto simp: cache_find_entry_def find_idx_None_iff all_set_conv_all_nth)

text \<open>Filling an entry keeps the cache in step with the disk, provided no other entry holds the sector.\<close>

lemma entries_ok_fill:
  assumes c: "entries_ok D c" and i: "i < 32"
    and u: "\<forall>j<32. j \<noteq> i \<longrightarrow> \<not> (valid (c ! j) \<and> c_lba (c ! j) = lba)"
  shows "entries_ok (D(lba := v)) (c[i := \<lparr>valid = True, c_lba = lba, age = t, data = v\<rparr>])"
proof -
  define c' where "c' = c[i := \<lparr>valid = True, c_lba = lba, age = t, data = v\<rparr>]"
  have l: "length c = 32" "length c' = 32"
    using c by (simp_all add: entries_ok_def c'_def)
  have new: "valid (c' ! i)" "c_lba (c' ! i) = lba" "data (c' ! i) = v"
    using i l by (simp_all add: c'_def)
  have old: "c' ! j = c ! j" if "j \<noteq> i" for j
    using that by (simp add: c'_def)
  have "data (c' ! j) = (D(lba := v)) (c_lba (c' ! j))" if "j < 32" "valid (c' ! j)" for j
    using that new old [of j] u c l by (cases "j = i") (auto simp: entries_ok_def)
  moreover have "j = k" if "j < 32" "k < 32" "valid (c' ! j)" "valid (c' ! k)" "c_lba (c' ! j) = c_lba (c' ! k)" for j k
  proof -
    have x: "c_lba (c ! m) \<noteq> lba" if "m < 32" "m \<noteq> i" "valid (c ! m)" for m
      using u that by blast
    have y: "\<forall>j<32. \<forall>k<32. valid (c ! j) \<and> valid (c ! k) \<and> c_lba (c ! j) = c_lba (c ! k) \<longrightarrow> j = k"
      using c by (simp add: entries_ok_def)
    show ?thesis
      using that new(2) x [of j] x [of k] y old [of j] old [of k] by metis
  qed
  ultimately show ?thesis
    unfolding c'_def [symmetric] entries_ok_def all_set_conv_all_nth l(2) by blast
qed

lemma entries_ok_touch:
  assumes c: "entries_ok D c" and i: "i < 32"
  shows "entries_ok D (c[i := (c ! i)\<lparr>age := t\<rparr>])"
proof -
  define c' where "c' = c[i := (c ! i)\<lparr>age := t\<rparr>]"
  have l: "length c = 32" "length c' = 32"
    using c by (simp_all add: entries_ok_def c'_def)
  have s: "valid (c' ! j) = valid (c ! j)" "c_lba (c' ! j) = c_lba (c ! j)" "data (c' ! j) = data (c ! j)" for j
    using i l by (cases "j = i"; simp add: c'_def)+
  show ?thesis
    using c l unfolding c'_def [symmetric] entries_ok_def all_set_conv_all_nth by (simp add: s)
qed

lemma free_slot_unique: "entries_ok D c \<Longrightarrow> cache_find_entry lba c = None \<Longrightarrow>
    \<forall>j<32. j \<noteq> i \<longrightarrow> \<not> (valid (c ! j) \<and> c_lba (c ! j) = lba)"
  by (simp add: cache_find_entry_None entries_ok_def)

lemma found_slot_unique: "entries_ok D c \<Longrightarrow> cache_find_entry lba c = Some i \<Longrightarrow>
    \<forall>j<32. j \<noteq> i \<longrightarrow> \<not> (valid (c ! j) \<and> c_lba (c ! j) = lba)"
  using cache_find_entry_Some [of lba c i] by (auto simp: entries_ok_def)

lemma slot_bound_unique:
  assumes c: "entries_ok D c" and i: "i = (case cache_find_entry lba c of Some i \<Rightarrow> i | None \<Rightarrow> choose_victim c)"
  shows "i < 32" "\<forall>j<32. j \<noteq> i \<longrightarrow> \<not> (valid (c ! j) \<and> c_lba (c ! j) = lba)"
proof -
  have "i < 32 \<and> (\<forall>j<32. j \<noteq> i \<longrightarrow> \<not> (valid (c ! j) \<and> c_lba (c ! j) = lba))"
  proof (cases "cache_find_entry lba c")
    case None
    then show ?thesis
      using i free_slot_unique [OF c None] choose_victim_bound by simp
  next
    case (Some k)
    then show ?thesis
      using i found_slot_unique [OF c Some] cache_find_entry_Some [OF Some] c by (simp add: entries_ok_def)
  qed
  then show "i < 32" "\<forall>j<32. j \<noteq> i \<longrightarrow> \<not> (valid (c ! j) \<and> c_lba (c ! j) = lba)"
    by blast+
qed

sublocale ata_disk \<subseteq> cached: sector_store "block_cache_read_sector b" "\<lambda>lba v s. Some (block_cache_write_sector b lba v s)"
  "\<lambda>s. sector a (view (dev (con s)))" "cache_ok view a"
proof
  fix s :: "'d disk" and lba :: u32
  assume i: "cache_ok view a s" and l: "lba < 0x10000000"
  let ?D = "sector a (view (dev (con s)))"
  show "\<exists>r s'. block_cache_read_sector b lba s = Some (r, s') \<and> cache_ok view a s' \<and>
      sector a (view (dev (con s'))) = ?D \<and> (r = None \<or> r = Some (?D lba))"
  proof (cases "cache_find_entry lba (cache s)")
    case (Some k)
    have k: "k < 32" "valid (cache s ! k)" "c_lba (cache s ! k) = lba"
      using cache_find_entry_Some [OF Some] i by (auto simp: cache_ok_def entries_ok_def)
    then have "data (cache s ! k) = ?D lba"
      using i by (auto simp: cache_ok_def entries_ok_def)
    then show ?thesis
      using Some i k entries_ok_touch [of ?D "cache s" k] by (auto simp: block_cache_read_sector_def cache_ok_def)
  next
    case None
    obtain r t where r: "ata_read_sector b a lba (con s) = Some (r, t)" "term_ok t" "media_ok (view (dev t))"
        "sector a (view (dev t)) = ?D" "r = None \<or> r = Some (?D lba)"
      using ata.rd_spec [of "con s" lba] i l by (auto simp: cache_ok_def)
    have "entries_ok ?D ((cache s)[choose_victim (cache s) := \<lparr>valid = True, c_lba = lba, age = clock_tick s, data = ?D lba\<rparr>])"
      using entries_ok_fill [of ?D "cache s" "choose_victim (cache s)" lba "?D lba"] i choose_victim_bound
        free_slot_unique [of ?D "cache s" lba] None by (auto simp: cache_ok_def)
    then show ?thesis
      using r None i by (auto simp: block_cache_read_sector_def cache_ok_def cache_fill_def)
  qed
  fix v :: bytes
  assume v: "length v = 512"
  obtain ok t where w: "ata_write_sector b a lba v (con s) = (ok, t)"
      "ok \<longrightarrow> (term_ok t \<and> media_ok (view (dev t))) \<and> sector a (view (dev t)) = ?D(lba := v)"
    using ata.wr_spec [of "con s" lba v] i l v by (auto simp: cache_ok_def)
  show "\<exists>ok s'. Some (block_cache_write_sector b lba v s) = Some (ok, s') \<and>
      (ok \<longrightarrow> cache_ok view a s' \<and> sector a (view (dev (con s'))) = ?D(lba := v))"
  proof -
    define k where "k = (case cache_find_entry lba (cache s) of Some i \<Rightarrow> i | None \<Rightarrow> choose_victim (cache s))"
    have e: "entries_ok ?D (cache s)"
      using i by (simp add: cache_ok_def)
    have "entries_ok (?D(lba := v)) ((cache s)[k := \<lparr>valid = True, c_lba = lba, age = clock_tick s, data = v\<rparr>])"
      using entries_ok_fill [OF e slot_bound_unique [OF e k_def]] .
    then show ?thesis
      using w i by (auto simp: block_cache_write_sector_def cache_ok_def cache_fill_def k_def [symmetric])
  qed
next
  fix s :: "'d disk" and lba
  assume "cache_ok view a s"
  then show "length (sector a (view (dev (con s))) lba) = 512"
    using ata.content_length [of "con s"] by (simp add: cache_ok_def)
qed

context ata_disk
begin

lemmas cached_run = cached.run_ops_correct

end

section \<open>A drive that accepts every command\<close>

definition sim_bus :: "drive_view bus" where
  "sim_bus = \<lparr>
     inb = (\<lambda>p d. if p = 0x1F7 then (if transfer d = Idle then 0x40 else 0x48, d\<lparr>drq_seen := (transfer d \<noteq> Idle)\<rparr>)
              else (0x20, d)),
     outb = (\<lambda>p v d.
        if p = 0x1F6 then d\<lparr>r_drive := v\<rparr> else if p = 0x1F2 then d\<lparr>r_count := v\<rparr> else if p = 0x1F3 then d\<lparr>r_low := v\<rparr>
        else if p = 0x1F4 then d\<lparr>r_mid := v\<rparr> else if p = 0x1F5 then d\<lparr>r_high := v\<rparr>
        else if p = 0x1F7 then
          (if v = 0x20 then d\<lparr>transfer := Reading (medium d (sel_unit (r_drive d)) (sel_lba d)), drq_seen := False\<rparr>
           else if v = 0x30 then d\<lparr>transfer := Writing (sel_unit (r_drive d)) (sel_lba d) [], drq_seen := False\<rparr>
           else d\<lparr>transfer := Idle, drq_seen := False\<rparr>)
        else d),
     inw = (\<lambda>p d. case transfer d of Reading (w # ws) \<Rightarrow> (w, d\<lparr>transfer := Reading ws\<rparr>) | _ \<Rightarrow> (0, d)),
     outw = (\<lambda>p w d. case transfer d of
        Writing s l ws \<Rightarrow>
          (if length ws < 255 then d\<lparr>transfer := Writing s l (ws @ [w])\<rparr>
           else d\<lparr>transfer := Idle, medium := (medium d)(s := (medium d s)(l := ws @ [w]))\<rparr>)
      | _ \<Rightarrow> d),
     inl = (\<lambda>p d. (0, d)), outl = (\<lambda>p v d. d)\<rparr>"

definition sim_ata :: ata_state where
  "sim_ata = \<lparr>ata_available = True, ata_sector_count = 2880, ata_drive_select = 0xE0\<rparr>"

definition sim_disk :: "drive_view disk" where
  "sim_disk = block_cache_init \<lparr>ata = sim_ata, cache = [], clock_tick = 0,
     con = terminal_initialize sim_bus \<lparr>term_buffer = [], term_color_buffer = [], scroll_offset = 0, current_line = 0,
       terminal_column = 0, terminal_color = 0, vga_memory = [], cursor_visible = True, rendering_enabled = True,
       dev = \<lparr>r_drive = 0, r_count = 0, r_low = 0, r_mid = 0, r_high = 0, medium = (\<lambda>u l. replicate 256 0),
              transfer = Idle, drq_seen = False\<rparr>\<rparr>\<rparr>"

interpretation sim: ata_disk sim_bus "\<lambda>d. d" sim_ata
proof (unfold_locales, goal_cases)
  case (9 d)
  show ?case
    by (simp add: sim_bus_def)
next
  case (10 d w ws)
  then show ?case
    by (simp add: sim_bus_def)
next
  case (11 d s l ws w)
  then show ?case
    by (simp add: sim_bus_def)
next
  case (12 d s l ws w)
  then show ?case
    by (simp add: sim_bus_def)
next
  case (13 p v d)
  then show ?case
    by (elim disjE) (simp_all add: sim_bus_def)
qed (simp_all add: sim_bus_def valid_select_def sim_ata_def)

lemma sim_disk_ok: "cache_ok (\<lambda>d. d) sim_ata sim_disk"
proof -
  have "term_ok (con sim_disk)"
    by (simp add: sim_disk_def block_cache_init_def block_cache_invalidate_def initialize_ok)
  moreover have "entries_ok D (cache sim_disk)" for D
    by (auto simp: sim_disk_def block_cache_init_def block_cache_invalidate_def entries_ok_def BLOCK_CACHE_SIZE_def)
  ultimately show ?thesis
    by (simp add: cache_ok_def sim_disk_def block_cache_init_def block_cache_invalidate_def media_ok_def
        terminal_initialize_def sim_bus_def terminal_show_cursor_def terminal_update_cursor_def blank_history_def)
qed

section \<open>Drives that are always ready\<close>

text \<open>A store whose operations do not fail.\<close>

locale reliable_store = sector_store +
  assumes rd_ok: "invar s \<Longrightarrow> lba < 0x10000000 \<Longrightarrow> rd lba s = Some (r, s') \<Longrightarrow> r \<noteq> None"
    and wr_ok: "invar s \<Longrightarrow> lba < 0x10000000 \<Longrightarrow> length v = 512 \<Longrightarrow> wr lba v s = Some (ok, s') \<Longrightarrow> ok"
begin

lemma rd_content:
  assumes "invar s" "lba < 0x10000000"
  obtains s' where "rd lba s = Some (Some (content s lba), s')" "invar s'" "content s' = content s"
  using rd_spec [OF assms] rd_ok [OF assms] by auto

lemma wr_content:
  assumes "invar s" "lba < 0x10000000" "length v = 512"
  obtains s' where "wr lba v s = Some (True, s')" "invar s'" "content s' = (content s)(lba := v)"
  using wr_spec [OF assms] wr_ok [OF assms] by auto

end

text \<open>A drive that is never busy, reports no error and offers data whenever a transfer is under way.\<close>

locale ready_disk = ata_disk b view a for b :: "'d bus" and view :: "'d \<Rightarrow> drive_view" and a :: ata_state +
  assumes never_busy: "fst (inb b 0x1F7 d) AND 0x80 = 0"
    and no_error: "fst (inb b 0x1F7 d) AND 0x01 = 0"
    and data_ready: "transfer (view d) \<noteq> Idle \<Longrightarrow> fst (inb b 0x1F7 d) AND 0x08 \<noteq> 0"
begin

lemma bsy_ok: "fst (ata_wait_bsy b d)"
proof -
  obtain n where n: "ATA_TIMEOUT = Suc n"
    by (cases ATA_TIMEOUT) (simp_all add: ATA_TIMEOUT_def)
  show ?thesis
    unfolding ata_wait_bsy_def n using never_busy [of d] by (simp add: ATA_STATUS_BSY_def ATA_REG_STATUS_def split_beta)
qed

lemma drq_ok: "transfer (view d) \<noteq> Idle \<Longrightarrow> fst (ata_wait_drq b d)"
proof -
  assume t: "transfer (view d) \<noteq> Idle"
  obtain n where n: "ATA_TIMEOUT = Suc n"
    by (cases ATA_TIMEOUT) (simp_all add: ATA_TIMEOUT_def)
  show ?thesis
    unfolding ata_wait_drq_def n using data_ready [OF t] by (simp add: ATA_STATUS_DRQ_def ATA_REG_STATUS_def split_beta)
qed

lemma issue_transfer:
  assumes "cmd = 0x20 \<or> cmd = 0x30" "ata_wait_bsy b (ata_issue b sel lba cmd d) = (r, d')"
  shows "transfer (view d') \<noteq> Idle"
  using issue_view [OF assms(1), of sel lba d] bsy_view [OF assms(2)] assms(1) by (auto split: if_splits)

lemma ready_read: "ata_read_sector b a lba t = Some (r, t') \<Longrightarrow> r \<noteq> None"
proof -
  assume run: "ata_read_sector b a lba t = Some (r, t')"
  obtain d1 where w1: "ata_wait_bsy b (dev t) = (True, d1)"
    using bsy_ok [of "dev t"] by (metis prod.collapse)
  obtain d2 where w2: "ata_wait_bsy b (ata_issue b (ata_drive_select a) lba 0x20 d1) = (True, d2)"
    using bsy_ok by (metis prod.collapse)
  obtain st d3 where st: "inb b 0x1F7 d2 = (st, d3)"
    by fastforce
  have "transfer (view d3) \<noteq> Idle"
    using issue_transfer [OF _ w2] in_status [of d2] st by simp
  then obtain d4 where "ata_wait_drq b d3 = (True, d4)"
    using drq_ok by (metis prod.collapse)
  then show ?thesis
    using run w1 w2 st no_error [of d2]
    by (auto simp: ata_read_sector_def ATA_CMD_READ_PIO_def ATA_REG_STATUS_def ATA_STATUS_ERR_def split: prod.splits)
qed

lemma ready_write: "fst (ata_write_sector b a lba v t)"
proof -
  obtain d1 where w1: "ata_wait_bsy b (dev t) = (True, d1)"
    using bsy_ok [of "dev t"] by (metis prod.collapse)
  obtain d2 where w2: "ata_wait_bsy b (ata_issue b (ata_drive_select a) lba 0x30 d1) = (True, d2)"
    using bsy_ok by (metis prod.collapse)
  obtain d3 where w3: "ata_wait_drq b d2 = (True, d3)"
    using drq_ok issue_transfer [OF _ w2] by (metis prod.collapse)
  show ?thesis
    using w1 w2 w3 bsy_ok by (simp add: ata_write_sector_def ATA_CMD_WRITE_PIO_def split_beta)
qed

end

sublocale ready_disk \<subseteq> steady: reliable_store "block_cache_read_sector b" "\<lambda>lba v s. Some (block_cache_write_sector b lba v s)"
  "\<lambda>s. sector a (view (dev (con s)))" "cache_ok view a"
proof
  fix s :: "'d disk" and lba :: u32 and r s'
  assume "cache_ok view a s" "block_cache_read_sector b lba s = Some (r, s')"
  then show "r \<noteq> None"
    using ready_read by (fastforce simp: block_cache_read_sector_def cache_ok_def split: option.splits bind_splits)
next
  fix s :: "'d disk" and lba :: u32 and v :: bytes and w s'
  assume "cache_ok view a s" "Some (block_cache_write_sector b lba v s) = Some (w, s')"
  then show w
    using ready_write [of lba v "con s"] by (auto simp: block_cache_write_sector_def cache_ok_def split: prod.splits if_splits)
qed

interpretation sim_ready: ready_disk sim_bus "\<lambda>d. d" sim_ata
  by unfold_locales (simp_all add: sim_bus_def)

section \<open>Properties\<close>



end
