(* ===== verification/Pci.thy ===== *)
theory Pci
  imports Terminal
begin

text \<open>
  PCI enumeration (\<open>kernel/drivers/pci/pci.c\<close>) over the configuration ports, and the masking of interrupt
  lines at the interrupt controllers (\<open>idt_unmask_irq\<close> and \<open>pic_remap\<close> of \<open>kernel/idt.c\<close>), which the
  network driver uses. \<open>None\<close> is a serial port that never accepts the log message.
\<close>

unbundle bit_operations_syntax

section \<open>Enumeration\<close>

definition PCI_CONFIG_ADDRESS :: u16 where "PCI_CONFIG_ADDRESS = 0xCF8"
definition PCI_CONFIG_DATA :: u16 where "PCI_CONFIG_DATA = 0xCFC"
definition PCI_MAX_DEVICES :: nat where "PCI_MAX_DEVICES = 32"

record pci_device =
  p_bus :: u8
  p_slot :: u8
  p_function :: u8
  p_vendor_id :: u16
  p_device_id :: u16
  class_code :: u8
  sub_class :: u8
  prog_if :: u8
  revision :: u8
  interrupt_line :: u8
  bar :: "u32 list"

definition pci_address :: "u8 \<Rightarrow> u8 \<Rightarrow> u8 \<Rightarrow> u8 \<Rightarrow> u32" where
  "pci_address bs slot fn offset =
     push_bit 31 1 OR push_bit 16 (ucast bs) OR push_bit 11 (ucast slot) OR push_bit 8 (ucast fn) OR ucast (offset AND 0xFC)"

definition pci_config_read32 :: "'d bus \<Rightarrow> u8 \<Rightarrow> u8 \<Rightarrow> u8 \<Rightarrow> u8 \<Rightarrow> 'd \<Rightarrow> u32 \<times> 'd" where
  "pci_config_read32 b bs slot fn offset d =
     inl b PCI_CONFIG_DATA (outl b PCI_CONFIG_ADDRESS (pci_address bs slot fn offset) d)"

primrec read_bars :: "'d bus \<Rightarrow> u8 \<Rightarrow> u8 \<Rightarrow> u8 \<Rightarrow> nat list \<Rightarrow> 'd \<Rightarrow> u32 list \<times> 'd" where
  "read_bars b bs slot fn [] d = ([], d)"
| "read_bars b bs slot fn (i # is) d =
     (let (v, d1) = pci_config_read32 b bs slot fn (of_nat (0x10 + i * 4)) d; (vs, d2) = read_bars b bs slot fn is d1
      in (v # vs, d2))"

text \<open>The table \<open>devices\<close> is the list of its first \<open>device_count\<close> entries.\<close>

definition pci_read_device :: "'d bus \<Rightarrow> u8 \<Rightarrow> u8 \<Rightarrow> u8 \<Rightarrow> pci_device list \<times> 'd \<Rightarrow> pci_device list \<times> 'd" where
  "pci_read_device b bs slot fn = (\<lambda>(devs, d).
     if length devs \<ge> PCI_MAX_DEVICES then (devs, d)
     else
       (let (id, d1) = pci_config_read32 b bs slot fn 0x00 d; vendor = ucast (id AND 0xFFFF) :: u16
        in if vendor = 0xFFFF then (devs, d1)
           else
             (let (classreg, d2) = pci_config_read32 b bs slot fn 0x08 d1;
                  (irq, d3) = pci_config_read32 b bs slot fn 0x3C d2;
                  (bars, d4) = read_bars b bs slot fn [0..<6] d3
              in (devs @ [\<lparr>p_bus = bs, p_slot = slot, p_function = fn, p_vendor_id = vendor,
                    p_device_id = ucast (drop_bit 16 id), class_code = ucast (drop_bit 24 classreg AND 0xFF),
                    sub_class = ucast (drop_bit 16 classreg AND 0xFF), prog_if = ucast (drop_bit 8 classreg AND 0xFF),
                    revision = ucast (classreg AND 0xFF), interrupt_line = ucast (irq AND 0xFF), bar = bars\<rparr>], d4))))"

definition pci_scan_slot :: "'d bus \<Rightarrow> nat \<Rightarrow> nat \<Rightarrow> pci_device list \<times> 'd \<Rightarrow> pci_device list \<times> 'd" where
  "pci_scan_slot b bs slot = (\<lambda>(devs, d).
     (let (id, d1) = pci_config_read32 b (of_nat bs) (of_nat slot) 0 0x00 d
      in if ucast (id AND 0xFFFF) = (0xFFFF :: u16) then (devs, d1)
         else
           (let (header, d2) = pci_config_read32 b (of_nat bs) (of_nat slot) 0 0x0C d1;
                max_fn = (if (ucast (drop_bit 16 header AND 0x80) :: u8) \<noteq> 0 then 8 else 1)
            in fold (\<lambda>fn. pci_read_device b (of_nat bs) (of_nat slot) (of_nat fn)) [0..<max_fn] (devs, d2))))"

definition pci_init :: "'d bus \<Rightarrow> 'd terminal \<Rightarrow> (pci_device list \<times> 'd terminal) option" where
  "pci_init b t =
     (let (devs, d) = fold (\<lambda>bs. fold (pci_scan_slot b bs) [0..<32]) [0..<256] ([], dev t)
      in map_option (Pair devs) (klog_info b ''PCI bus scan complete'' (t\<lparr>dev := d\<rparr>)))"

definition pci_get_devices :: "pci_device list \<Rightarrow> pci_device list \<times> nat" where
  "pci_get_devices devs = (devs, length devs)"

definition pci_find_class :: "u8 \<Rightarrow> u8 \<Rightarrow> pci_device list \<Rightarrow> pci_device option" where
  "pci_find_class cc sub devs = map_option (\<lambda>i. devs ! i) (find_idx (\<lambda>p. class_code p = cc \<and> sub_class p = sub) devs)"

section \<open>Interrupt lines\<close>

definition pic_remap :: "'d bus \<Rightarrow> 'd \<Rightarrow> 'd" where
  "pic_remap b d = fold (\<lambda>(p, v). outb b p v)
     [(0x20, 0x11), (0xA0, 0x11), (0x21, 0x20), (0xA1, 0x28), (0x21, 0x04), (0xA1, 0x02), (0x21, 0x01), (0xA1, 0x01),
      (0x21, 0xFC), (0xA1, 0xFF)] d"

definition idt_unmask_irq :: "'d bus \<Rightarrow> u8 \<Rightarrow> 'd \<Rightarrow> 'd" where
  "idt_unmask_irq b irq d =
     (if irq < 8 then (let (mask, d1) = inb b 0x21 d in outb b 0x21 (mask AND NOT (push_bit (unat irq) 1)) d1)
      else if irq < 16 then
        (let (mask, d1) = inb b 0xA1 d; d2 = outb b 0xA1 (mask AND NOT (push_bit (unat (irq - 8)) 1)) d1;
             (mask2, d3) = inb b 0x21 d2
         in outb b 0x21 (mask2 AND NOT (push_bit 2 1)) d3)
      else d)"

section \<open>The device table\<close>

text \<open>The table never overflows, and every entry is a function that answered with a vendor.\<close>

definition devices_ok :: "pci_device list \<Rightarrow> bool" where
  "devices_ok devs \<longleftrightarrow> length devs \<le> 32 \<and> (\<forall>p \<in> set devs. p_vendor_id p \<noteq> 0xFFFF \<and> length (bar p) = 6)"

lemma length_read_bars [simp]: "length (fst (read_bars b bs slot fn is d)) = length is"
  by (induction "is" arbitrary: d) (auto simp: Let_def split: prod.splits, metis fst_conv)

lemma read_device_ok: "devices_ok (fst x) \<Longrightarrow> devices_ok (fst (pci_read_device b bs slot fn x))"
proof -
  have "length r = 6" if "read_bars b bs slot fn [0..<6] d = (r, d')" for r d d'
    using length_read_bars [of b bs slot fn "[0..<6]" d] that by simp
  then show "devices_ok (fst x) \<Longrightarrow> devices_ok (fst (pci_read_device b bs slot fn x))"
    by (auto simp: pci_read_device_def devices_ok_def PCI_MAX_DEVICES_def split_beta Let_def split: if_splits)
qed

lemma fold_ok: "(\<And>y s. P (fst s) \<Longrightarrow> P (fst (f y s))) \<Longrightarrow> P (fst s) \<Longrightarrow> P (fst (fold f ys s))"
  by (induction ys arbitrary: s) auto

lemma scan_slot_ok:
  assumes "devices_ok (fst x)"
  shows "devices_ok (fst (pci_scan_slot b bs slot x))"
proof -
  have "devices_ok (fst (fold (\<lambda>fn. pci_read_device b (of_nat bs) (of_nat slot) (of_nat fn)) fns (fst x, d)))" for fns d
    by (rule fold_ok) (use assms read_device_ok in auto)
  then show ?thesis
    using assms by (auto simp: pci_scan_slot_def Let_def split_beta)
qed

lemma pci_scan_ok: "devices_ok (fst (fold (\<lambda>bs. fold (pci_scan_slot b bs) slots) buses ([], d)))"
proof (rule fold_ok)
  show "devices_ok (fst (fold (pci_scan_slot b bs) slots s))" if "devices_ok (fst s)" for bs s
    by (rule fold_ok) (use that scan_slot_ok in auto)
qed (simp add: devices_ok_def)

lemma pci_init_ok: "pci_init b t = Some (devs, t') \<Longrightarrow> devices_ok devs"
  using pci_scan_ok [of b "[0..<32]" "[0..<256]" "dev t"] by (auto simp: pci_init_def Let_def split_beta)

end
