(* ===== verification/Text.thy ===== *)
theory Text
  imports Prelude
begin

text \<open>
  Bounded text output, as \<open>kernel/fs/fs.c\<close> and \<open>kernel/net/net.c\<close> share it: \<open>append_str\<close>, \<open>append_u64\<close>,
  \<open>append_u32\<close>, \<open>append_hex2\<close>. A buffer of \<open>max\<close> bytes with its position is the text written so far; one byte
  is kept for the terminating NUL.
\<close>

unbundle bit_operations_syntax

section \<open>Operations\<close>

fun append_str :: "nat \<Rightarrow> string \<Rightarrow> string \<Rightarrow> string" where
  "append_str m out [] = out"
| "append_str m out (c # s) = (if length out + 1 < m then append_str m (out @ [c]) s else out)"

definition digit :: "nat \<Rightarrow> char" where
  "digit n = char_of (48 + n)"

text \<open>The digits of \<open>v\<close> from the last one, into an array of \<open>n\<close> characters.\<close>

fun tmp_digits :: "nat \<Rightarrow> nat \<Rightarrow> string" where
  "tmp_digits 0 v = []"
| "tmp_digits (Suc n) v = (if v > 0 then digit (v mod 10) # tmp_digits n (v div 10) else [])"

definition append_u64 :: "nat \<Rightarrow> string \<Rightarrow> u64 \<Rightarrow> string" where
  "append_u64 m out v = append_str m out (rev (if v = 0 then [digit 0] else tmp_digits 24 (unat v)))"

definition append_u32 :: "nat \<Rightarrow> string \<Rightarrow> u32 \<Rightarrow> string" where
  "append_u32 m out v = append_str m out (rev (if v = 0 then [digit 0] else tmp_digits 16 (unat v)))"

definition append_hex2 :: "nat \<Rightarrow> string \<Rightarrow> u8 \<Rightarrow> string" where
  "append_hex2 m out v =
     (if length out + 2 \<ge> m then out
      else out @ [''0123456789abcdef'' ! unat (drop_bit 4 v), ''0123456789abcdef'' ! unat (v AND 0x0F)])"

section \<open>Bounds\<close>

lemma append_str_take: "append_str m out s = out @ take (m - 1 - length out) s"
proof (induction s arbitrary: out)
  case (Cons c s)
  show ?case
  proof (cases "length out + 1 < m")
    case True
    then have "m - 1 - length out = Suc (m - 1 - length (out @ [c]))"
      by simp
    then show ?thesis
      using Cons.IH [of "out @ [c]"] True by simp
  qed simp
qed simp

lemma append_str_fits: "length out + length s < m \<Longrightarrow> append_str m out s = out @ s"
  by (simp add: append_str_take)

lemma append_str_length: "length out < m \<Longrightarrow> length (append_str m out s) < m"
  by (simp add: append_str_take)

lemma append_u64_length: "length out < m \<Longrightarrow> length (append_u64 m out v) < m"
  by (simp add: append_u64_def append_str_length)

lemma append_u32_length: "length out < m \<Longrightarrow> length (append_u32 m out v) < m"
  by (simp add: append_u32_def append_str_length)

lemma append_hex2_length: "length out < m \<Longrightarrow> length (append_hex2 m out v) < m"
  by (simp add: append_hex2_def)

lemmas append_bounds = append_str_length append_u64_length append_u32_length append_hex2_length

section \<open>Decimal numbers\<close>

text \<open>The usual decimal representation.\<close>

fun decimal :: "nat \<Rightarrow> string" where
  "decimal n = (if n < 10 then [digit n] else decimal (n div 10) @ [digit (n mod 10)])"

declare decimal.simps [simp del]

lemma tmp_digits_decimal: "0 < v \<Longrightarrow> v < 10 ^ n \<Longrightarrow> rev (tmp_digits n v) = decimal v"
proof (induction n arbitrary: v)
  case (Suc n)
  show ?case
  proof (cases "v < 10")
    case True
    then have "tmp_digits n (v div 10) = []"
      by (cases n) auto
    then show ?thesis
      using True Suc.prems by (simp add: decimal.simps [of v])
  next
    case False
    have "v div 10 < 10 ^ n"
      using Suc.prems(2) by (simp add: div_less_iff_less_mult mult.commute)
    then show ?thesis
      using False Suc.IH [of "v div 10"] Suc.prems(1) by (simp add: decimal.simps [of v])
  qed
qed simp

text \<open>The arrays of 24 and 16 characters hold every 64-bit and 32-bit number.\<close>

lemma append_u64_decimal: "append_u64 m out v = append_str m out (decimal (unat v))"
proof -
  have "unat v < 10 ^ 24"
    using unsigned_less [of v, where ?'a = nat] by (simp add: less_trans)
  then show ?thesis
    using tmp_digits_decimal [of "unat v" 24] by (cases "v = 0") (simp_all add: append_u64_def decimal.simps unat_gt_0)
qed

lemma append_u32_decimal: "append_u32 m out v = append_str m out (decimal (unat v))"
proof -
  have "unat v < 10 ^ 16"
    using unsigned_less [of v, where ?'a = nat] by (simp add: less_trans)
  then show ?thesis
    using tmp_digits_decimal [of "unat v" 16] by (cases "v = 0") (simp_all add: append_u32_def decimal.simps unat_gt_0)
qed

end
