(* ===== verification/NetData.thy ===== *)
theory NetData
  imports Text
begin

text \<open>
  The data conversions of \<open>kernel/net/net.c\<close>: byte order, the Internet checksum, printing and parsing of
  addresses. The checksum is compared with its definition in RFC 1071, the complement of the one's
  complement sum of the 16-bit big-endian words.
\<close>

unbundle bit_operations_syntax

section \<open>Byte order and checksum\<close>

definition bswap16 :: "u16 \<Rightarrow> u16" where
  "bswap16 v = push_bit 8 v OR drop_bit 8 v"

definition bswap32 :: "u32 \<Rightarrow> u32" where
  "bswap32 v = push_bit 24 (v AND 0x000000FF) OR push_bit 8 (v AND 0x0000FF00) OR
     drop_bit 8 (v AND 0x00FF0000) OR drop_bit 24 (v AND 0xFF000000)"

fun checksum_sum :: "bytes \<Rightarrow> u32 \<Rightarrow> u32" where
  "checksum_sum (p0 # p1 # ps) acc = checksum_sum ps (acc + ucast (push_bit 8 (ucast p0) OR ucast p1 :: u16))"
| "checksum_sum [p0] acc = acc + ucast (push_bit 8 (ucast p0) :: u16)"
| "checksum_sum [] acc = acc"

text \<open>Folding the carries back in; the sum gets smaller in each round.\<close>

lemma unat_halves: "unat (drop_bit 16 v) = unat v div 65536" "unat (v AND 0xFFFF) = unat v mod 65536" for v :: u32
proof -
  have "v AND 0xFFFF = take_bit 16 v"
    by (simp add: take_bit_eq_mask mask_eq_exp_minus_1)
  moreover have "unat (take_bit 16 v) = take_bit 16 (unat v)"
    by (simp add: unsigned_take_bit_eq)
  ultimately show "unat (v AND 0xFFFF) = unat v mod 65536"
    by (simp add: take_bit_eq_mod [of 16 "unat v"])
  show "unat (drop_bit 16 v) = unat v div 65536"
    using unsigned_less [of v, where ?'a = nat]
    unfolding unsigned_drop_bit_eq by (simp add: take_bit_nat_eq_self drop_bit_eq_div [of 16 "unat v"])
qed

lemma unat_fold: "unat ((v AND 0xFFFF) + drop_bit 16 v) = unat v mod 65536 + unat v div 65536" for v :: u32
proof -
  have "unat v < 2 ^ 32"
    using unsigned_less [of v, where ?'a = nat] by simp
  then have "unat v mod 65536 + unat v div 65536 < 2 ^ 32"
    by (simp add: add_less_le_mono less_mult_imp_div_less)
  then show ?thesis
    by (simp add: unat_word_ariths unat_halves)
qed

lemma fold_smaller: "drop_bit 16 v \<noteq> 0 \<Longrightarrow> unat ((v AND 0xFFFF) + drop_bit 16 v) < unat v" for v :: u32
proof -
  assume "drop_bit 16 v \<noteq> 0"
  then have "unat v div 65536 > 0"
    by (metis bot_nat_0.not_eq_extremum unat_halves(1) unsigned_0 word_unat_eq_iff)
  then show ?thesis
    unfolding unat_fold using div_mult_mod_eq [of "unat v" 65536] by linarith
qed

function checksum_fold :: "u32 \<Rightarrow> u32" where
  "checksum_fold v = (if drop_bit 16 v \<noteq> 0 then checksum_fold ((v AND 0xFFFF) + drop_bit 16 v) else v)"
  by pat_completeness auto
termination
  by (relation "measure unat") (auto simp: fold_smaller)

declare checksum_fold.simps [simp del]

definition checksum :: "bytes \<Rightarrow> u16" where
  "checksum ps = ucast (NOT (checksum_fold (checksum_sum ps 0)))"

section \<open>Addresses\<close>

definition append_ip :: "nat \<Rightarrow> string \<Rightarrow> u32 \<Rightarrow> string" where
  "append_ip m out ip =
     (let o1 = append_str m (append_u32 m out (drop_bit 24 ip AND 0xFF)) ''.'';
          o2 = append_str m (append_u32 m o1 (drop_bit 16 ip AND 0xFF)) ''.'';
          o3 = append_str m (append_u32 m o2 (drop_bit 8 ip AND 0xFF)) ''.''
      in append_u32 m o3 (ip AND 0xFF))"

fun append_mac :: "nat \<Rightarrow> string \<Rightarrow> u8 list \<Rightarrow> string" where
  "append_mac m out [] = out"
| "append_mac m out [v] = append_hex2 m out v"
| "append_mac m out (v # vs) = append_mac m (append_str m (append_hex2 m out v) '':'') vs"

definition is_digit :: "char \<Rightarrow> bool" where
  "is_digit c \<longleftrightarrow> (48 :: nat) \<le> of_char c \<and> of_char c \<le> (57 :: nat)"

text \<open>One number: \<open>None\<close> is the return of 0 for a number above 255.\<close>

fun parse_part :: "string \<Rightarrow> u32 \<Rightarrow> (u32 \<times> string) option" where
  "parse_part [] v = Some (v, [])"
| "parse_part (c # s) v =
     (if is_digit c then
        (let v1 = v * 10 + (of_nat (of_char c) - 48) in if v1 > 255 then None else parse_part s v1)
      else Some (v, c # s))"

fun parse_parts :: "nat \<Rightarrow> string \<Rightarrow> u32 list option" where
  "parse_parts 0 s = Some []"
| "parse_parts (Suc n) s =
     (if s = [] then None
      else Option.bind (parse_part s 0) (\<lambda>(v, r).
        if n = 0 then Some [v]
        else (case r of c # r1 \<Rightarrow> if c = CHR ''.'' then map_option (Cons v) (parse_parts n r1) else None | [] \<Rightarrow> None)))"

definition net_parse_ipv4 :: "string \<Rightarrow> u32" where
  "net_parse_ipv4 s =
     (case parse_parts 4 s of
        Some [a, b, c, d] \<Rightarrow> push_bit 24 a OR push_bit 16 b OR push_bit 8 c OR d
      | _ \<Rightarrow> 0)"

section \<open>The checksum of RFC 1071\<close>

fun words_sum :: "bytes \<Rightarrow> nat" where
  "words_sum (a # b # r) = 256 * unat a + unat b + words_sum r"
| "words_sum [a] = 256 * unat a"
| "words_sum [] = 0"

text \<open>The one's complement sum: the sum modulo 65535, with 65535 for a non-zero multiple.\<close>

definition ones_sum :: "nat \<Rightarrow> nat" where
  "ones_sum s = (if s = 0 then 0 else (s - 1) mod 65535 + 1)"

lemma byte_less: "unat (a :: u8) < 256"
  using unsigned_less [of a, where ?'a = nat] by simp

lemma word_be: "unat (ucast (push_bit 8 (ucast a) OR ucast b :: u16) :: u32) = 256 * unat a + unat b" for a b :: u8
proof -
  have "push_bit 8 (ucast a) OR (ucast b :: u16) = push_bit 8 (ucast a) + ucast b"
    by (rule disjunctive_add [symmetric]) (auto simp: bit_simps dest: bit_imp_le_length)
  moreover have "unat (push_bit 8 (ucast a) + ucast b :: u16) = 256 * unat a + unat b"
  proof -
    show ?thesis
      using byte_less [of a] byte_less [of b]
      by (simp add: push_bit_eq_mult unat_word_ariths unsigned_ucast_eq take_bit_nat_eq_self)
  qed
  moreover have "256 * unat a + unat b < 2 ^ 32"
    using byte_less [of a] byte_less [of b] by simp
  ultimately show ?thesis
    by (simp add: unsigned_ucast_eq take_bit_nat_eq_self)
qed

lemma words_sum_bound: "words_sum ps \<le> 65535 * ((length ps + 1) div 2)"
proof (induction ps rule: words_sum.induct)
  case (1 a b r)
  then show ?case
    using byte_less [of a] byte_less [of b] by simp
next
  case (2 a)
  then show ?case
    using byte_less [of a] by simp
qed simp

lemma checksum_sum_words:
  "unat acc + words_sum ps < 2 ^ 32 \<Longrightarrow> unat (checksum_sum ps acc) = unat acc + words_sum ps"
proof (induction ps acc rule: checksum_sum.induct)
  case (1 p0 p1 ps acc)
  then have "unat (acc + ucast (push_bit 8 (ucast p0) OR ucast p1 :: u16)) = unat acc + (256 * unat p0 + unat p1)"
    by (simp add: unat_word_ariths word_be)
  then show ?case
    using 1 by simp
next
  case (2 p0 acc)
  have "unat (ucast (push_bit 8 (ucast p0) :: u16) :: u32) = 256 * unat p0"
    using word_be [of p0 0] by simp
  then show ?case
    using 2 by (simp add: unat_word_ariths)
qed simp

lemma ones_sum_small: "s < 65536 \<Longrightarrow> ones_sum s = s"
  by (simp add: ones_sum_def)

lemma ones_sum_fold: "65536 \<le> s \<Longrightarrow> ones_sum (s mod 65536 + s div 65536) = ones_sum s"
proof -
  assume "65536 \<le> s"
  define q r where "q = s div 65536" and "r = s mod 65536"
  have s: "s = 65536 * q + r" and q: "0 < q"
    using \<open>65536 \<le> s\<close> by (simp_all add: q_def r_def div_greater_zero_iff)
  have "s - 1 = (r + q - 1) + 65535 * q"
    using s q by simp
  then have "(s - 1) mod 65535 = (r + q - 1) mod 65535"
    by (metis mod_mult_self2)
  then show ?thesis
    unfolding q_def [symmetric] r_def [symmetric] using q \<open>65536 \<le> s\<close> by (simp add: ones_sum_def)
qed

lemma checksum_fold_ones: "unat (checksum_fold v) = ones_sum (unat v)"
proof (induction v rule: checksum_fold.induct)
  case (1 v)
  show ?case
  proof (cases "drop_bit 16 v \<noteq> 0")
    case True
    then have "unat v div 65536 > 0"
      by (metis bot_nat_0.not_eq_extremum unat_halves(1) unsigned_0 word_unat_eq_iff)
    then have "65536 \<le> unat v"
      by (simp add: div_greater_zero_iff)
    then show ?thesis
      using True 1 ones_sum_fold [of "unat v"] by (simp add: checksum_fold.simps [of v] unat_fold)
  next
    case False
    then have "unat v < 65536"
      by (metis div_eq_0_iff unat_halves(1) unsigned_0 zero_neq_numeral)
    then show ?thesis
      using False by (simp add: checksum_fold.simps [of v] ones_sum_small)
  qed
qed

lemma ones_sum_bound: "ones_sum s \<le> 65535"
proof -
  have "m + 1 \<le> 65535" if "m < 65535" for m :: nat
    using that by simp
  from this [of "(s - 1) mod 65535"] show ?thesis
    unfolding ones_sum_def by (auto split: if_splits)
qed

lemma unat_complement: "unat v \<le> 65535 \<Longrightarrow> unat (ucast (NOT v) :: u16) = 65535 - unat v" for v :: u32
proof -
  assume v: "unat v \<le> 65535"
  have "ucast (NOT v) = (NOT (ucast v) :: u16)"
    by (rule bit_word_eqI) (simp add: bit_simps)
  moreover have "unat (ucast v :: u16) = unat v"
    using v by (simp add: unsigned_ucast_eq take_bit_nat_eq_self)
  moreover have "unat (NOT w) = 65535 - unat w" for w :: u16
  proof -
    have "NOT w = - 1 - w"
      by (simp add: not_eq_complement)
    then show ?thesis
      using unat_sub [of w "- 1"] by (simp add: unsigned_minus_1_eq_mask mask_eq_exp_minus_1)
  qed
  ultimately show ?thesis
    by simp
qed

lemma checksum_ones:
  assumes "length ps \<le> 131072"
  shows "unat (checksum ps) = 65535 - ones_sum (words_sum ps)"
proof -
  have "words_sum ps \<le> 65535 * 65536"
  proof -
    have "(length ps + 1) div 2 \<le> 65536"
      using assms by simp
    then show ?thesis
      using words_sum_bound [of ps] by linarith
  qed
  then have "unat (checksum_sum ps 0) = words_sum ps"
    using checksum_sum_words [of 0 ps] by simp
  then show ?thesis
    unfolding checksum_def using checksum_fold_ones [of "checksum_sum ps 0"] ones_sum_bound [of "words_sum ps"]
      unat_complement [of "checksum_fold (checksum_sum ps 0)"] by simp
qed

lemma ones_sum_max: "ones_sum s = 65535 \<longleftrightarrow> 0 < s \<and> 65535 dvd s"
proof (cases "s = 0")
  case False
  have "(s - 1) mod 65535 + 1 = 65535 \<longleftrightarrow> 65535 dvd s"
  proof
    assume "(s - 1) mod 65535 + 1 = 65535"
    then have "(s - 1) mod 65535 = 65534"
      by simp
    then have "s = 65535 * ((s - 1) div 65535) + 65535"
      using False div_mult_mod_eq [of "s - 1" 65535] by linarith
    then show "65535 dvd s"
      by (metis dvd_add_right_iff dvd_refl dvd_triv_left)
  next
    assume "65535 dvd s"
    then obtain k where k: "s = 65535 * k" ..
    then obtain m where "k = Suc m"
      using False by (cases k) auto
    then have "s - 1 = 65534 + 65535 * m"
      using k by simp
    then have "(s - 1) mod 65535 = 65534"
      by simp
    then show "(s - 1) mod 65535 + 1 = 65535"
      by simp
  qed
  then show ?thesis
    using False by (simp add: ones_sum_def)
qed (simp add: ones_sum_def)

lemma ones_sum_cong: "65535 dvd s + (65535 - ones_sum s)"
proof (cases "s = 0")
  case False
  have "s - 1 = 65535 * ((s - 1) div 65535) + (ones_sum s - 1)" "0 < ones_sum s"
    using False by (simp_all add: ones_sum_def)
  then have "s + (65535 - ones_sum s) = 65535 * ((s - 1) div 65535) + 65535"
    using False ones_sum_bound [of s] by linarith
  then show ?thesis
    by simp
qed (simp add: ones_sum_def)

lemma checksum_zero_iff:
  assumes "length ps \<le> 131072"
  shows "checksum ps = 0 \<longleftrightarrow> 0 < words_sum ps \<and> 65535 dvd words_sum ps"
proof -
  have "checksum ps = 0 \<longleftrightarrow> unat (checksum ps) = 0"
    by (simp add: unsigned_eq_0_iff)
  also have "\<dots> \<longleftrightarrow> ones_sum (words_sum ps) = 65535"
    using checksum_ones [OF assms] ones_sum_bound [of "words_sum ps"] by linarith
  finally show ?thesis
    by (simp add: ones_sum_max)
qed

lemma words_sum_put:
  assumes "even i" "i + 1 < length ps" "ps ! i = 0" "ps ! (i + 1) = 0"
  shows "words_sum (ps[i := x, i + 1 := y]) = words_sum ps + 256 * unat x + unat y"
  using assms
proof (induction ps arbitrary: i rule: words_sum.induct)
  case (1 a b r)
  show ?case
  proof (cases i)
    case 0
    then show ?thesis
      using 1 by simp
  next
    case (Suc j)
    then obtain k where "i = Suc (Suc k)" "even k"
      using 1(2) by (cases j) auto
    then show ?thesis
      using 1(1) [of k] 1(3-5) by simp
  qed
qed auto

text \<open>A checksum stored in big-endian order makes the data check; stored in the other order it does so only when its
  two bytes agree.\<close>

lemma not_dvd_small: "x < y \<Longrightarrow> y < 256 \<Longrightarrow> 65535 dvd s + (256 * x + y) \<Longrightarrow> 65535 dvd s + (256 * y + x) \<Longrightarrow> False"
  for s x y :: nat
proof -
  assume a: "x < y" "y < 256" "65535 dvd s + (256 * x + y)" "65535 dvd s + (256 * y + x)"
  have "s + (256 * y + x) - (s + (256 * x + y)) = 255 * (y - x)"
    using a(1) by (simp add: diff_mult_distrib2)
  then have "65535 dvd 255 * (y - x)"
    using dvd_diff_nat [OF a(4) a(3)] by simp
  moreover have "0 < 255 * (y - x)" "255 * (y - x) < 65535"
    using a(1,2) by simp_all
  ultimately show False
    using nat_dvd_not_less by blast
qed

lemma swapped_difference:
  fixes hi lo :: nat
  assumes "hi < 256" "lo < 256" "65535 dvd s + (256 * hi + lo)"
  shows "65535 dvd s + (256 * lo + hi) \<longleftrightarrow> hi = lo"
proof
  assume d: "65535 dvd s + (256 * lo + hi)"
  show "hi = lo"
    using not_dvd_small [of hi lo s] not_dvd_small [of lo hi s] d assms by (metis linorder_neqE_nat)
qed (use assms in simp)

lemma checksum_stored:
  assumes l: "length ps \<le> 131072" and i: "even i" "i + 1 < length ps" "ps ! i = 0" "ps ! (i + 1) = 0" and s: "0 < words_sum ps"
  defines "c \<equiv> checksum ps"
  shows "checksum (put16 i (bswap16 c) ps) = 0"
    and "checksum (put16 i c ps) = 0 \<longleftrightarrow> (ucast c :: u8) = ucast (drop_bit 8 c)"
proof -
  define hi lo :: u8 where "hi = ucast (drop_bit 8 c)" and "lo = ucast c"
  have "push_bit 8 (ucast hi) OR ucast lo = c"
    using join8_16 [of c] by (simp add: hi_def lo_def or.commute)
  then have c: "unat c = 256 * unat hi + unat lo"
    using word_be [of hi lo] unsigned_less [of c, where ?'a = nat] by (simp add: unsigned_ucast_eq take_bit_nat_eq_self)
  have "ucast (bswap16 c) = hi" "ucast (drop_bit 8 (bswap16 c)) = lo"
    unfolding hi_def lo_def bswap16_def
    by (rule bit_word_eqI; auto simp: bit_simps dest: bit_imp_le_length)+
  then have b: "words_sum (put16 i (bswap16 c) ps) = words_sum ps + (256 * unat hi + unat lo)"
    using words_sum_put [OF i] by (simp add: put16_def put8_def)
  have l': "words_sum (put16 i c ps) = words_sum ps + (256 * unat lo + unat hi)"
    using words_sum_put [OF i] by (simp add: put16_def put8_def hi_def lo_def)
  have "65535 dvd words_sum ps + unat c"
    using checksum_ones [OF l] ones_sum_cong [of "words_sum ps"] s by (simp add: c_def)
  then have d: "65535 dvd words_sum ps + (256 * unat hi + unat lo)"
    unfolding c .
  show "checksum (put16 i (bswap16 c) ps) = 0"
    using checksum_zero_iff [of "put16 i (bswap16 c) ps"] l s d unfolding b length_put16 by blast
  have "checksum (put16 i c ps) = 0 \<longleftrightarrow> 65535 dvd words_sum ps + (256 * unat lo + unat hi)"
    using checksum_zero_iff [of "put16 i c ps"] l s unfolding l' length_put16 by blast
  also have "\<dots> \<longleftrightarrow> unat hi = unat lo"
    using swapped_difference [OF byte_less byte_less d] .
  finally show "checksum (put16 i c ps) = 0 \<longleftrightarrow> (ucast c :: u8) = ucast (drop_bit 8 c)"
    by (metis hi_def lo_def word_unat_eq_iff)
qed

section \<open>Printed addresses\<close>

lemma parse_part_append:
  "parse_part s v = Some (w, []) \<Longrightarrow> (case r of [] \<Rightarrow> True | c # _ \<Rightarrow> \<not> is_digit c) \<Longrightarrow> parse_part (s @ r) v = Some (w, r)"
  by (induction s v rule: parse_part.induct) (auto simp: Let_def split: if_splits list.splits)

lemma of_char_digit: "k < 10 \<Longrightarrow> of_char (digit k) = (48 + k :: nat)"
  by (simp add: digit_def)

lemma parse_digit:
  assumes "k < 10" "v \<le> 255"
  shows "parse_part (digit k # s) (of_nat v) = (if 255 < 10 * v + k then None else parse_part s (of_nat (10 * v + k)))"
proof -
  have "is_digit (digit k)"
    using assms(1) by (simp add: is_digit_def of_char_digit)
  moreover have "(of_nat v * 10 + (of_nat (of_char (digit k)) - 48) :: u32) = of_nat (10 * v + k)"
    using assms(1) by (simp add: of_char_digit mult.commute)
  moreover have "(255 :: u32) < of_nat (10 * v + k) \<longleftrightarrow> 255 < 10 * v + k"
  proof -
    have "unat (of_nat (10 * v + k) :: u32) = 10 * v + k"
      using assms by (simp only: unsigned_of_nat) (simp add: take_bit_nat_eq_self)
    then show ?thesis
      unfolding word_less_nat_alt by simp
  qed
  ultimately show ?thesis
    by (simp only: parse_part.simps Let_def if_True)
qed

lemma parse_part_decimal_all: "\<forall>n < 256. parse_part (decimal n) 0 = Some (of_nat n, []) \<and> decimal n \<noteq> [] \<and> length (decimal n) \<le> 3"
proof (intro allI impI)
  fix n :: nat
  assume n: "n < 256"
  have d: "decimal n = (if n < 10 then [digit n] else if n < 100 then [digit (n div 10), digit (n mod 10)]
      else [digit (n div 100), digit (n div 10 mod 10), digit (n mod 10)])"
    using n div_less_iff_less_mult [of 10 n 10] div_less_iff_less_mult [of 100 n 10]
    by (simp add: decimal.simps [of n] decimal.simps [of "n div 10"] decimal.simps [of "n div 100"]
        div_mult2_eq [of n 10 10, simplified, symmetric])
  have e: "10 * (n div 10) + n mod 10 = n" "10 * (n div 100) + n div 10 mod 10 = n div 10"
    using div_mult2_eq [of n 10 10] by simp_all
  have b: "n div 100 < 10" "n div 10 mod 10 < 10" "n mod 10 < 10" "n div 10 \<le> 255" "n div 100 \<le> 255"
    using n by simp_all
  then have l: "\<not> 255 < n div 10" "\<not> 255 < n div 100"
    by linarith+
  note p = parse_digit [OF b(1), of 0] parse_digit [OF b(2,5)] parse_digit [OF b(3,4)]
  have "parse_part (decimal n) 0 = Some (of_nat n, [])"
  proof (cases "n < 100")
    case True
    then show ?thesis
      using p(3) [of "[]"] parse_digit [of n 0 "[]"] parse_digit [of "n div 10" 0 "[digit (n mod 10)]"] n e
      by (simp add: d div_less_iff_less_mult del: parse_part.simps(2))
  next
    case False
    then show ?thesis
      using p(1) [of "[digit (n div 10 mod 10), digit (n mod 10)]"] p(2) [of "[digit (n mod 10)]"] p(3) [of "[]"] n
      by (simp add: d e l del: parse_part.simps(2))
  qed
  then show "parse_part (decimal n) 0 = Some (of_nat n, []) \<and> decimal n \<noteq> [] \<and> length (decimal n) \<le> 3"
    by (simp add: d)
qed

lemma parse_part_decimal:
  "n < 256 \<Longrightarrow> (case r of [] \<Rightarrow> True | c # _ \<Rightarrow> \<not> is_digit c) \<Longrightarrow> parse_part (decimal n @ r) 0 = Some (of_nat n, r)"
  using parse_part_append [of "decimal n" 0 "of_nat n" r] parse_part_decimal_all by blast

definition dotted :: "nat \<Rightarrow> nat \<Rightarrow> nat \<Rightarrow> nat \<Rightarrow> string" where
  "dotted a b c d = decimal a @ ''.'' @ decimal b @ ''.'' @ decimal c @ ''.'' @ decimal d"

lemma parse_dotted:
  assumes "a < 256" "b < 256" "c < 256" "d < 256"
  shows "parse_parts 4 (dotted a b c d) = Some [of_nat a, of_nat b, of_nat c, of_nat d]"
proof -
  have ne: "decimal x \<noteq> []" if "x < 256" for x
    using parse_part_decimal_all that by blast
  have dot: "\<not> is_digit (CHR ''.'')"
    by (simp add: is_digit_def)
  have p: "parse_part (decimal x @ CHR ''.'' # r) 0 = Some (of_nat x, CHR ''.'' # r)" "parse_part (decimal x) 0 = Some (of_nat x, [])"
    if "x < 256" for x r
    using parse_part_decimal [OF that, of "CHR ''.'' # r"] parse_part_decimal [OF that, of "[]"] dot by simp_all
  show ?thesis
    using assms ne p by (simp add: dotted_def numeral_eq_Suc)
qed

definition octet :: "nat \<Rightarrow> u32 \<Rightarrow> nat" where
  "octet i ip = unat (drop_bit i ip AND 0xFF)"

lemma and_FF: "x AND 0xFF = take_bit 8 x" for x :: u32
  by (simp add: take_bit_eq_mask mask_eq_exp_minus_1)

lemma octet_bound: "octet i ip < 256"
proof -
  have "drop_bit i ip AND 0xFF = take_bit 8 (drop_bit i ip)"
    by (rule and_FF)
  then show ?thesis
    unfolding octet_def using take_bit_nat_less_exp [of 8 "unat (drop_bit i ip)"] by (simp only: unsigned_take_bit_eq) simp
qed

lemma append_ip_dotted:
  assumes "length out + 15 < m"
  shows "append_ip m out ip = out @ dotted (octet 24 ip) (octet 16 ip) (octet 8 ip) (octet 0 ip)"
proof -
  have l: "length (decimal (octet i ip)) \<le> 3" for i
    using parse_part_decimal_all octet_bound [of i ip] by blast
  show ?thesis
    using assms l [of 24] l [of 16] l [of 8] l [of 0]
    by (simp add: append_ip_def Let_def append_u32_decimal append_str_fits dotted_def octet_def [symmetric])
      (simp add: octet_def append_str_fits)
qed

lemma join_octets: "push_bit 24 (drop_bit 24 ip AND 0xFF) OR push_bit 16 (drop_bit 16 ip AND 0xFF) OR
    push_bit 8 (drop_bit 8 ip AND 0xFF) OR (ip AND 0xFF) = ip" for ip :: u32
  unfolding and_FF
proof (rule bit_word_eqI)
  fix n
  assume "n < LENGTH(32)"
  then consider "n < 8" | "8 \<le> n" "n < 16" | "16 \<le> n" "n < 24" | "24 \<le> n" "n < 32"
    by fastforce
  then show "bit (push_bit 24 (take_bit 8 (drop_bit 24 ip)) OR push_bit 16 (take_bit 8 (drop_bit 16 ip)) OR
      push_bit 8 (take_bit 8 (drop_bit 8 ip)) OR take_bit 8 ip) n = bit ip n"
    by cases (auto simp: bit_or_iff bit_push_bit_iff bit_take_bit_iff bit_drop_bit_eq)
qed

lemma parse_printed: "length out + 15 < m \<Longrightarrow> out = [] \<Longrightarrow> net_parse_ipv4 (append_ip m out ip) = ip"
  using join_octets [of ip]
  by (simp add: append_ip_dotted net_parse_ipv4_def parse_dotted octet_bound) (simp add: octet_def)

section \<open>Properties\<close>

text \<open>C26. For data of up to 128 KB the checksum routine, with its 32-bit accumulator and carry loop, computes the Internet
  checksum of RFC 1071: the complement of the one's complement sum of the big-endian 16-bit words, the last one padded
  with zero. In particular a block checks (the routine gives 0) exactly when its words are not all zero and sum
  to a multiple of 65535.\<close>
theorem checksum_rfc1071:
  assumes "length ps \<le> 131072"
  shows "unat (checksum ps) = 65535 - ones_sum (words_sum ps) \<and>
    (checksum ps = 0 \<longleftrightarrow> 0 < words_sum ps \<and> 65535 dvd words_sum ps)"
  using checksum_ones [OF assms] checksum_zero_iff [OF assms] by blast

theorem checksum_rfc1071_witness: "checksum [0x45, 0x00, 0x01] = 0xB9FF"
proof -
  have "unat (checksum [0x45, 0x00, 0x01]) = 65535 - ones_sum (words_sum [0x45, 0x00, 0x01])"
    using checksum_rfc1071 [of "[0x45, 0x00, 0x01]"] by simp
  then show ?thesis
    by (simp add: ones_sum_def word_unat_eq_iff)
qed

end
