(* ===== verification/Net.thy ===== *)
theory Net
  imports Pci NetData "HOL-Library.Monad_Syntax"
begin

text \<open>
  The network driver and protocols of \<open>kernel/net/net.c\<close>: the NE2000 card, ARP, IPv4, ICMP echo and UDP. The
  card is behind the ports of the bus, so whatever arrives from the network is arbitrary. The tick counter,
  which the timer interrupt advances, is read through the parameter \<open>now\<close>; the local array \<open>frame\<close> of
  \<open>net_poll\<close> starts with arbitrary contents, the parameter \<open>junk\<close>. \<open>None\<close> is an access outside a buffer.
\<close>

unbundle bit_operations_syntax

section \<open>State\<close>

definition ETH_TYPE_ARP :: u16 where "ETH_TYPE_ARP = 0x0806"
definition ETH_TYPE_IPV4 :: u16 where "ETH_TYPE_IPV4 = 0x0800"
definition IP_PROTO_ICMP :: u8 where "IP_PROTO_ICMP = 1"
definition IP_PROTO_UDP :: u8 where "IP_PROTO_UDP = 17"
definition NE_CR :: u16 where "NE_CR = 0x00"
definition NE_PSTART :: u16 where "NE_PSTART = 0x01"
definition NE_PSTOP :: u16 where "NE_PSTOP = 0x02"
definition NE_BNRY :: u16 where "NE_BNRY = 0x03"
definition NE_TPSR :: u16 where "NE_TPSR = 0x04"
definition NE_TBCR0 :: u16 where "NE_TBCR0 = 0x05"
definition NE_ISR :: u16 where "NE_ISR = 0x07"
definition NE_RSAR0 :: u16 where "NE_RSAR0 = 0x08"
definition NE_RBCR0 :: u16 where "NE_RBCR0 = 0x0A"
definition NE_RCR :: u16 where "NE_RCR = 0x0C"
definition NE_TCR :: u16 where "NE_TCR = 0x0D"
definition NE_DCR :: u16 where "NE_DCR = 0x0E"
definition NE_IMR :: u16 where "NE_IMR = 0x0F"
definition NE_DATA :: u16 where "NE_DATA = 0x10"
definition NE_CURR :: u16 where "NE_CURR = 0x07"
definition NE_RX_START :: u8 where "NE_RX_START = 0x46"
definition NE_RX_STOP :: u8 where "NE_RX_STOP = 0x80"
definition LOCAL_IP :: u32 where "LOCAL_IP = 0x0A00020F"
definition ARP_TTL_TICKS :: u64 where "ARP_TTL_TICKS = 6000"
definition PING_WAIT_SPINS :: nat where "PING_WAIT_SPINS = 120000"

datatype net_driver = NET_DRIVER_NONE | NET_DRIVER_NE2000 | NET_DRIVER_VIRTIO

record net_status =
  initialized :: bool
  driver :: net_driver
  vendor_id :: u16
  device_id :: u16
  n_bus :: u8
  n_slot :: u8
  n_function :: u8
  n_irq :: u8
  packets_rx :: u32
  packets_tx :: u32
  rx_errors :: u32
  dropped :: u32
  checksum_errors :: u32
  irq_count :: u32
  arp_entries :: u32
  last_ping_ip :: u32
  last_ping_ok :: bool
  last_ping_seq :: u16
  io_base :: u32
  mac :: "u8 list"

record arp_entry =
  a_ip :: u32
  a_mac :: "u8 list"
  updated :: u64
  a_valid :: bool

record udp_packet =
  src_ip :: u32
  src_port :: u16
  dst_port :: u16
  u_len :: u16
  u_data :: bytes
  u_valid :: bool

record 'd net =
  status :: net_status
  arp_cache :: "arp_entry list"
  icmp_seq :: u16
  rx_boundary :: u8
  pending_ping_ip :: u32
  pending_ping_seq :: u16
  last_udp :: udp_packet
  card :: 'd

abbreviation upd_status :: "(net_status \<Rightarrow> net_status) \<Rightarrow> 'd net \<Rightarrow> 'd net" where
  "upd_status f s \<equiv> s\<lparr>status := f (status s)\<rparr>"

section \<open>Memory\<close>

text \<open>Reads of a frame, and the little-endian stores \<open>*(uint16_t*)p = v\<close> and \<open>*(uint32_t*)p = v\<close>.\<close>

definition rd_bytes :: "bytes \<Rightarrow> nat \<Rightarrow> nat \<Rightarrow> bytes option" where
  "rd_bytes p i n = (if i + n \<le> length p then Some (take n (drop i p)) else None)"

definition rd8 :: "bytes \<Rightarrow> nat \<Rightarrow> u8 option" where
  "rd8 p i = (if i < length p then Some (p ! i) else None)"

definition rd16 :: "bytes \<Rightarrow> nat \<Rightarrow> u16 option" where
  "rd16 p i = (if i + 2 \<le> length p then Some (get16 p i) else None)"

definition rd32 :: "bytes \<Rightarrow> nat \<Rightarrow> u32 option" where
  "rd32 p i = (if i + 4 \<le> length p then Some (get32 p i) else None)"

definition wr_bytes :: "nat \<Rightarrow> bytes \<Rightarrow> bytes \<Rightarrow> bytes option" where
  "wr_bytes i src p = (if i + length src \<le> length p then Some (put_bytes i src p) else None)"

definition le16 :: "u16 \<Rightarrow> bytes" where
  "le16 v = [ucast v, ucast (drop_bit 8 v)]"

definition le32 :: "u32 \<Rightarrow> bytes" where
  "le32 v = le16 (ucast v) @ le16 (ucast (drop_bit 16 v))"

text \<open>\<open>outb\<close> to several registers of the card in turn.\<close>

definition ne_outs :: "'d bus \<Rightarrow> u16 \<Rightarrow> (u16 \<times> u8) list \<Rightarrow> 'd \<Rightarrow> 'd" where
  "ne_outs b io rvs d = fold (\<lambda>(r, v). outb b (io + r) v) rvs d"

section \<open>Device\<close>

definition net_driver_name :: "net_driver \<Rightarrow> string" where
  "net_driver_name d =
     (case d of NET_DRIVER_NE2000 \<Rightarrow> ''NE2000'' | NET_DRIVER_VIRTIO \<Rightarrow> ''virtio-net'' | NET_DRIVER_NONE \<Rightarrow> ''none'')"

definition is_ne2000 :: "u16 \<Rightarrow> u16 \<Rightarrow> bool" where
  "is_ne2000 vendor device \<longleftrightarrow> vendor = 0x10EC \<and> device = 0x8029"

definition is_virtio_net :: "u16 \<Rightarrow> u16 \<Rightarrow> bool" where
  "is_virtio_net vendor device \<longleftrightarrow> vendor = 0x1AF4 \<and> device \<ge> 0x1000 \<and> device \<le> 0x104F"

definition io_base_from_bar :: "u32 \<Rightarrow> u16" where
  "io_base_from_bar br = ucast (br AND NOT 0x3)"

definition ne2k_init :: "'d bus \<Rightarrow> u16 \<Rightarrow> 'd net \<Rightarrow> 'd net" where
  "ne2k_init b io s =
     s\<lparr>rx_boundary := NE_RX_START,
       card := ne_outs b io
         ([(NE_CR, 0x21), (NE_DCR, 0x49), (NE_RBCR0, 0), (NE_RBCR0 + 1, 0), (NE_RCR, 0x20), (NE_TCR, 0x02),
           (NE_PSTART, NE_RX_START), (NE_PSTOP, NE_RX_STOP), (NE_BNRY, NE_RX_START), (NE_ISR, 0xFF), (NE_IMR, 0x1F),
           (NE_CR, 0x61), (NE_CURR, NE_RX_START + 1)] @
          map (\<lambda>i. (0x01 + of_nat i, mac (status s) ! i)) [0..<6] @ map (\<lambda>i. (0x08 + of_nat i, 0)) [0..<8] @
          [(NE_CR, 0x22), (NE_TCR, 0x00), (NE_RCR, 0x04)]) (card s)\<rparr>"

definition net_clear :: "'d net \<Rightarrow> 'd net" where
  "net_clear s = s\<lparr>
     status := \<lparr>initialized = True, driver = NET_DRIVER_NONE, vendor_id = 0, device_id = 0, n_bus = 0, n_slot = 0,
       n_function = 0, n_irq = 0, packets_rx = 0, packets_tx = 0, rx_errors = 0, dropped = 0, checksum_errors = 0,
       irq_count = 0, arp_entries = 0, last_ping_ip = 0, last_ping_ok = False, last_ping_seq = 0, io_base = 0,
       mac = [0x52, 0x54, 0x00, 0x12, 0x34, 0x56]\<rparr>,
     arp_cache := replicate 8 \<lparr>a_ip = 0, a_mac = replicate 6 0, updated = 0, a_valid = False\<rparr>\<rparr>"

text \<open>Taking over a found card; the interrupt line is opened when it is 10 or 11.\<close>

definition net_unmask :: "'d bus \<Rightarrow> 'd net \<Rightarrow> 'd net" where
  "net_unmask b s =
     (if n_irq (status s) = 10 \<or> n_irq (status s) = 11 then s\<lparr>card := idt_unmask_irq b (n_irq (status s)) (card s)\<rparr> else s)"

fun net_probe :: "'d bus \<Rightarrow> pci_device list \<Rightarrow> 'd net \<Rightarrow> 'd net \<times> log_level \<times> string" where
  "net_probe b [] s = (s, LOG_WARN, ''No supported network device detected'')"
| "net_probe b (p # ps) s =
     (if class_code p \<noteq> 0x02 \<or> sub_class p \<noteq> 0x00 then net_probe b ps s
      else
        (let s1 = upd_status (\<lambda>st. st\<lparr>vendor_id := p_vendor_id p, device_id := p_device_id p, n_bus := p_bus p,
                    n_slot := p_slot p, n_function := p_function p, n_irq := interrupt_line p\<rparr>) s;
             io = io_base_from_bar (bar p ! 0)
         in if is_ne2000 (p_vendor_id p) (p_device_id p) then
              (net_unmask b (ne2k_init b io (upd_status (\<lambda>st. st\<lparr>driver := NET_DRIVER_NE2000, io_base := ucast io\<rparr>) s1)),
               LOG_INFO, ''Network device initialized: NE2000'')
            else if is_virtio_net (p_vendor_id p) (p_device_id p) then
              (net_unmask b (upd_status (\<lambda>st. st\<lparr>driver := NET_DRIVER_VIRTIO, io_base := ucast io\<rparr>) s1),
               LOG_INFO, ''Network device detected: virtio-net'')
            else net_probe b ps s1))"

text \<open>The console takes the log line and holds the device state, which \<open>card\<close> is during the driver's work.\<close>

definition net_init :: "'d bus \<Rightarrow> pci_device list \<Rightarrow> 'd net \<Rightarrow> 'd terminal \<Rightarrow> ('d net \<times> 'd terminal) option" where
  "net_init b devs s t =
     (case net_probe b (fst (pci_get_devices devs)) (net_clear (s\<lparr>card := dev t\<rparr>)) of
        (s1, level, msg) \<Rightarrow> map_option (\<lambda>t1. (s1\<lparr>card := dev t1\<rparr>, t1)) (klog b level msg (t\<lparr>dev := card s1\<rparr>)))"

definition net_get_status :: "'d net \<Rightarrow> net_status" where
  "net_get_status s = status s"

definition net_arp_init :: "'d net \<Rightarrow> bool" where
  "net_arp_init s \<longleftrightarrow> driver (status s) \<noteq> NET_DRIVER_NONE"

section \<open>Sending and receiving\<close>

definition net_send_packet :: "'d bus \<Rightarrow> bytes \<Rightarrow> 'd net \<Rightarrow> (bool \<times> 'd net) option" where
  "net_send_packet b data s =
     (if data = [] \<or> driver (status s) \<noteq> NET_DRIVER_NE2000 \<or> io_base (status s) = 0 then Some (False, s)
      else do {
        frame \<leftarrow> wr_bytes 0 data (replicate 1536 0);
        let out_len = (if length data < 60 then 60 else length data);
        let io = (ucast (io_base (status s)) :: u16);
        let d1 = ne_outs b io [(NE_ISR, 0x40), (NE_RBCR0, of_nat (out_len mod 256)), (NE_RBCR0 + 1, of_nat (out_len div 256)),
                   (NE_RSAR0, 0x00), (NE_RSAR0 + 1, 0x40), (NE_CR, 0x12)] (card s);
        let d2 = outsw b (io + NE_DATA) (map (\<lambda>i. get16 frame (2 * i)) [0..<(out_len + 1) div 2]) d1;
        let d3 = ne_outs b io [(NE_TPSR, 0x40), (NE_TBCR0, of_nat (out_len mod 256)), (NE_TBCR0 + 1, of_nat (out_len div 256)),
                   (NE_CR, 0x26)] d2;
        Some (True, upd_status (\<lambda>st. st\<lparr>packets_tx := packets_tx st + 1\<rparr>) (s\<lparr>card := d3\<rparr>))
      })"

text \<open>A block transfer of \<open>n\<close> bytes from the card's memory at \<open>addr\<close>: \<open>(n + 1) / 2\<close> words.\<close>

definition ne_read :: "'d bus \<Rightarrow> u16 \<Rightarrow> nat \<Rightarrow> u8 \<Rightarrow> u8 \<Rightarrow> 'd \<Rightarrow> bytes \<times> 'd" where
  "ne_read b io n lo hi d =
     (let d1 = ne_outs b io [(NE_RBCR0, of_nat (n mod 256)), (NE_RBCR0 + 1, of_nat (n div 256)), (NE_RSAR0, lo),
                 (NE_RSAR0 + 1, hi), (NE_CR, 0x0A)] d;
          (ws, d2) = insw b (io + NE_DATA) ((n + 1) div 2) d1
      in (concat (map le16 ws), d2))"

definition prev_page :: "u8 \<Rightarrow> u8" where
  "prev_page p = (if p = NE_RX_START then NE_RX_STOP - 1 else p - 1)"

text \<open>How much of the payload lies before the end of the receive ring, and the copy of the payload in one or two parts.\<close>

definition first_part :: "u8 \<Rightarrow> nat \<Rightarrow> nat" where
  "first_part packet_page count =
     (let payload_len = count - 4;
          first0 = unat (NE_RX_STOP - packet_page) * 256;
          first = (if first0 > count then count else first0);
          first_payload = (if first > 4 then first - 4 else 0)
      in if first_payload > payload_len then payload_len else first_payload)"

definition copy_payload :: "'d bus \<Rightarrow> u16 \<Rightarrow> u8 \<Rightarrow> nat \<Rightarrow> nat \<Rightarrow> bytes \<Rightarrow> 'd \<Rightarrow> (bytes \<times> 'd) option" where
  "copy_payload b io packet_page first_payload payload_len buf d =
     (let (bs1, d1) = ne_read b io first_payload 4 packet_page d
      in do {
        buf1 \<leftarrow> wr_bytes 0 bs1 buf;
        if first_payload < payload_len then
          (let (bs2, d2) = ne_read b io (payload_len - first_payload) 0 NE_RX_START d1
           in map_option (\<lambda>p. (p, d2)) (wr_bytes first_payload bs2 buf1))
        else Some (buf1, d1)
      })"

text \<open>The result is the return value, the buffer and the length.\<close>

definition net_receive_packet :: "'d bus \<Rightarrow> bytes \<Rightarrow> nat \<Rightarrow> 'd net \<Rightarrow> (int \<times> bytes \<times> nat \<times> 'd net) option" where
  "net_receive_packet b buf len s =
     (if driver (status s) \<noteq> NET_DRIVER_NE2000 \<or> io_base (status s) = 0 then Some (-1, buf, len, s)
      else
        (let io = ucast (io_base (status s)) :: u16;
             (curr, d1) = inb b (io + NE_CURR) (ne_outs b io [(NE_CR, 0x62)] (card s));
             d2 = ne_outs b io [(NE_CR, 0x22)] d1;
             packet_page = (if rx_boundary s + 1 \<ge> NE_RX_STOP then NE_RX_START else rx_boundary s + 1)
         in if packet_page = curr then Some (0, buf, 0, s\<lparr>card := d2\<rparr>)
            else
              (let (hdr, d3) = ne_read b io 4 0 packet_page d2;
                   next_page = hdr ! 1; count = unat (get16 hdr 2)
               in if next_page < NE_RX_START \<or> next_page \<ge> NE_RX_STOP \<or> count < 4 \<or> count > 1600 then
                    Some (-1, buf, 0, upd_status (\<lambda>st. st\<lparr>rx_errors := rx_errors st + 1\<rparr>)
                      (s\<lparr>rx_boundary := prev_page curr, card := ne_outs b io [(NE_BNRY, prev_page curr)] d3\<rparr>))
                  else do {
                    (buf1, d4) \<leftarrow> copy_payload b io packet_page (first_part packet_page count) (count - 4) buf d3;
                    Some (1, buf1, count - 4, upd_status (\<lambda>st. st\<lparr>packets_rx := packets_rx st + 1\<rparr>)
                      (s\<lparr>rx_boundary := prev_page next_page,
                         card := ne_outs b io [(NE_BNRY, prev_page next_page), (NE_ISR, 0x01)] d4\<rparr>))
                  })))"

section \<open>ARP\<close>

definition count_valid :: "arp_entry list \<Rightarrow> u32" where
  "count_valid c = of_nat (length (filter a_valid c))"

definition expire_arp :: "u32 \<Rightarrow> 'd net \<Rightarrow> 'd net" where
  "expire_arp now s =
     (let c = map (\<lambda>e. if a_valid e \<and> ucast now - updated e > ARP_TTL_TICKS then e\<lparr>a_valid := False\<rparr> else e) (arp_cache s)
      in upd_status (\<lambda>st. st\<lparr>arp_entries := count_valid c\<rparr>) (s\<lparr>arp_cache := c\<rparr>))"

definition arp_slot :: "u32 \<Rightarrow> arp_entry list \<Rightarrow> nat" where
  "arp_slot ip c =
     (case find_idx (\<lambda>e. a_valid e \<and> a_ip e = ip) c of
        Some i \<Rightarrow> i
      | None \<Rightarrow> (case find_idx (\<lambda>e. \<not> a_valid e) c of Some i \<Rightarrow> i | None \<Rightarrow> 0))"

definition arp_cache_put :: "u32 \<Rightarrow> u32 \<Rightarrow> u8 list \<Rightarrow> 'd net \<Rightarrow> 'd net" where
  "arp_cache_put now ip m s =
     (let c = (arp_cache s)[arp_slot ip (arp_cache s) := \<lparr>a_ip = ip, a_mac = m, updated = ucast now, a_valid = True\<rparr>]
      in upd_status (\<lambda>st. st\<lparr>arp_entries := count_valid c\<rparr>) (s\<lparr>arp_cache := c\<rparr>))"

definition arp_lookup :: "u32 \<Rightarrow> u32 \<Rightarrow> 'd net \<Rightarrow> arp_entry option \<times> 'd net" where
  "arp_lookup now ip s =
     (let s1 = expire_arp now s
      in (map_option (\<lambda>i. arp_cache s1 ! i) (find_idx (\<lambda>e. a_valid e \<and> a_ip e = ip) (arp_cache s1)), s1))"

definition send_arp_reply :: "'d bus \<Rightarrow> bytes \<Rightarrow> 'd net \<Rightarrow> 'd net option" where
  "send_arp_reply b request s = do {
     dst \<leftarrow> rd_bytes request 6 6;
     tha \<leftarrow> rd_bytes request 22 6;
     tpa \<leftarrow> rd_bytes request 28 4;
     (r, s1) \<leftarrow> net_send_packet b (dst @ mac (status s) @ le16 (bswap16 ETH_TYPE_ARP) @ le16 (bswap16 1) @
       le16 (bswap16 ETH_TYPE_IPV4) @ [6, 4] @ le16 (bswap16 2) @ mac (status s) @ le32 (bswap32 LOCAL_IP) @ tha @ tpa) s;
     Some s1
   }"

definition send_arp_request :: "'d bus \<Rightarrow> u32 \<Rightarrow> 'd net \<Rightarrow> (bool \<times> 'd net) option" where
  "send_arp_request b target_ip s =
     net_send_packet b (replicate 6 0xFF @ mac (status s) @ le16 (bswap16 ETH_TYPE_ARP) @ le16 (bswap16 1) @
       le16 (bswap16 ETH_TYPE_IPV4) @ [6, 4] @ le16 (bswap16 1) @ mac (status s) @ le32 (bswap32 LOCAL_IP) @
       replicate 6 0 @ le32 (bswap32 target_ip)) s"

section \<open>Frames built by the kernel\<close>

definition ip_header0 :: "u8 \<Rightarrow> u16 \<Rightarrow> u32 \<Rightarrow> bytes" where
  "ip_header0 proto ip_len ip =
     [0x45, 0] @ le16 (bswap16 ip_len) @ [0, 0, 0, 0, 64, proto, 0, 0] @ le32 (bswap32 LOCAL_IP) @ le32 (bswap32 ip)"

definition ip_header :: "u8 \<Rightarrow> u16 \<Rightarrow> u32 \<Rightarrow> bytes" where
  "ip_header proto ip_len ip = put16 10 (checksum (ip_header0 proto ip_len ip)) (ip_header0 proto ip_len ip)"

definition icmp_echo0 :: "u16 \<Rightarrow> bytes" where
  "icmp_echo0 seq = [8, 0, 0, 0] @ le16 (bswap16 1) @ le16 (bswap16 seq) @ map of_char ''AO-OS-PING-0000'' @ [0]"

definition ping_frame :: "u8 list \<Rightarrow> u8 list \<Rightarrow> u32 \<Rightarrow> u16 \<Rightarrow> bytes" where
  "ping_frame dst src ip seq =
     dst @ src @ le16 (bswap16 ETH_TYPE_IPV4) @ ip_header IP_PROTO_ICMP (20 + 8 + 16) ip @
     put16 2 (checksum (icmp_echo0 seq)) (icmp_echo0 seq)"

definition udp_frame :: "u8 list \<Rightarrow> u8 list \<Rightarrow> u32 \<Rightarrow> u16 \<Rightarrow> bytes \<Rightarrow> bytes" where
  "udp_frame dst src ip port data =
     (let udp_len = of_nat (8 + length data); ip_len = 20 + udp_len
      in dst @ src @ le16 (bswap16 ETH_TYPE_IPV4) @ ip_header IP_PROTO_UDP ip_len ip @
         le16 (bswap16 49152) @ le16 (bswap16 port) @ le16 (bswap16 udp_len) @ [0, 0] @ data)"

section \<open>Received frames\<close>

text \<open>The reply is built in the first \<open>ip_len + 14\<close> bytes of the local array, which are the copied frame.\<close>

definition build_echo_reply :: "bytes \<Rightarrow> nat \<Rightarrow> u8 list \<Rightarrow> bytes option" where
  "build_echo_reply frame ip_len m = do {
     r0 \<leftarrow> rd_bytes frame 0 (ip_len + 14);
     dst \<leftarrow> rd_bytes frame 6 6;
     r1 \<leftarrow> wr_bytes 0 dst r0;
     r2 \<leftarrow> wr_bytes 6 m r1;
     src \<leftarrow> rd32 r2 26;
     r3 \<leftarrow> wr_bytes 26 (le32 (bswap32 LOCAL_IP)) r2;
     r4 \<leftarrow> wr_bytes 30 (le32 (bswap32 (bswap32 src))) r3;
     wr_bytes 24 (le16 0) r4
   }"

definition finish_echo_reply :: "bytes \<Rightarrow> nat \<Rightarrow> bytes option" where
  "finish_echo_reply r5 ip_len = do {
     vi \<leftarrow> rd8 r5 14;
     let hl = unat (vi AND 0x0F) * 4;
     h \<leftarrow> rd_bytes r5 14 hl;
     r6 \<leftarrow> wr_bytes 24 (le16 (checksum h)) r5;
     r7 \<leftarrow> wr_bytes (14 + hl) [0] r6;
     r8 \<leftarrow> wr_bytes (14 + hl + 2) [0, 0] r7;
     m \<leftarrow> (if ip_len < hl then None else rd_bytes r8 (14 + hl) (ip_len - hl));
     wr_bytes (14 + hl + 2) (le16 (checksum m)) r8
   }"

definition send_icmp_echo_reply :: "'d bus \<Rightarrow> bytes \<Rightarrow> nat \<Rightarrow> 'd net \<Rightarrow> 'd net option" where
  "send_icmp_echo_reply b frame len s =
     (if len < 14 + 20 + 8 then Some s
      else do {
        l \<leftarrow> rd16 frame 16;
        let ip_len = unat (bswap16 l);
        if ip_len + 14 > len \<or> ip_len + 14 > 1514 then Some s
        else do {
          r5 \<leftarrow> build_echo_reply frame ip_len (mac (status s));
          r9 \<leftarrow> finish_echo_reply r5 ip_len;
          (ok, s1) \<leftarrow> net_send_packet b r9 s;
          Some s1
        }
      })"

definition handle_arp :: "'d bus \<Rightarrow> ('d \<Rightarrow> u32) \<Rightarrow> bytes \<Rightarrow> nat \<Rightarrow> 'd net \<Rightarrow> 'd net option" where
  "handle_arp b now frame len s =
     (if len < 42 then Some s
      else do {
        op \<leftarrow> rd16 frame 20;
        spa \<leftarrow> rd32 frame 28;
        tpa \<leftarrow> rd32 frame 38;
        sha \<leftarrow> rd_bytes frame 22 6;
        let s1 = arp_cache_put (now (card s)) (bswap32 spa) sha s;
        if bswap16 op = 1 \<and> bswap32 tpa = LOCAL_IP then send_arp_reply b frame s1 else Some s1
      })"

abbreviation drop_packet :: "'d net \<Rightarrow> 'd net" where
  "drop_packet s \<equiv> upd_status (\<lambda>st. st\<lparr>dropped := dropped st + 1\<rparr>) s"

abbreviation bad_checksum :: "'d net \<Rightarrow> 'd net" where
  "bad_checksum s \<equiv> upd_status (\<lambda>st. st\<lparr>checksum_errors := checksum_errors st + 1\<rparr>) s"

definition handle_icmp :: "'d bus \<Rightarrow> bytes \<Rightarrow> nat \<Rightarrow> nat \<Rightarrow> nat \<Rightarrow> u32 \<Rightarrow> 'd net \<Rightarrow> 'd net option" where
  "handle_icmp b frame len off icmp_len src s =
     (if icmp_len < 8 then Some (drop_packet s)
      else do {
        m \<leftarrow> rd_bytes frame off icmp_len;
        if checksum m \<noteq> 0 then Some (bad_checksum s)
        else do {
          ty \<leftarrow> rd8 frame off;
          if ty = 8 then send_icmp_echo_reply b frame len s
          else if ty = 0 then do {
            q \<leftarrow> rd16 frame (off + 6);
            Some (if src = pending_ping_ip s \<and> bswap16 q = pending_ping_seq s
                  then upd_status (\<lambda>st. st\<lparr>last_ping_ok := True\<rparr>) s else s)
          }
          else Some s
        }
      })"

definition handle_udp :: "bytes \<Rightarrow> nat \<Rightarrow> nat \<Rightarrow> u32 \<Rightarrow> 'd net \<Rightarrow> 'd net option" where
  "handle_udp frame off udp_len src s =
     (if udp_len < 8 then Some (drop_packet s)
      else do {
        sp \<leftarrow> rd16 frame off;
        dp \<leftarrow> rd16 frame (off + 2);
        let n = (if udp_len - 8 > 127 then 127 else udp_len - 8);
        d \<leftarrow> rd_bytes frame (off + 8) n;
        d1 \<leftarrow> wr_bytes 0 d (u_data (last_udp s));
        d2 \<leftarrow> wr_bytes n [0] d1;
        Some (s\<lparr>last_udp := \<lparr>src_ip = src, src_port = bswap16 sp, dst_port = bswap16 dp, u_len = of_nat n, u_data = d2,
                u_valid = True\<rparr>\<rparr>)
      })"

text \<open>\<open>total - ihl\<close> as a 16-bit number, which wraps when the header claims to be longer than the packet.\<close>

definition payload_len :: "nat \<Rightarrow> nat \<Rightarrow> nat" where
  "payload_len total_len ihl = unat (of_nat total_len - of_nat ihl :: u16)"

definition handle_ipv4 :: "'d bus \<Rightarrow> ('d \<Rightarrow> u32) \<Rightarrow> bytes \<Rightarrow> nat \<Rightarrow> 'd net \<Rightarrow> 'd net option" where
  "handle_ipv4 b now frame len s =
     (if len < 34 then Some s
      else do {
        vi \<leftarrow> rd8 frame 14;
        let ihl = unat (vi AND 0x0F) * 4;
        if ihl < 20 \<or> len < 14 + ihl then Some s
        else do {
          tl \<leftarrow> rd16 frame 16;
          let total = unat (bswap16 tl);
          if total < ihl then Some (drop_packet s)
          else if 14 + total > len then Some (drop_packet s)
          else do {
            h \<leftarrow> rd_bytes frame 14 ihl;
            if checksum h \<noteq> 0 then Some (bad_checksum s)
            else do {
              src \<leftarrow> rd32 frame 26;
              dst \<leftarrow> rd32 frame 30;
              if bswap32 dst \<noteq> LOCAL_IP then Some s
              else do {
                sm \<leftarrow> rd_bytes frame 6 6;
                proto \<leftarrow> rd8 frame 23;
                let s1 = arp_cache_put (now (card s)) (bswap32 src) sm s;
                if proto = IP_PROTO_ICMP then handle_icmp b frame len (14 + ihl) (payload_len total ihl) (bswap32 src) s1
                else if proto = IP_PROTO_UDP then handle_udp frame (14 + ihl) (payload_len total ihl) (bswap32 src) s1
                else Some s1
              }
            }
          }
        }
      })"

definition handle_frame :: "'d bus \<Rightarrow> ('d \<Rightarrow> u32) \<Rightarrow> bytes \<Rightarrow> nat \<Rightarrow> 'd net \<Rightarrow> 'd net option" where
  "handle_frame b now frame len s = do {
     t \<leftarrow> rd16 frame 12;
     if bswap16 t = ETH_TYPE_ARP then handle_arp b now frame len s
     else if bswap16 t = ETH_TYPE_IPV4 then handle_ipv4 b now frame len s
     else Some (drop_packet s)
   }"

primrec poll_loop :: "'d bus \<Rightarrow> ('d \<Rightarrow> u32) \<Rightarrow> nat \<Rightarrow> bytes \<Rightarrow> nat \<Rightarrow> 'd net \<Rightarrow> (nat \<times> 'd net) option" where
  "poll_loop b now 0 frame len s = Some (0, s)"
| "poll_loop b now (Suc n) frame len s = do {
     (r, frame1, len1, s1) \<leftarrow> net_receive_packet b frame len s;
     if r \<le> 0 \<or> len1 < 14 then Some (0, s1)
     else do {
       s2 \<leftarrow> handle_frame b now frame1 len1 s1;
       (h, s3) \<leftarrow> poll_loop b now n frame1 len1 s2;
       Some (h + 1, s3)
     }
   }"

definition net_poll :: "'d bus \<Rightarrow> ('d \<Rightarrow> u32) \<Rightarrow> bytes \<Rightarrow> 'd net \<Rightarrow> (nat \<times> 'd net) option" where
  "net_poll b now junk s = poll_loop b now 8 junk 0 s"

definition net_irq_handler :: "'d bus \<Rightarrow> ('d \<Rightarrow> u32) \<Rightarrow> bytes \<Rightarrow> u64 \<Rightarrow> 'd net \<Rightarrow> 'd net option" where
  "net_irq_handler b now junk irq s =
     (if driver (status s) \<noteq> NET_DRIVER_NE2000 \<or> irq \<noteq> ucast (n_irq (status s)) \<or> io_base (status s) = 0 then Some s
      else
        (let io = ucast (io_base (status s)) :: u16; (isr, d1) = inb b (io + NE_ISR) (card s)
         in if isr = 0 then Some (s\<lparr>card := d1\<rparr>)
            else do {
              let s1 = upd_status (\<lambda>st. st\<lparr>irq_count := irq_count st + 1\<rparr>) (s\<lparr>card := ne_outs b io [(NE_ISR, isr)] d1\<rparr>);
              s2 \<leftarrow> (if isr AND 0x15 \<noteq> 0 then map_option snd (net_poll b now junk s1) else Some s1);
              Some (if isr AND 0x10 \<noteq> 0 then upd_status (\<lambda>st. st\<lparr>rx_errors := rx_errors st + 1\<rparr>) s2 else s2)
            }))"

section \<open>Operations that wait\<close>

primrec arp_spin :: "'d bus \<Rightarrow> ('d \<Rightarrow> u32) \<Rightarrow> bytes \<Rightarrow> u32 \<Rightarrow> nat \<Rightarrow> 'd net \<Rightarrow> (arp_entry option \<times> 'd net) option" where
  "arp_spin b now junk ip 0 s = Some (None, s)"
| "arp_spin b now junk ip (Suc n) s = do {
     (h, s1) \<leftarrow> net_poll b now junk s;
     (case arp_lookup (now (card s1)) ip s1 of
        (Some e, s2) \<Rightarrow> Some (Some e, s2)
      | (None, s2) \<Rightarrow> arp_spin b now junk ip n s2)
   }"

text \<open>Up to \<open>n\<close> requests; the first component is false when sending failed.\<close>

primrec arp_attempts :: "'d bus \<Rightarrow> ('d \<Rightarrow> u32) \<Rightarrow> bytes \<Rightarrow> u32 \<Rightarrow> nat \<Rightarrow> 'd net \<Rightarrow> (bool \<times> arp_entry option \<times> 'd net) option" where
  "arp_attempts b now junk ip 0 s = Some (True, None, s)"
| "arp_attempts b now junk ip (Suc n) s = do {
     (ok, s1) \<leftarrow> send_arp_request b ip s;
     if \<not> ok then Some (False, None, s1)
     else do {
       (e, s2) \<leftarrow> arp_spin b now junk ip PING_WAIT_SPINS s1;
       (case e of Some x \<Rightarrow> Some (True, Some x, s2) | None \<Rightarrow> arp_attempts b now junk ip n s2)
     }
   }"

primrec ping_wait :: "'d bus \<Rightarrow> ('d \<Rightarrow> u32) \<Rightarrow> bytes \<Rightarrow> nat \<Rightarrow> 'd net \<Rightarrow> (int \<times> 'd net) option" where
  "ping_wait b now junk 0 s = Some (0, s)"
| "ping_wait b now junk (Suc n) s = do {
     (h, s1) \<leftarrow> net_poll b now junk s;
     if last_ping_ok (status s1) then Some (1, s1) else ping_wait b now junk n s1
   }"

definition ping_send :: "'d bus \<Rightarrow> ('d \<Rightarrow> u32) \<Rightarrow> bytes \<Rightarrow> u32 \<Rightarrow> arp_entry \<Rightarrow> 'd net \<Rightarrow> (int \<times> 'd net) option" where
  "ping_send b now junk ip e s =
     (let seq = icmp_seq s + 1;
          s1 = upd_status (\<lambda>st. st\<lparr>last_ping_ip := ip, last_ping_ok := False, last_ping_seq := seq\<rparr>)
                 (s\<lparr>icmp_seq := seq, pending_ping_ip := ip, pending_ping_seq := seq\<rparr>)
      in do {
        (ok, s2) \<leftarrow> net_send_packet b (ping_frame (a_mac e) (mac (status s1)) ip seq) s1;
        if \<not> ok then Some (-1, s2) else ping_wait b now junk (PING_WAIT_SPINS * 3) s2
      })"

definition net_ping_ipv4 :: "'d bus \<Rightarrow> ('d \<Rightarrow> u32) \<Rightarrow> bytes \<Rightarrow> u32 \<Rightarrow> 'd net \<Rightarrow> (int \<times> 'd net) option" where
  "net_ping_ipv4 b now junk ip s =
     (if driver (status s) = NET_DRIVER_NONE then Some (-1, s)
      else do {
        (h, s1) \<leftarrow> net_poll b now junk s;
        (case arp_lookup (now (card s1)) ip s1 of
           (Some e, s2) \<Rightarrow> ping_send b now junk ip e s2
         | (None, s2) \<Rightarrow> do {
             (ok, e, s3) \<leftarrow> arp_attempts b now junk ip 3 (upd_status (\<lambda>st. st\<lparr>last_ping_ip := ip, last_ping_ok := False\<rparr>) s2);
             if \<not> ok then Some (-1, s3)
             else (case e of None \<Rightarrow> Some (0, s3) | Some x \<Rightarrow> ping_send b now junk ip x s3)
           })
      })"

definition net_send_udp :: "'d bus \<Rightarrow> ('d \<Rightarrow> u32) \<Rightarrow> bytes \<Rightarrow> u32 \<Rightarrow> u16 \<Rightarrow> bytes \<Rightarrow> 'd net \<Rightarrow> (int \<times> 'd net) option" where
  "net_send_udp b now junk ip port data s =
     (if length data > 256 \<or> driver (status s) = NET_DRIVER_NONE then Some (-1, s)
      else do {
        (h, s1) \<leftarrow> net_poll b now junk s;
        (ok, e, s2) \<leftarrow>
          (case arp_lookup (now (card s1)) ip s1 of
             (Some e, s2) \<Rightarrow> Some (True, Some e, s2)
           | (None, s2) \<Rightarrow> arp_attempts b now junk ip 1 s2);
        if \<not> ok then Some (-1, s2)
        else (case e of
          None \<Rightarrow> Some (0, s2)
        | Some x \<Rightarrow> do {
            (r, s3) \<leftarrow> net_send_packet b (udp_frame (a_mac x) (mac (status s2)) ip port data) s2;
            Some (if r then 0 else -1, s3)
          })
      })"

section \<open>Status texts\<close>

text \<open>The text in the buffer, or \<open>None\<close> for the return value -1.\<close>

definition net_format_arp_cache :: "u32 \<Rightarrow> nat \<Rightarrow> 'd net \<Rightarrow> string option" where
  "net_format_arp_cache now m s =
     (if m = 0 then None
      else Some (fold (\<lambda>e out.
        if \<not> a_valid e then out
        else append_str m (append_u32 m (append_str m (append_mac m (append_str m (append_ip m out (a_ip e)) '' '') (a_mac e))
               '' age='') (ucast (ucast now - updated e))) [CHR 0x0A])
        (arp_cache s) (append_str m [] (''IP MAC'' @ [CHR 0x0A]))))"

definition net_format_device_stats :: "nat \<Rightarrow> 'd net \<Rightarrow> string option" where
  "net_format_device_stats m s =
     (if m = 0 then None
      else
        (let st = status s;
             o1 = append_str m [] (''iface driver rx tx irq rxerr drop csum mac'' @ [CHR 0x0A]);
             o2 = append_str m (append_str m o1 ''eth0 '') (net_driver_name (driver st));
             o3 = fold (\<lambda>v out. append_u32 m (append_str m out '' '') v)
                    [packets_rx st, packets_tx st, irq_count st, rx_errors st, dropped st, checksum_errors st] o2
         in Some (append_str m (append_mac m (append_str m o3 '' '') (mac st)) [CHR 0x0A])))"

definition c_text :: "bytes \<Rightarrow> string" where
  "c_text d = map (\<lambda>v. char_of (unat v)) (takeWhile (\<lambda>v. v \<noteq> 0) d)"

definition net_format_udp :: "nat \<Rightarrow> 'd net \<Rightarrow> string option" where
  "net_format_udp m s =
     (if m = 0 then None
      else if \<not> u_valid (last_udp s) then Some (append_str m [] (''no udp packets'' @ [CHR 0x0A]))
      else
        (let u = last_udp s;
             o1 = append_str m (append_ip m (append_str m [] ''src='') (src_ip u)) '':'';
             o2 = append_str m (append_u32 m o1 (ucast (src_port u))) '' dst='';
             o3 = append_str m (append_u32 m o2 (ucast (dst_port u))) '' data=''
         in Some (append_str m (append_str m o3 (c_text (u_data u))) [CHR 0x0A])))"

section \<open>Every access is inside its buffer\<close>

definition net_ok :: "'d net \<Rightarrow> bool" where
  "net_ok s \<longleftrightarrow> length (mac (status s)) = 6 \<and> length (arp_cache s) = 8 \<and> (\<forall>e \<in> set (arp_cache s). length (a_mac e) = 6) \<and>
     length (u_data (last_udp s)) = 128"

lemma rd_bytes_in: "i + n \<le> length p \<Longrightarrow> rd_bytes p i n = Some (take n (drop i p))"
  by (simp add: rd_bytes_def)

lemma rd8_in: "i < length p \<Longrightarrow> rd8 p i = Some (p ! i)"
  by (simp add: rd8_def)

lemma rd16_in: "i + 2 \<le> length p \<Longrightarrow> rd16 p i = Some (get16 p i)"
  by (simp add: rd16_def)

lemma rd32_in: "i + 4 \<le> length p \<Longrightarrow> rd32 p i = Some (get32 p i)"
  by (simp add: rd32_def)

lemma wr_bytes_in: "i + length src \<le> length p \<Longrightarrow> wr_bytes i src p = Some (put_bytes i src p)"
  by (simp add: wr_bytes_def)

lemma length_le [simp]: "length (le16 v) = 2" "length (le32 w) = 4"
  by (simp_all add: le16_def le32_def)

lemmas access = rd_bytes_in rd8_in rd16_in rd32_in wr_bytes_in

lemma send_packet_in:
  assumes "length data \<le> 1536" "net_ok s"
  shows "\<exists>r s'. net_send_packet b data s = Some (r, s') \<and> net_ok s'"
  using assms by (auto simp: net_send_packet_def wr_bytes_in net_ok_def Let_def)

lemma length_ne_read: "ne_read b io n lo hi d = (bs, d') \<Longrightarrow> length bs = 2 * ((n + 1) div 2)"
proof -
  have "length (concat (map le16 ws)) = 2 * length ws" for ws
    by (induction ws) auto
  moreover have "insw b p k d0 = (ws, d1) \<Longrightarrow> length ws = k" for p k d0 ws d1
    using length_insw [of b p k d0] by simp
  ultimately show "ne_read b io n lo hi d = (bs, d') \<Longrightarrow> length bs = 2 * ((n + 1) div 2)"
    by (auto simp: ne_read_def Let_def split: prod.splits)
qed

lemma first_part_le: "first_part pg count \<le> count - 4"
  by (simp add: first_part_def Let_def)

lemma copy_payload_in:
  assumes "length buf = 1600" "first \<le> n" "n \<le> 1596"
  shows "\<exists>buf' d'. copy_payload b io pg first n buf d = Some (buf', d') \<and> length buf' = 1600"
proof -
  obtain bs1 d1 where b1: "ne_read b io first 4 pg d = (bs1, d1)"
    by fastforce
  obtain bs2 d2 where b2: "ne_read b io (n - first) 0 NE_RX_START d1 = (bs2, d2)"
    by fastforce
  have "length bs1 \<le> first + 1" "length bs2 \<le> n - first + 1"
    using length_ne_read [OF b1] length_ne_read [OF b2] by simp_all
  then show ?thesis
    using assms b1 b2 by (simp add: copy_payload_def Let_def wr_bytes_in)
qed

lemma receive_packet_in:
  assumes buf: "length buf = 1600" and len: "len \<le> 1600" and ok: "net_ok s"
  shows "\<exists>r buf' n s'. net_receive_packet b buf len s = Some (r, buf', n, s') \<and> length buf' = 1600 \<and> n \<le> 1600 \<and> net_ok s'"
proof (cases "driver (status s) \<noteq> NET_DRIVER_NE2000 \<or> io_base (status s) = 0")
  case True
  then show ?thesis
    using assms by (simp add: net_receive_packet_def)
next
  case False
  define io :: u16 where "io = ucast (io_base (status s))"
  obtain curr d1 where c: "inb b (io + NE_CURR) (ne_outs b io [(NE_CR, 0x62)] (card s)) = (curr, d1)"
    by fastforce
  define pg where "pg = (if rx_boundary s + 1 \<ge> NE_RX_STOP then NE_RX_START else rx_boundary s + 1)"
  obtain hdr d3 where h: "ne_read b io 4 0 pg (ne_outs b io [(NE_CR, 0x22)] d1) = (hdr, d3)"
    by fastforce
  define count where "count = unat (get16 hdr 2)"
  note defs = net_receive_packet_def False io_def [symmetric] c pg_def [symmetric] h count_def [symmetric]
  show ?thesis
  proof (cases "count > 1600")
    case True
    then show ?thesis
      using assms by (simp add: defs Let_def net_ok_def)
  next
    case False
    then have c4: "count - 4 \<le> 1596"
      by simp
    obtain buf1 d4 where "copy_payload b io pg (first_part pg count) (count - 4) buf d3 = Some (buf1, d4)" "length buf1 = 1600"
      using copy_payload_in [OF buf first_part_le c4, of b io pg pg d3] by auto
    then show ?thesis
      using assms False \<open>\<not> (driver (status s) \<noteq> NET_DRIVER_NE2000 \<or> io_base (status s) = 0)\<close> c4
      by (simp add: defs Let_def net_ok_def le_trans [OF c4])
  qed
qed


lemma put_ok [simp]: "net_ok s \<Longrightarrow> length m = 6 \<Longrightarrow> net_ok (arp_cache_put now ip m s)"
  by (auto simp: net_ok_def arp_cache_put_def Let_def dest!: set_update_subset_insert [THEN subsetD])

lemma arp_reply_in: "length request = 1600 \<Longrightarrow> net_ok s \<Longrightarrow> \<exists>s'. send_arp_reply b request s = Some s' \<and> net_ok s'"
proof -
  assume l: "length request = 1600" and ok: "net_ok s"
  let ?p = "take 6 (drop 6 request) @ mac (status s) @ le16 (bswap16 ETH_TYPE_ARP) @ le16 (bswap16 1) @
       le16 (bswap16 ETH_TYPE_IPV4) @ [6, 4] @ le16 (bswap16 2) @ mac (status s) @ le32 (bswap32 LOCAL_IP) @
       take 6 (drop 22 request) @ take 4 (drop 28 request)"
  obtain r s' where "net_send_packet b ?p s = Some (r, s')" "net_ok s'"
    using send_packet_in [of ?p s b] l ok by (auto simp: net_ok_def)
  then show ?thesis
    using l by (simp add: send_arp_reply_def rd_bytes_in)
qed

lemma handle_arp_in:
  assumes "length frame = 1600" "net_ok s"
  shows "\<exists>s'. handle_arp b now frame len s = Some s' \<and> net_ok s'"
  using assms arp_reply_in [of frame "arp_cache_put (now (card s)) (bswap32 (get32 frame 28)) (take 6 (drop 22 frame)) s" b]
  by (simp add: handle_arp_def access Let_def)

lemma length_put: "i + length src \<le> length p \<Longrightarrow> length (put_bytes i src p) = length p"
  by simp

lemma put_bytes_nth: "i + length src \<le> length p \<Longrightarrow> k < length p \<Longrightarrow> k < i \<or> i + length src \<le> k \<Longrightarrow> put_bytes i src p ! k = p ! k"
  by (auto simp: put_bytes_def nth_append min_def)

lemma build_echo_in:
  assumes "length frame = 1600" "20 \<le> n" "n \<le> 1500" "length m = 6"
  shows "\<exists>r. build_echo_reply frame n m = Some r \<and> length r = n + 14 \<and> r ! 14 = frame ! 14"
  using assms by (simp add: build_echo_reply_def access put_bytes_nth)

lemma finish_echo_in:
  assumes "length r = n + 14" "unat (r ! 14 AND 0x0F) * 4 + 8 \<le> n" "20 \<le> unat (r ! 14 AND 0x0F) * 4"
  shows "\<exists>r'. finish_echo_reply r n = Some r' \<and> length r' = n + 14"
  using assms by (simp add: finish_echo_reply_def access Let_def)

lemma echo_reply_in:
  assumes l: "length frame = 1600" and ok: "net_ok s" and n: "unat (bswap16 (get16 frame 16)) \<ge> unat (frame ! 14 AND 0x0F) * 4 + 8"
    and h: "unat (frame ! 14 AND 0x0F) * 4 \<ge> 20"
  shows "\<exists>s'. send_icmp_echo_reply b frame len s = Some s' \<and> net_ok s'"
proof (cases "len < 42 \<or> unat (bswap16 (get16 frame 16)) + 14 > len \<or> unat (bswap16 (get16 frame 16)) + 14 > 1514")
  case True
  then show ?thesis
    using l ok by (auto simp: send_icmp_echo_reply_def access Let_def)
next
  case False
  define k where "k = unat (bswap16 (get16 frame 16))"
  obtain r where r: "build_echo_reply frame k (mac (status s)) = Some r" "length r = k + 14" "r ! 14 = frame ! 14"
    using build_echo_in [OF l, of k "mac (status s)"] False n h ok by (auto simp: k_def net_ok_def)
  obtain r' where r': "finish_echo_reply r k = Some r'" "length r' = k + 14"
    using finish_echo_in [OF r(2)] r(3) n h by (auto simp: k_def)
  obtain q s' where "net_send_packet b r' s = Some (q, s')" "net_ok s'"
    using send_packet_in [of r' s b] r'(2) False ok by (auto simp: k_def)
  then show ?thesis
    using False l r r' by (simp add: send_icmp_echo_reply_def access Let_def k_def [symmetric])
qed

lemma handle_icmp_in:
  assumes l: "length frame = 1600" and ok: "net_ok s" and h: "unat (frame ! 14 AND 0x0F) * 4 \<ge> 20"
    and t: "unat (bswap16 (get16 frame 16)) = tot" "14 + tot \<le> 1600" "unat (frame ! 14 AND 0x0F) * 4 \<le> tot"
  shows "\<exists>s'. handle_icmp b frame len (14 + unat (frame ! 14 AND 0x0F) * 4) (tot - unat (frame ! 14 AND 0x0F) * 4) src s = Some s' \<and>
    net_ok s'"
proof -
  define hl where "hl = unat (frame ! 14 AND 0x0F) * 4"
  show ?thesis
  proof (cases "tot - hl < 8")
    case True
    then show ?thesis
      using ok by (simp add: handle_icmp_def hl_def [symmetric] net_ok_def)
  next
    case False
    then have "\<exists>s'. send_icmp_echo_reply b frame len s = Some s' \<and> net_ok s'"
      using echo_reply_in [OF l ok _ h] t by (simp add: hl_def)
    then show ?thesis
      using False ok l t by (auto simp: handle_icmp_def hl_def [symmetric] access net_ok_def)
  qed
qed

lemma handle_udp_in:
  assumes "length frame = 1600" "net_ok s" "off + n \<le> 1600"
  shows "\<exists>s'. handle_udp frame off n src s = Some s' \<and> net_ok s'"
  using assms by (auto simp: handle_udp_def access Let_def net_ok_def)

lemma payload_len_eq: "ihl \<le> n \<Longrightarrow> n < 65536 \<Longrightarrow> payload_len n ihl = n - ihl"
proof -
  assume n: "ihl \<le> n" "n < 65536"
  have "(of_nat n - of_nat ihl :: u16) = of_nat (n - ihl)"
    using n(1) by (simp only: of_nat_diff)
  moreover have "unat (of_nat (n - ihl) :: u16) = n - ihl"
    unfolding unsigned_of_nat using n by (simp add: take_bit_nat_eq_self)
  ultimately show ?thesis
    unfolding payload_len_def by (simp only:)
qed

lemma handle_ipv4_in:
  assumes l: "length frame = 1600" and ok: "net_ok s" and n: "len \<le> 1600"
  shows "\<exists>s'. handle_ipv4 b now frame len s = Some s' \<and> net_ok s'"
proof -
  define hl where "hl = unat (frame ! 14 AND 0x0F) * 4"
  define tot where "tot = unat (bswap16 (get16 frame 16))"
  define s1 where "s1 = arp_cache_put (now (card s)) (bswap32 (get32 frame 26)) (take 6 (drop 6 frame)) s"
  note defs = handle_ipv4_def access Let_def hl_def [symmetric] tot_def [symmetric] s1_def [symmetric]
  have s1: "net_ok s1"
    using ok l by (simp add: s1_def)
  have hl: "hl < 20 \<longleftrightarrow> unat (frame ! 14 AND 0x0F) < 5"
    by (simp add: hl_def)
  consider "len < 34 \<or> hl < 20 \<or> len < 14 + hl \<or> tot < hl \<or> 14 + tot > len" | "34 \<le> len" "20 \<le> hl" "14 + hl \<le> len" "hl \<le> tot" "14 + tot \<le> len"
    by linarith
  then show ?thesis
  proof cases
    case 1
    then show ?thesis
      using ok l by (auto simp: defs hl net_ok_def)
  next
    case 2
    have pl: "payload_len tot hl = tot - hl"
      using 2 unsigned_less [of "bswap16 (get16 frame 16)", where ?'a = nat] by (simp add: payload_len_eq tot_def)
    from 2 have "\<exists>s'. handle_icmp b frame len (14 + hl) (tot - hl) (bswap32 (get32 frame 26)) s1 = Some s' \<and> net_ok s'"
      "\<exists>s'. handle_udp frame (14 + hl) (tot - hl) (bswap32 (get32 frame 26)) s1 = Some s' \<and> net_ok s'"
      using handle_icmp_in [OF l s1] handle_udp_in [OF l s1] n by (simp_all add: hl_def tot_def)
    moreover have "net_ok (bad_checksum s)"
      using ok by (simp add: net_ok_def)
    ultimately show ?thesis
      using 2 ok l n s1 hl by (simp add: defs pl)
  qed
qed

lemma handle_frame_in:
  assumes "length frame = 1600" "net_ok s" "len \<le> 1600"
  shows "\<exists>s'. handle_frame b now frame len s = Some s' \<and> net_ok s'"
proof -
  have "net_ok (drop_packet s)"
    using assms(2) by (simp add: net_ok_def)
  then show ?thesis
    using handle_arp_in [OF assms(1,2)] handle_ipv4_in [OF assms] assms by (simp add: handle_frame_def access)
qed

lemma poll_loop_in:
  "length frame = 1600 \<Longrightarrow> len \<le> 1600 \<Longrightarrow> net_ok s \<Longrightarrow> \<exists>h s'. poll_loop b now n frame len s = Some (h, s') \<and> h \<le> n \<and> net_ok s'"
proof (induction n arbitrary: frame len s)
  case (Suc n)
  obtain r f1 l1 s1 where r: "net_receive_packet b frame len s = Some (r, f1, l1, s1)" "length f1 = 1600" "l1 \<le> 1600" "net_ok s1"
    using receive_packet_in [OF Suc.prems] by blast
  obtain s2 where s2: "handle_frame b now f1 l1 s1 = Some s2" "net_ok s2"
    using handle_frame_in [OF r(2,4,3)] by blast
  obtain h s3 where "poll_loop b now n f1 l1 s2 = Some (h, s3)" "h \<le> n" "net_ok s3"
    using Suc.IH [OF r(2,3) s2(2)] by blast
  then show ?case
    using r s2 by simp
qed simp

lemma net_poll_in: "length junk = 1600 \<Longrightarrow> net_ok s \<Longrightarrow> \<exists>h s'. net_poll b now junk s = Some (h, s') \<and> h \<le> 8 \<and> net_ok s'"
  using poll_loop_in [of junk 0 s b now 8] by (simp add: net_poll_def)

lemma arp_lookup_in: "net_ok s \<Longrightarrow> net_ok (snd (arp_lookup now ip s)) \<and> (\<forall>e. fst (arp_lookup now ip s) = Some e \<longrightarrow> length (a_mac e) = 6)"
proof -
  assume ok: "net_ok s"
  then have ok1: "net_ok (expire_arp now s)"
    by (auto simp: net_ok_def expire_arp_def Let_def)
  have "length (a_mac (arp_cache (expire_arp now s) ! i)) = 6" if "find_idx P (arp_cache (expire_arp now s)) = Some i" for P i
    using find_idx_SomeD [OF that] ok1 by (simp add: net_ok_def)
  then show ?thesis
    using ok1 by (auto simp: arp_lookup_def Let_def)
qed

lemma arp_request_in: "net_ok s \<Longrightarrow> \<exists>r s'. send_arp_request b ip s = Some (r, s') \<and> net_ok s'"
  unfolding send_arp_request_def by (rule send_packet_in) (auto simp: net_ok_def)

definition entry_ok :: "arp_entry option \<Rightarrow> bool" where
  "entry_ok e \<longleftrightarrow> (\<forall>x. e = Some x \<longrightarrow> length (a_mac x) = 6)"

lemma arp_spin_in:
  "length junk = 1600 \<Longrightarrow> net_ok s \<Longrightarrow> \<exists>e s'. arp_spin b now junk ip n s = Some (e, s') \<and> net_ok s' \<and> entry_ok e"
proof (induction n arbitrary: s)
  case (Suc n)
  obtain h s1 where p: "net_poll b now junk s = Some (h, s1)" "net_ok s1"
    using net_poll_in [OF Suc.prems] by blast
  obtain e s2 where e: "arp_lookup (now (card s1)) ip s1 = (e, s2)"
    by fastforce
  then have "net_ok s2" "entry_ok e"
    using arp_lookup_in [OF p(2), of "now (card s1)" ip] by (auto simp: entry_ok_def)
  then show ?case
    using p e Suc.IH [of s2] Suc.prems(1) by (cases e) auto
qed (simp add: entry_ok_def)

lemma arp_attempts_in:
  "length junk = 1600 \<Longrightarrow> net_ok s \<Longrightarrow> \<exists>r e s'. arp_attempts b now junk ip n s = Some (r, e, s') \<and> net_ok s' \<and> entry_ok e"
proof (induction n arbitrary: s)
  case (Suc n)
  obtain r s1 where p: "send_arp_request b ip s = Some (r, s1)" "net_ok s1"
    using arp_request_in [OF Suc.prems(2)] by blast
  obtain e s2 where e: "arp_spin b now junk ip PING_WAIT_SPINS s1 = Some (e, s2)" "net_ok s2" "entry_ok e"
    using arp_spin_in [OF Suc.prems(1) p(2)] by blast
  then show ?case
    using p Suc.IH [of s2] Suc.prems(1) by (cases e) (auto simp: entry_ok_def)
qed (auto simp: entry_ok_def)

lemma ping_wait_in: "length junk = 1600 \<Longrightarrow> net_ok s \<Longrightarrow> \<exists>r s'. ping_wait b now junk n s = Some (r, s') \<and> net_ok s'"
proof (induction n arbitrary: s)
  case (Suc n)
  obtain h s1 where "net_poll b now junk s = Some (h, s1)" "net_ok s1"
    using net_poll_in [OF Suc.prems] by blast
  then show ?case
    using Suc.IH [of s1] Suc.prems(1) by simp
qed simp

lemma length_ip_header [simp]: "length (ip_header0 p n ip) = 20" "length (ip_header p n ip) = 20"
  by (simp_all add: ip_header_def ip_header0_def)

lemma length_icmp_echo0 [simp]: "length (icmp_echo0 seq) = 24"
  by (simp add: icmp_echo0_def)

lemma ping_send_in:
  assumes j: "length junk = 1600" and ok: "net_ok s" and e: "length (a_mac e) = 6"
  shows "\<exists>r s'. ping_send b now junk ip e s = Some (r, s') \<and> net_ok s'"
proof -
  define s1 where "s1 = upd_status (\<lambda>st. st\<lparr>last_ping_ip := ip, last_ping_ok := False, last_ping_seq := icmp_seq s + 1\<rparr>)
                 (s\<lparr>icmp_seq := icmp_seq s + 1, pending_ping_ip := ip, pending_ping_seq := icmp_seq s + 1\<rparr>)"
  have ok1: "net_ok s1"
    using ok by (simp add: net_ok_def s1_def)
  obtain r s2 where "net_send_packet b (ping_frame (a_mac e) (mac (status s1)) ip (icmp_seq s + 1)) s1 = Some (r, s2)" "net_ok s2"
    using send_packet_in [OF _ ok1, of "ping_frame (a_mac e) (mac (status s1)) ip (icmp_seq s + 1)" b] ok1 e
    by (auto simp: ping_frame_def net_ok_def)
  then show ?thesis
    using ping_wait_in [OF j, of s2 b now "PING_WAIT_SPINS * 3"] by (simp add: ping_send_def Let_def s1_def)
qed

lemma ping_in:
  assumes j: "length junk = 1600" and ok: "net_ok s"
  shows "\<exists>r s'. net_ping_ipv4 b now junk ip s = Some (r, s') \<and> net_ok s'"
proof -
  obtain h s1 where p: "net_poll b now junk s = Some (h, s1)" "net_ok s1"
    using net_poll_in [OF assms] by blast
  obtain e s2 where e: "arp_lookup (now (card s1)) ip s1 = (e, s2)" "net_ok s2" "entry_ok e"
    using arp_lookup_in [OF p(2), of "now (card s1)" ip] by (cases "arp_lookup (now (card s1)) ip s1") (auto simp: entry_ok_def)
  define s3 where "s3 = upd_status (\<lambda>st. st\<lparr>last_ping_ip := ip, last_ping_ok := False\<rparr>) s2"
  have "net_ok s3"
    using e(2) by (simp add: s3_def net_ok_def)
  then obtain q e1 s4 where a: "arp_attempts b now junk ip 3 s3 = Some (q, e1, s4)" "net_ok s4" "entry_ok e1"
    using arp_attempts_in [OF j] by blast
  show ?thesis
    using p e a ping_send_in [OF j] ok
    by (cases e; cases e1) (auto simp: net_ping_ipv4_def s3_def [symmetric] entry_ok_def)
qed

lemma udp_in:
  assumes j: "length junk = 1600" and ok: "net_ok s"
  shows "\<exists>r s'. net_send_udp b now junk ip port data s = Some (r, s') \<and> net_ok s'"
proof -
  obtain h s1 where p: "net_poll b now junk s = Some (h, s1)" "net_ok s1"
    using net_poll_in [OF assms] by blast
  obtain e s2 where e: "arp_lookup (now (card s1)) ip s1 = (e, s2)" "net_ok s2" "entry_ok e"
    using arp_lookup_in [OF p(2), of "now (card s1)" ip] by (cases "arp_lookup (now (card s1)) ip s1") (auto simp: entry_ok_def)
  obtain q e1 s4 where a: "arp_attempts b now junk ip 1 s2 = Some (q, e1, s4)" "net_ok s4" "entry_ok e1"
    using arp_attempts_in [OF j e(2)] by blast
  have u: "\<exists>r t. net_send_packet b (udp_frame (a_mac x) (mac (status s')) ip port data) s' = Some (r, t) \<and> net_ok t"
    if "length (a_mac x) = 6" "net_ok s'" "length data \<le> 256" for x s'
    using that by (intro send_packet_in) (auto simp: udp_frame_def Let_def net_ok_def)
  show ?thesis
  proof (cases "length data > 256 \<or> driver (status s) = NET_DRIVER_NONE")
    case True
    then show ?thesis
      using ok by (simp add: net_send_udp_def)
  next
    case False
    obtain q' x t where r: "(case arp_lookup (now (card s1)) ip s1 of
             (Some e, s2) \<Rightarrow> Some (True, Some e, s2)
           | (None, s2) \<Rightarrow> arp_attempts b now junk ip 1 s2) = Some (q', x, t)" and t: "net_ok t" "entry_ok x"
      using e a by (cases e) auto
    have "\<exists>r u. net_send_packet b (udp_frame (a_mac y) (mac (status t)) ip port data) t = Some (r, u) \<and> net_ok u" if "x = Some y" for y
      using u [of y t] t that False by (simp add: entry_ok_def)
    then show ?thesis
      using p False t unfolding net_send_udp_def by (cases x; cases q') (auto simp: r)
  qed
qed

lemma irq_in:
  assumes "length junk = 1600" "net_ok s"
  shows "\<exists>s'. net_irq_handler b now junk irq s = Some s' \<and> net_ok s'"
proof -
  define io :: u16 where "io = ucast (io_base (status s))"
  obtain isr d1 where i: "inb b (io + NE_ISR) (card s) = (isr, d1)"
    by fastforce
  define s1 where "s1 = upd_status (\<lambda>st. st\<lparr>irq_count := irq_count st + 1\<rparr>) (s\<lparr>card := ne_outs b io [(NE_ISR, isr)] d1\<rparr>)"
  have "net_ok s1"
    using assms(2) by (simp add: s1_def net_ok_def)
  then obtain s2 where s2: "(if isr AND 0x15 \<noteq> 0 then map_option snd (net_poll b now junk s1) else Some s1) = Some s2" "net_ok s2"
    using net_poll_in [OF assms(1), of s1 b now] by (cases "isr AND 0x15 \<noteq> 0") auto
  have "net_ok (upd_status (\<lambda>st. st\<lparr>rx_errors := rx_errors st + 1\<rparr>) s2)" "net_ok (s\<lparr>card := d1\<rparr>)"
    using s2(2) assms(2) by (simp_all add: net_ok_def)
  then show ?thesis
    using assms(2) s2 unfolding net_irq_handler_def io_def [symmetric] i Let_def prod.case s1_def [symmetric] by simp
qed

section \<open>Properties\<close>


definition demo_net :: "unit net" where
  "demo_net = \<lparr>status = \<lparr>initialized = True, driver = NET_DRIVER_NE2000, vendor_id = 0x10EC, device_id = 0x8029, n_bus = 0,
       n_slot = 3, n_function = 0, n_irq = 11, packets_rx = 0, packets_tx = 0, rx_errors = 0, dropped = 0,
       checksum_errors = 0, irq_count = 0, arp_entries = 0, last_ping_ip = 0, last_ping_ok = False, last_ping_seq = 0,
       io_base = 0x300, mac = [0x52, 0x54, 0x00, 0x12, 0x34, 0x56]\<rparr>,
     arp_cache = replicate 8 \<lparr>a_ip = 0, a_mac = replicate 6 0, updated = 0, a_valid = False\<rparr>, icmp_seq = 0,
     rx_boundary = NE_RX_START, pending_ping_ip = 0, pending_ping_seq = 0,
     last_udp = \<lparr>src_ip = 0, src_port = 0, dst_port = 0, u_len = 0, u_data = replicate 128 0, u_valid = False\<rparr>, card = ()\<rparr>"


lemma words_sum_header: "0 < words_sum (ip_header0 p n ip)"
  by (simp add: ip_header0_def le16_def le32_def)

text \<open>C38. The Internet header of an echo request is built with its checksum in the byte order of the processor instead of
  network order, so the kernel's own check, and any other receiver's, accepts it only when the two bytes of the
  checksum happen to be equal. Stored in network order it would always be accepted.\<close>
theorem ping_checksum_swapped:
  assumes "length dst = 6" "length src = 6" and h0: "h0 = ip_header0 IP_PROTO_ICMP 44 ip"
  shows "(checksum (take 20 (drop 14 (ping_frame dst src ip seq))) = 0 \<longleftrightarrow>
      (ucast (checksum h0) :: u8) = ucast (drop_bit 8 (checksum h0))) \<and>
    checksum (put16 10 (bswap16 (checksum h0)) h0) = 0"
proof -
  have "take 20 (drop 14 (ping_frame dst src ip seq)) = ip_header IP_PROTO_ICMP 44 ip"
    using assms by (simp add: ping_frame_def)
  moreover have "h0 ! 10 = 0" "h0 ! (10 + 1) = 0" "length h0 = 20"
    by (simp_all add: h0 ip_header0_def le16_def)
  ultimately show ?thesis
    using checksum_stored [of h0 10] words_sum_header [of IP_PROTO_ICMP 44 ip] by (simp add: ip_header_def h0)
qed

theorem ping_checksum_swapped_witness:
  "checksum (take 20 (drop 14 (ping_frame (replicate 6 0xFF) (replicate 6 0x52) 0x0A000202 1))) \<noteq> 0"
proof -
  have "unat (checksum (ip_header0 IP_PROTO_ICMP 44 0x0A000202)) =
      65535 - ones_sum (words_sum (ip_header0 IP_PROTO_ICMP 44 0x0A000202))"
    by (rule checksum_ones) simp
  also have "\<dots> = 0x62C1"
    by (simp add: ip_header0_def le16_def le32_def bswap16_def bswap32_def ones_sum_def IP_PROTO_ICMP_def LOCAL_IP_def)
  finally have "checksum (ip_header0 IP_PROTO_ICMP 44 0x0A000202) = 0x62C1"
    by (simp add: word_unat_eq_iff)
  then show ?thesis
    using ping_checksum_swapped [of "replicate 6 0xFF" "replicate 6 0x52" _ "0x0A000202" 1] by simp
qed

end
