(* ===== verification/Syscall.thy ===== *)
theory Syscall
  imports Process VmmMap Vfs Terminal Keyboard
begin

text \<open>
  The system calls (\<open>kernel/syscall.c\<close>) on the whole machine: processes with their memory, console, keyboard
  and file systems. User memory is read and written through the loaded page tables. What interrupts do to the
  machine while a call waits for a key is the parameter \<open>irq\<close>. \<open>None\<close> is a call that does not end or that leaves an array.
\<close>

unbundle bit_operations_syntax

section \<open>State\<close>

definition SYSCALL_MAX_STR :: u64 where "SYSCALL_MAX_STR = 4096"
definition SYS_PRINT :: u64 where "SYS_PRINT = 1"
definition SYS_PUTCHAR :: u64 where "SYS_PUTCHAR = 2"
definition SYS_CLEAR :: u64 where "SYS_CLEAR = 3"
definition SYS_GETCHAR :: u64 where "SYS_GETCHAR = 4"
definition SYS_READLINE :: u64 where "SYS_READLINE = 5"
definition SYS_EXIT :: u64 where "SYS_EXIT = 6"
definition SYS_UPTIME :: u64 where "SYS_UPTIME = 7"
definition SYS_SYSINFO :: u64 where "SYS_SYSINFO = 8"
definition SYS_OPEN :: u64 where "SYS_OPEN = 9"
definition SYS_READ :: u64 where "SYS_READ = 10"
definition SYS_WRITE :: u64 where "SYS_WRITE = 11"
definition SYS_CLOSE :: u64 where "SYS_CLOSE = 12"
definition SYS_SETCOLOR :: u64 where "SYS_SETCOLOR = 13"
definition SYS_WAITPID :: u64 where "SYS_WAITPID = 14"
definition SYS_SLEEP :: u64 where "SYS_SLEEP = 15"
definition MAX_FD :: nat where "MAX_FD = 8"
definition KERNEL_VERSION_STRING :: string where "KERNEL_VERSION_STRING = ''2.0.0''"

record ('s, 'd) machine =
  kern :: kstate
  tty :: "'d terminal"
  kbd :: kb_state
  vfs :: "'s vfs_state"
  files :: 's

text \<open>How a call ends: with a value, in \<open>process_exit\<close>, asleep, or blocked on the process in a slot until
  \<open>sys_waitpid_resume\<close>.\<close>

datatype outcome = Ret int | Exited | Asleep | Waiting nat

text \<open>C conversions: \<open>(int)x\<close>, \<open>(char)x\<close>, \<open>(uint32_t)x\<close> of a 64-bit argument.\<close>

definition c_int :: "u64 \<Rightarrow> int" where
  "c_int x = sint (ucast x :: u32)"

definition c_char :: "u8 \<Rightarrow> char" where
  "c_char v = char_of (unat v)"

section \<open>User memory\<close>

definition user_store :: "u64 \<Rightarrow> u8 \<Rightarrow> kstate \<Rightarrow> kstate" where
  "user_store a v k = k\<lparr>vm := phys_store (vmm_get_physical_in (cr3_reg (vm k)) a (vm k)) v (vm k)\<rparr>"

primrec user_write :: "u64 \<Rightarrow> bytes \<Rightarrow> kstate \<Rightarrow> kstate" where
  "user_write a [] k = k"
| "user_write a (v # vs) k = user_write (a + 1) vs (user_store a v k)"

definition user_read :: "u64 \<Rightarrow> nat \<Rightarrow> kstate \<Rightarrow> string" where
  "user_read a n k = map (\<lambda>i. c_char (virt_byte (vm k) (a + of_nat i))) [0..<n]"

definition user_buf_ok :: "u64 \<Rightarrow> u64 \<Rightarrow> kstate \<Rightarrow> bool option" where
  "user_buf_ok addr len k =
     (if len = 0 then Some True
      else case process_get_current k of
        None \<Rightarrow> Some False
      | Some c \<Rightarrow> if \<not> is_user (processes k ! c) then Some False else vmm_user_range_ok (pcr3 (processes k ! c)) addr len (vm k))"

definition user_str_len :: "u64 \<Rightarrow> kstate \<Rightarrow> int" where
  "user_str_len addr k =
     (case process_get_current k of
        None \<Rightarrow> -1
      | Some c \<Rightarrow> if \<not> is_user (processes k ! c) then -1 else vmm_user_strlen (pcr3 (processes k ! c)) addr SYSCALL_MAX_STR (vm k))"

section \<open>Descriptors\<close>

definition fd_table_init :: "kstate \<Rightarrow> kstate" where
  "fd_table_init k = k\<lparr>fd_table := map (\<lambda>f. f\<lparr>fd_used := False, fd_pos := 0, fd_owner_pid := 0\<rparr>) (fd_table k)\<rparr>"

definition syscall_init :: "kstate \<Rightarrow> kstate" where
  "syscall_init k = fd_table_init k"

definition upd_fd :: "nat \<Rightarrow> (fd_entry \<Rightarrow> fd_entry) \<Rightarrow> kstate \<Rightarrow> kstate" where
  "upd_fd i f k = k\<lparr>fd_table := (fd_table k)[i := f (fd_table k ! i)]\<rparr>"

definition copy_name :: "string \<Rightarrow> string \<Rightarrow> string" where
  "copy_name name old = (let n = min 255 (length name) in take n name @ NUL # drop (n + 1) old)"

text \<open>\<open>open_slot\<close>: the body of the loop of \<open>SYS_OPEN\<close> for the first free slot \<open>i\<close>.\<close>

definition open_slot :: "u64 \<Rightarrow> string \<Rightarrow> nat \<Rightarrow> ('s, 'd) machine \<Rightarrow> (int \<times> ('s, 'd) machine) option" where
  "open_slot owner name i m =
     (case vfs_read name (fd_data (fd_table (kern m) ! i)) 0 16384 (vfs m) (files m) of
        None \<Rightarrow> None
      | Some ((r, buf, sz), fs) \<Rightarrow>
          (let k1 = upd_fd i (\<lambda>f. f\<lparr>fd_data := buf\<rparr>) (kern m)
           in if r \<noteq> 0 then Some (-1, m\<lparr>kern := k1, files := fs\<rparr>)
              else Some (int i, m\<lparr>files := fs, kern := upd_fd i (\<lambda>f. f\<lparr>fd_size := sz, fd_pos := 0, fd_used := True,
                     fd_owner_pid := owner, fd_name := copy_name name (fd_name f)\<rparr>) k1\<rparr>)))"

definition sys_open :: "u64 \<Rightarrow> ('s, 'd) machine \<Rightarrow> (int \<times> ('s, 'd) machine) option" where
  "sys_open arg1 m =
     (if arg1 = 0 then Some (-1, m)
      else if user_str_len arg1 (kern m) < 0 then Some (-1, m)
      else
        (let name = user_read arg1 (nat (user_str_len arg1 (kern m))) (kern m)
         in case process_get_current (kern m) of
           None \<Rightarrow> Some (-1, m)
         | Some c \<Rightarrow>
             (case find_idx (\<lambda>f. \<not> fd_used f) (fd_table (kern m)) of
                None \<Rightarrow> Some (-1, m)
              | Some i \<Rightarrow> open_slot (pid (processes (kern m) ! c)) name i m)))"

definition fd_valid :: "int \<Rightarrow> kstate \<Rightarrow> bool" where
  "fd_valid fd k \<longleftrightarrow> 0 \<le> fd \<and> fd < int MAX_FD \<and> fd_used (fd_table k ! nat fd)"

definition fd_owned :: "int \<Rightarrow> kstate \<Rightarrow> bool" where
  "fd_owned fd k \<longleftrightarrow>
     (case process_get_current k of None \<Rightarrow> False | Some c \<Rightarrow> fd_owner_pid (fd_table k ! nat fd) = pid (processes k ! c))"

text \<open>\<open>read_slot\<close>: the rest of \<open>SYS_READ\<close> after its checks.\<close>

definition read_slot :: "nat \<Rightarrow> u64 \<Rightarrow> u32 \<Rightarrow> kstate \<Rightarrow> (int \<times> kstate) option" where
  "read_slot i buf len k =
     (let f = fd_table k ! i in
      if fd_pos f \<ge> fd_size f then Some (0, k)
      else
        (let remaining = fd_size f - fd_pos f; n = (if len > remaining then remaining else len)
         in if unat (fd_pos f) + unat n > length (fd_data f) then None
            else Some (sint n, upd_fd i (\<lambda>f. f\<lparr>fd_pos := fd_pos f + n\<rparr>)
                   (user_write buf (map of_char (take (unat n) (drop (unat (fd_pos f)) (fd_data f)))) k))))"

definition sys_read :: "u64 \<Rightarrow> u64 \<Rightarrow> u64 \<Rightarrow> ('s, 'd) machine \<Rightarrow> (int \<times> ('s, 'd) machine) option" where
  "sys_read arg1 arg2 arg3 m =
     (let fd = c_int arg1; len = ucast arg3 :: u32
      in if \<not> fd_valid fd (kern m) \<or> arg2 = 0 then Some (-1, m)
         else if \<not> fd_owned fd (kern m) then Some (-1, m)
         else case (if len > 0 then user_buf_ok arg2 (ucast len) (kern m) else Some True) of
           None \<Rightarrow> None
         | Some ok \<Rightarrow>
             if \<not> ok then Some (-1, m)
             else map_option (\<lambda>(r, k). (r, m\<lparr>kern := k\<rparr>)) (read_slot (nat fd) arg2 len (kern m)))"

definition sys_close :: "u64 \<Rightarrow> ('s, 'd) machine \<Rightarrow> int \<times> ('s, 'd) machine" where
  "sys_close arg1 m =
     (let fd = c_int arg1
      in if \<not> fd_valid fd (kern m) then (-1, m)
         else if \<not> fd_owned fd (kern m) then (-1, m)
         else (0, m\<lparr>kern := upd_fd (nat fd) (\<lambda>f. f\<lparr>fd_used := False\<rparr>) (kern m)\<rparr>))"

section \<open>Console calls\<close>

definition sys_print :: "'d bus \<Rightarrow> u64 \<Rightarrow> ('s, 'd) machine \<Rightarrow> (int \<times> ('s, 'd) machine) option" where
  "sys_print b arg1 m =
     (if arg1 = 0 then Some (0, m)
      else if user_str_len arg1 (kern m) < 0 then Some (-1, m)
      else map_option (\<lambda>t. (0, m\<lparr>tty := t\<rparr>))
             (terminal_writestring b (user_read arg1 (nat (user_str_len arg1 (kern m))) (kern m)) (tty m)))"

definition sys_write :: "'d bus \<Rightarrow> u64 \<Rightarrow> u64 \<Rightarrow> ('s, 'd) machine \<Rightarrow> (int \<times> ('s, 'd) machine) option" where
  "sys_write b arg1 arg2 m =
     (let len = ucast arg2 :: u32
      in if arg1 = 0 then Some (-1, m)
         else Option.bind (if len > 0 then user_buf_ok arg1 (ucast len) (kern m) else Some True) (\<lambda>ok.
           if \<not> ok then Some (-1, m)
           else map_option (\<lambda>t. (sint len, m\<lparr>tty := t\<rparr>)) (terminal_write b (user_read arg1 (unat len) (kern m)) (tty m))))"

definition sysinfo_text :: "nat \<Rightarrow> string" where
  "sysinfo_text maxlen =
     (let t = take (maxlen - 2) ''AO-OS'' @ '' '' in t @ take (maxlen - 1 - length t) KERNEL_VERSION_STRING)"

definition sys_sysinfo :: "u64 \<Rightarrow> u64 \<Rightarrow> ('s, 'd) machine \<Rightarrow> (int \<times> ('s, 'd) machine) option" where
  "sys_sysinfo arg1 arg2 m =
     (let maxlen = ucast arg2 :: u32
      in if arg1 = 0 \<or> maxlen < 2 then Some (-1, m)
         else Option.bind (user_buf_ok arg1 (ucast maxlen) (kern m)) (\<lambda>ok.
           if \<not> ok then Some (-1, m)
           else Some (int (length (sysinfo_text (unat maxlen))),
                      m\<lparr>kern := user_write arg1 (map of_char (sysinfo_text (unat maxlen)) @ [0]) (kern m)\<rparr>)))"

definition caller_pid :: "kstate \<Rightarrow> u64" where
  "caller_pid k = (case process_get_current k of None \<Rightarrow> 0 | Some c \<Rightarrow> pid (processes k ! c))"

text \<open>\<open>while (c == 0) { if (process_is_foreground(pid)) c = keyboard_getchar(); }\<close> with the interrupts between two rounds.\<close>

partial_function (option) wait_key ::
    "(('s, 'd) machine \<Rightarrow> ('s, 'd) machine) \<Rightarrow> u64 \<Rightarrow> ('s, 'd) machine \<Rightarrow> (u8 \<times> ('s, 'd) machine) option" where
  "wait_key irq p m =
     (case (if process_is_foreground p (kern m) then keyboard_getchar (kbd m) else (0, kbd m)) of
        (c, kb) \<Rightarrow> if c \<noteq> 0 then Some (c, m\<lparr>kbd := kb\<rparr>) else wait_key irq p (irq (m\<lparr>kbd := kb\<rparr>)))"

definition sys_getchar :: "(('s, 'd) machine \<Rightarrow> ('s, 'd) machine) \<Rightarrow> ('s, 'd) machine \<Rightarrow> (int \<times> ('s, 'd) machine) option" where
  "sys_getchar irq m = map_option (\<lambda>(c, m1). (int (unat c), m1)) (wait_key irq (caller_pid (kern m)) m)"

text \<open>The editing loop of \<open>SYS_READLINE\<close>: it ends with a newline or when the buffer is full.\<close>

partial_function (option) readline_loop ::
    "(('s, 'd) machine \<Rightarrow> ('s, 'd) machine) \<Rightarrow> 'd bus \<Rightarrow> u64 \<Rightarrow> u64 \<Rightarrow> u32 \<Rightarrow> u32 \<Rightarrow> ('s, 'd) machine \<Rightarrow>
     (u32 \<times> ('s, 'd) machine) option" where
  "readline_loop irq b p buf maxlen i m =
     (if \<not> i < maxlen - 1 then Some (i, m)
      else
        Option.bind (wait_key irq p m) (\<lambda>(c, m1).
          if c = 10 \<or> c = 13 then map_option (\<lambda>t. (i, m1\<lparr>tty := t\<rparr>)) (terminal_putchar b (CHR 0x0A) (tty m1))
          else if c = 8 then
            (if i > 0 then readline_loop irq b p buf maxlen (i - 1) (m1\<lparr>tty := terminal_backspace b (tty m1)\<rparr>)
             else readline_loop irq b p buf maxlen i m1)
          else if c \<ge> 32 \<and> c < 128 then
            Option.bind (terminal_putchar b (c_char c) (tty m1)) (\<lambda>t.
              readline_loop irq b p buf maxlen (i + 1) (m1\<lparr>tty := t, kern := user_store (buf + ucast i) c (kern m1)\<rparr>))
          else readline_loop irq b p buf maxlen i m1))"

definition sys_readline ::
    "(('s, 'd) machine \<Rightarrow> ('s, 'd) machine) \<Rightarrow> 'd bus \<Rightarrow> u64 \<Rightarrow> u64 \<Rightarrow> ('s, 'd) machine \<Rightarrow> (int \<times> ('s, 'd) machine) option" where
  "sys_readline irq b arg1 arg2 m =
     (let maxlen = ucast arg2 :: u32
      in if arg1 = 0 \<or> maxlen = 0 then Some (-1, m)
         else Option.bind (user_buf_ok arg1 (ucast maxlen) (kern m)) (\<lambda>ok.
           if \<not> ok then Some (-1, m)
           else map_option (\<lambda>(i, m1). (sint i, m1\<lparr>kern := user_store (arg1 + ucast i) 0 (kern m1)\<rparr>))
                  (readline_loop irq b (caller_pid (kern m)) arg1 maxlen 0 m)))"

section \<open>Process calls\<close>

definition status_bytes :: "int \<Rightarrow> bytes" where
  "status_bytes code = map (\<lambda>i. ucast (drop_bit (8 * i) (of_int code :: u32))) [0..<4]"

text \<open>\<open>if (status) *status = target->exit_code\<close> before the target is collected.\<close>

definition store_status :: "u64 \<Rightarrow> nat \<Rightarrow> kstate \<Rightarrow> kstate" where
  "store_status status t k = (if status \<noteq> 0 then user_write status (status_bytes (exit_code (processes k ! t))) k else k)"

definition sys_waitpid :: "u64 \<Rightarrow> u64 \<Rightarrow> u64 \<Rightarrow> ('s, 'd) machine \<Rightarrow> (outcome \<times> ('s, 'd) machine) option" where
  "sys_waitpid arg1 arg2 arg3 m =
     Option.bind (if arg2 \<noteq> 0 then user_buf_ok arg2 4 (kern m) else Some True) (\<lambda>ok.
       if \<not> ok then Some (Ret (-1), m)
       else
         (let nohang = bit arg3 0;
              k = (case process_get arg1 (kern m) of
                     Some t \<Rightarrow> if arg1 \<noteq> 0 \<and> nohang \<and> pstate (processes (kern m) ! t) = PROC_TERMINATED
                              then store_status arg2 t (kern m) else kern m
                   | None \<Rightarrow> kern m)
          in map_option (\<lambda>(r, k1). (case r of WaitReturned v \<Rightarrow> Ret v | WaitBlocked t \<Rightarrow> Waiting t, m\<lparr>kern := k1\<rparr>))
               (process_waitpid arg1 nohang k)))"

text \<open>The rest of a blocked call once its target has terminated.\<close>

definition sys_waitpid_resume :: "nat \<Rightarrow> u64 \<Rightarrow> ('s, 'd) machine \<Rightarrow> (int \<times> ('s, 'd) machine) option" where
  "sys_waitpid_resume t arg2 m =
     map_option (\<lambda>(r, k). (r, m\<lparr>kern := k\<rparr>))
       (waitpid_resume t (if pstate (processes (kern m) ! t) = PROC_UNUSED then kern m else store_status arg2 t (kern m)))"

definition sys_exit :: "u64 \<Rightarrow> ('s, 'd) machine \<Rightarrow> outcome \<times> ('s, 'd) machine" where
  "sys_exit arg1 m =
     (if caller_pid (kern m) = 0 then Ret 0 else Exited, m\<lparr>kern := process_exit (c_int arg1) (kern m)\<rparr>)"

definition sys_sleep :: "u64 \<Rightarrow> ('s, 'd) machine \<Rightarrow> outcome \<times> ('s, 'd) machine" where
  "sys_sleep arg1 m =
     (if caller_pid (kern m) = 0 \<or> arg1 = 0 then Ret 0 else Asleep, m\<lparr>kern := process_sleep_ticks arg1 (kern m)\<rparr>)"

section \<open>Dispatch\<close>

abbreviation returning :: "(int \<times> 'm) option \<Rightarrow> (outcome \<times> 'm) option" where
  "returning r \<equiv> map_option (\<lambda>(v, m). (Ret v, m)) r"

definition syscall_dispatch ::
    "(('s, 'd) machine \<Rightarrow> ('s, 'd) machine) \<Rightarrow> 'd bus \<Rightarrow> u64 \<Rightarrow> u64 \<Rightarrow> u64 \<Rightarrow> u64 \<Rightarrow> ('s, 'd) machine \<Rightarrow>
     (outcome \<times> ('s, 'd) machine) option" where
  "syscall_dispatch irq b num arg1 arg2 arg3 m =
     (if num = SYS_PRINT then returning (sys_print b arg1 m)
      else if num = SYS_PUTCHAR then
        map_option (\<lambda>t. (Ret 0, m\<lparr>tty := t\<rparr>)) (terminal_putchar b (c_char (ucast arg1)) (tty m))
      else if num = SYS_CLEAR then Some (Ret 0, m\<lparr>tty := terminal_clear b (tty m)\<rparr>)
      else if num = SYS_GETCHAR then returning (sys_getchar irq m)
      else if num = SYS_READLINE then returning (sys_readline irq b arg1 arg2 m)
      else if num = SYS_EXIT then Some (sys_exit arg1 m)
      else if num = SYS_UPTIME then Some (Ret (sint (timer_get_ticks (kern m))), m)
      else if num = SYS_SYSINFO then returning (sys_sysinfo arg1 arg2 m)
      else if num = SYS_OPEN then returning (sys_open arg1 m)
      else if num = SYS_READ then returning (sys_read arg1 arg2 arg3 m)
      else if num = SYS_WRITE then returning (sys_write b arg1 arg2 m)
      else if num = SYS_CLOSE then returning (Some (sys_close arg1 m))
      else if num = SYS_SETCOLOR then Some (Ret 0, m\<lparr>tty := terminal_setcolor (ucast arg1) (tty m)\<rparr>)
      else if num = SYS_WAITPID then sys_waitpid arg1 arg2 arg3 m
      else if num = SYS_SLEEP then Some (sys_sleep arg1 m)
      else Some (Ret (-1), m))"

section \<open>Frames\<close>

lemma user_store_frame [simp]:
  "fd_table (user_store a v k) = fd_table k" "processes (user_store a v k) = processes k"
  "current_process (user_store a v k) = current_process k"
  by (simp_all add: user_store_def)

lemma user_write_frame [simp]:
  "fd_table (user_write a vs k) = fd_table k" "processes (user_write a vs k) = processes k"
  "current_process (user_write a vs k) = current_process k"
  by (induction vs arbitrary: a k) simp_all

lemma upd_fd_frame [simp]:
  "vm (upd_fd i f k) = vm k" "processes (upd_fd i f k) = processes k" "current_process (upd_fd i f k) = current_process k"
  "j \<noteq> i \<Longrightarrow> fd_table (upd_fd i f k) ! j = fd_table k ! j" "length (fd_table (upd_fd i f k)) = length (fd_table k)"
  "i < length (fd_table k) \<Longrightarrow> fd_table (upd_fd i f k) ! i = f (fd_table k ! i)"
  by (simp_all add: upd_fd_def)

lemma upd_proc_frame [simp]:
  "vm (upd_proc i f k) = vm k" "fd_table (upd_proc i f k) = fd_table k"
  by (simp_all add: upd_proc_def)

lemma process_exit_frame [simp]: "vm (process_exit c k) = vm k" "fd_table (process_exit c k) = fd_table k"
  by (auto simp: process_exit_def Let_def split: option.splits)

lemma process_sleep_frame [simp]:
  "vm (process_sleep_ticks t k) = vm k" "fd_table (process_sleep_ticks t k) = fd_table k"
  by (auto simp: process_sleep_ticks_def split: option.splits)

lemma store_status_frame [simp]:
  "fd_table (store_status a t k) = fd_table k" "processes (store_status a t k) = processes k"
  "current_process (store_status a t k) = current_process k"
  by (simp_all add: store_status_def)

lemma free_user_page_fds [simp]: "fd_table (free_user_page i j k) = fd_table k"
  by (simp add: free_user_page_def Let_def)

lemma free_user_pages_fds [simp]: "fd_table (fold (free_user_page i) js k) = fd_table k"
  by (induction js arbitrary: k) simp_all

lemma process_cleanup_fds: "fd_table (process_cleanup i k) = (if pid (processes k ! i) = 0 then fd_table k
   else fd_table (syscall_close_process_fds (pid (processes k ! i)) k))"
  by (simp add: process_cleanup_def Let_def)

lemma waitpid_collect_fds:
  assumes "pid (processes k ! t) = p" "fd_owner_pid (fd_table k ! i) \<noteq> p" "i < length (fd_table k)"
  shows "fd_table (snd (waitpid_collect t k)) ! i = fd_table k ! i"
  using assms by (simp add: waitpid_collect_def reap_def process_cleanup_fds syscall_close_process_fds_def)

lemma process_get_found_pid: "process_get p k = Some t \<Longrightarrow> pid (processes k ! t) = p"
  by (auto simp: process_get_def dest: find_idx_SomeD)

lemma process_waitpid_fds:
  assumes "process_waitpid p nohang k = Some (r, k')" "fd_owner_pid (fd_table k ! i) \<noteq> p" "i < length (fd_table k)"
  shows "fd_table k' ! i = fd_table k ! i"
  using assms waitpid_collect_fds [of k _ p i]
  by (auto simp: process_waitpid_def split: option.splits if_splits prod.splits dest!: process_get_found_pid)
    (metis snd_conv)+

section \<open>Isolation of descriptors\<close>

text \<open>A slot is foreign when it is in use and belongs to another process than the caller.\<close>

definition foreign_fd :: "nat \<Rightarrow> kstate \<Rightarrow> bool" where
  "foreign_fd i k \<longleftrightarrow> i < length (fd_table k) \<and> fd_used (fd_table k ! i) \<and> fd_owner_pid (fd_table k ! i) \<noteq> caller_pid k"

lemma foreign_not_owned: "foreign_fd i k \<Longrightarrow> fd_owned fd k \<Longrightarrow> nat fd \<noteq> i"
  by (auto simp: foreign_fd_def fd_owned_def caller_pid_def split: option.splits)

lemma read_slot_fds: "read_slot j buf len k = Some (r, k') \<Longrightarrow> j \<noteq> i \<Longrightarrow> fd_table k' ! i = fd_table k ! i"
  by (auto simp: read_slot_def Let_def split: if_splits)

lemma sys_read_fds:
  assumes "sys_read a1 a2 a3 m = Some (r, m')" "foreign_fd i (kern m)"
  shows "fd_table (kern m') ! i = fd_table (kern m) ! i"
  using assms(1) foreign_not_owned [OF assms(2), of "c_int a1"] read_slot_fds [of "nat (c_int a1)" a2 _ "kern m" _ _ i]
  by (auto simp: sys_read_def Let_def split: if_splits option.splits)

lemma sys_close_fds:
  assumes "foreign_fd i (kern m)"
  shows "fd_table (kern (snd (sys_close a1 m))) ! i = fd_table (kern m) ! i"
  using foreign_not_owned [OF assms, of "c_int a1"] by (auto simp: sys_close_def Let_def)

lemma sys_open_fds:
  assumes "sys_open a1 m = Some (r, m')" "foreign_fd i (kern m)"
  shows "fd_table (kern m') ! i = fd_table (kern m) ! i"
proof -
  have "j \<noteq> i" if "find_idx (\<lambda>f. \<not> fd_used f) (fd_table (kern m)) = Some j" for j
    using find_idx_SomeD [OF that] assms(2) by (auto simp: foreign_fd_def)
  then show ?thesis
    using assms(1) by (auto simp: sys_open_def open_slot_def Let_def split: if_splits option.splits)
qed

lemma sys_waitpid_split:
  assumes "sys_waitpid a1 a2 a3 m = Some (r, m')"
  obtains "m' = m" | k w where "fd_table k = fd_table (kern m)" "process_waitpid a1 (bit a3 0) k = Some (w, kern m')"
proof -
  define k where "k = (case process_get a1 (kern m) of
      Some t \<Rightarrow> if a1 \<noteq> 0 \<and> bit a3 0 \<and> pstate (processes (kern m) ! t) = PROC_TERMINATED then store_status a2 t (kern m) else kern m
    | None \<Rightarrow> kern m)"
  have k: "fd_table k = fd_table (kern m)"
    by (simp add: k_def split: option.split)
  have "m' = m \<or> (\<exists>w. process_waitpid a1 (bit a3 0) k = Some (w, kern m'))"
    using assms by (auto simp: sys_waitpid_def Let_def simp flip: k_def split: if_splits bind_splits)
  then show thesis
    using that k by blast
qed

lemma sys_waitpid_fds:
  assumes "sys_waitpid a1 a2 a3 m = Some (r, m')" "foreign_fd i (kern m)" "fd_owner_pid (fd_table (kern m) ! i) \<noteq> a1"
  shows "fd_table (kern m') ! i = fd_table (kern m) ! i"
  using assms(1)
proof (cases rule: sys_waitpid_split)
  case (2 k w)
  then show ?thesis
    using process_waitpid_fds [OF 2(2), of i] assms(2,3) by (simp add: foreign_fd_def)
qed simp

text \<open>What a waiting call does to the machine is what its steps do: a relation kept by each step and transitive is
  kept by the loop.\<close>

lemma wait_key_rel:
  assumes run: "wait_key irq p m = Some (c, m')"
    and R: "\<And>x. R x (irq x)" "\<And>x kb. R x (x\<lparr>kbd := kb\<rparr>)" "\<And>x y z. R x y \<Longrightarrow> R y z \<Longrightarrow> R x z"
  shows "R m m'"
proof -
  have "irq = irq \<longrightarrow> R m (snd (c, m'))"
  proof (rule wait_key.raw_induct [where P = "\<lambda>irq' p m y. irq' = irq \<longrightarrow> R m (snd y)", OF _ run], intro impI)
    fix f :: "(('a, 'b) machine \<Rightarrow> ('a, 'b) machine) \<Rightarrow> u64 \<Rightarrow> ('a, 'b) machine \<Rightarrow> (u8 \<times> ('a, 'b) machine) option"
      and irq' p m y
    assume IH: "\<And>irq' p m y. f irq' p m = Some y \<Longrightarrow> irq' = irq \<longrightarrow> R m (snd y)" and [simp]: "irq' = irq"
      and b: "(case (if process_is_foreground p (kern m) then keyboard_getchar (kbd m) else (0, kbd m)) of
        (c, kb) \<Rightarrow> if c \<noteq> 0 then Some (c, m\<lparr>kbd := kb\<rparr>) else f irq' p (irq' (m\<lparr>kbd := kb\<rparr>))) = Some y"
    obtain c kb where g: "(if process_is_foreground p (kern m) then keyboard_getchar (kbd m) else (0, kbd m)) = (c, kb)"
      by (meson surj_pair)
    show "R m (snd y)"
    proof (cases "c = 0")
      case True
      then have "R (irq (m\<lparr>kbd := kb\<rparr>)) (snd y)"
        using b g IH [of irq p "irq (m\<lparr>kbd := kb\<rparr>)" y] by simp
      then show ?thesis
        using R by blast
    next
      case False
      then show ?thesis
        using b g R(2) by auto
    qed
  qed
  then show ?thesis
    by simp
qed

lemma readline_loop_rel:
  fixes R :: "('s, 'd) machine \<Rightarrow> ('s, 'd) machine \<Rightarrow> bool"
  assumes run: "readline_loop irq b p buf maxlen i m = Some (n, m')" and i: "i \<le> maxlen - 1"
    and R: "\<And>x. R x (irq x)" "\<And>x kb. R x (x\<lparr>kbd := kb\<rparr>)" "\<And>x t. R x (x\<lparr>tty := t\<rparr>)" "\<And>x y z. R x y \<Longrightarrow> R y z \<Longrightarrow> R x z"
    and store: "\<And>x j v. j < maxlen - 1 \<Longrightarrow> R x (x\<lparr>kern := user_store (buf + ucast j) v (kern x)\<rparr>)"
  shows "R m m' \<and> n \<le> maxlen - 1"
proof -
  let ?P = "\<lambda>irq' b' p' buf' ml' i (m :: ('s, 'd) machine) (y :: u32 \<times> ('s, 'd) machine).
    irq' = irq \<longrightarrow> b' = b \<longrightarrow> buf' = buf \<longrightarrow> ml' = maxlen \<longrightarrow> i \<le> maxlen - 1 \<longrightarrow> R m (snd y) \<and> fst y \<le> maxlen - 1"
  have "?P irq b p buf maxlen i m (n, m')"
  proof (rule readline_loop.raw_induct [where P = ?P, OF _ run], intro impI, goal_cases)
    case (1 f irq' b' p buf' ml' i m y)
    note IH = 1(1) [rule_format] and b = 1(2)
    have [simp]: "irq' = irq" "b' = b" "buf' = buf" "ml' = maxlen"
      using 1 by simp_all
    show ?case
    proof (cases "i < maxlen - 1")
      case True
      obtain c m1 where w: "wait_key irq p m = Some (c, m1)"
        using b True by (auto split: bind_splits)
      have m1: "R m m1"
        by (rule wait_key_rel [OF w]) (use R in blast)+
      have inc: "i + 1 \<le> maxlen - 1"
        using True by (simp add: inc_le)
      have dec: "i - 1 \<le> maxlen - 1" if "0 < i"
        using True that unat_minus_one [of i] by (cases "i = 0") (auto simp: word_le_nat_alt word_less_nat_alt)
      consider (nl) "c = 10 \<or> c = 13" | (bs) "c = 8" | (ch) "c \<ge> 32" "c < 128" "c \<noteq> 10" "c \<noteq> 13" "c \<noteq> 8"
        | (oth) "\<not> (c \<ge> 32 \<and> c < 128)" "c \<noteq> 10" "c \<noteq> 13" "c \<noteq> 8"
        by blast
      then show ?thesis
      proof cases
        case nl
        then show ?thesis
          using b True w 1(7) R(4) [OF m1 R(3)] by auto
      next
        case bs
        then show ?thesis
          using b True w IH [of irq b p buf maxlen "i - 1" _ y, OF _ refl refl refl refl dec] IH [of irq b p buf maxlen i m1 y] 1(7) R(4) [OF m1 R(4) [OF R(3)]] R(4) [OF m1]
          by (auto split: if_splits)
      next
        case ch
        then obtain t where "terminal_putchar b (c_char c) (tty m1) = Some t"
          "f irq b p buf maxlen (i + 1) (m1\<lparr>tty := t, kern := user_store (buf + ucast i) c (kern m1)\<rparr>) = Some y"
          using b True w by (auto split: bind_splits)
        with IH inc have "R (m1\<lparr>tty := t, kern := user_store (buf + ucast i) c (kern m1)\<rparr>) (snd y)" "fst y \<le> maxlen - 1"
          by blast+
        moreover have "R (m1\<lparr>tty := t\<rparr>) (m1\<lparr>tty := t, kern := user_store (buf + ucast i) c (kern m1)\<rparr>)"
          using store [OF True, of "m1\<lparr>tty := t\<rparr>" c] by simp
        ultimately show ?thesis
          using R(3,4) m1 by meson
      next
        case oth
        then show ?thesis
          using b True w IH [of irq b p buf maxlen i m1 y] 1(7) R(4) [OF m1] by auto
      qed
    next
      case False
      then show ?thesis
        using b R(2) [of m "kbd m"] 1(7) by auto
    qed
  qed
  then show ?thesis
    using i by simp
qed

lemma sys_getchar_fds:
  assumes "sys_getchar irq m = Some (r, m')" and "\<And>x. fd_table (kern (irq x)) ! i = fd_table (kern x) ! i"
  shows "fd_table (kern m') ! i = fd_table (kern m) ! i"
  using assms wait_key_rel [of irq _ m _ m' "\<lambda>x y. fd_table (kern y) ! i = fd_table (kern x) ! i"]
  by (auto simp: sys_getchar_def)

lemma sys_readline_fds:
  assumes run: "sys_readline irq b a1 a2 m = Some (r, m')" and irq: "\<And>x. fd_table (kern (irq x)) ! i = fd_table (kern x) ! i"
  shows "fd_table (kern m') ! i = fd_table (kern m) ! i"
proof -
  have "fd_table (kern y) ! i = fd_table (kern m) ! i"
    if "readline_loop irq b p a1 (ucast a2) 0 m = Some (n, y)" for p n y
    using readline_loop_rel [OF that, of "\<lambda>x y. fd_table (kern y) ! i = fd_table (kern x) ! i"] irq by simp
  then show ?thesis
    using run by (auto simp: sys_readline_def Let_def split: if_splits bind_splits)
qed

lemmas syscall_numbers = SYS_PRINT_def SYS_PUTCHAR_def SYS_CLEAR_def SYS_GETCHAR_def SYS_READLINE_def SYS_EXIT_def
  SYS_UPTIME_def SYS_SYSINFO_def SYS_OPEN_def SYS_READ_def SYS_WRITE_def SYS_CLOSE_def SYS_SETCOLOR_def SYS_WAITPID_def
  SYS_SLEEP_def

text \<open>Calls that leave the kernel state alone.\<close>

lemma console_calls_kern:
  "sys_print b a1 m = Some (r, m') \<Longrightarrow> kern m' = kern m"
  "sys_write b a1 a2 m = Some (r, m') \<Longrightarrow> kern m' = kern m"
  by (auto simp: sys_print_def sys_write_def Let_def split: if_splits bind_splits)

lemma sys_sysinfo_fds: "sys_sysinfo a1 a2 m = Some (r, m') \<Longrightarrow> fd_table (kern m') = fd_table (kern m)"
  by (auto simp: sys_sysinfo_def Let_def split: if_splits bind_splits)

lemma exit_sleep_fds:
  "fd_table (kern (snd (sys_exit a1 m))) = fd_table (kern m)" "fd_table (kern (snd (sys_sleep a1 m))) = fd_table (kern m)"
  by (simp_all add: sys_exit_def sys_sleep_def)

text \<open>The cases of \<open>syscall_dispatch\<close>, for the proofs about all calls.\<close>

lemma syscall_dispatch_cases:
  assumes "syscall_dispatch irq b num a1 a2 a3 m = Some (r, m')"
  obtains (console) "kern m' = kern m"
  | (getchar) v where "sys_getchar irq m = Some (v, m')"
  | (readline) v where "sys_readline irq b a1 a2 m = Some (v, m')"
  | (exiting) "(r, m') = sys_exit a1 m"
  | (sysinfo) v where "sys_sysinfo a1 a2 m = Some (v, m')"
  | (opened) v where "sys_open a1 m = Some (v, m')"
  | (reading) v where "sys_read a1 a2 a3 m = Some (v, m')" "num = SYS_READ" "r = Ret v"
  | (closing) v where "sys_close a1 m = (v, m')" "num = SYS_CLOSE" "r = Ret v"
  | (waitpid) "sys_waitpid a1 a2 a3 m = Some (r, m')" "num = SYS_WAITPID"
  | (sleeping) "(r, m') = sys_sleep a1 m"
proof -
  note d = assms [unfolded syscall_dispatch_def]
  consider "num = SYS_PRINT" | "num = SYS_PUTCHAR" | "num = SYS_CLEAR" | "num = SYS_GETCHAR"
    | "num = SYS_READLINE" | "num = SYS_EXIT" | "num = SYS_UPTIME" | "num = SYS_SYSINFO"
    | "num = SYS_OPEN" | "num = SYS_READ" | "num = SYS_WRITE" | "num = SYS_CLOSE" | "num = SYS_SETCOLOR"
    | "num = SYS_WAITPID" | "num = SYS_SLEEP"
    | "num \<notin> {SYS_PRINT, SYS_PUTCHAR, SYS_CLEAR, SYS_GETCHAR, SYS_READLINE, SYS_EXIT, SYS_UPTIME, SYS_SYSINFO, SYS_OPEN, SYS_READ, SYS_WRITE, SYS_CLOSE, SYS_SETCOLOR, SYS_WAITPID, SYS_SLEEP}"
    by blast
  then show thesis
  proof cases
    case 1
    show thesis
      by (rule console) (use d 1 in \<open>auto simp: syscall_numbers dest: console_calls_kern\<close>)
  next
    case 2
    show thesis
      by (rule console) (use d 2 in \<open>auto simp: syscall_numbers dest: console_calls_kern\<close>)
  next
    case 3
    show thesis
      by (rule console) (use d 3 in \<open>auto simp: syscall_numbers dest: console_calls_kern\<close>)
  next
    case 4
    show thesis
      using d 4 by (auto simp: syscall_numbers intro: getchar)
  next
    case 5
    show thesis
      using d 5 by (auto simp: syscall_numbers intro: readline)
  next
    case 6
    show thesis
      by (rule exiting) (use d 6 in \<open>auto simp: syscall_numbers dest: console_calls_kern\<close>)
  next
    case 7
    show thesis
      by (rule console) (use d 7 in \<open>auto simp: syscall_numbers dest: console_calls_kern\<close>)
  next
    case 8
    show thesis
      using d 8 by (auto simp: syscall_numbers intro: sysinfo)
  next
    case 9
    show thesis
      using d 9 by (auto simp: syscall_numbers intro: opened)
  next
    case 10
    show thesis
      using d 10 by (auto simp: syscall_numbers intro: reading)
  next
    case 11
    show thesis
      by (rule console) (use d 11 in \<open>auto simp: syscall_numbers dest: console_calls_kern\<close>)
  next
    case 12
    show thesis
      using d 12 by (auto simp: syscall_numbers split: prod.splits intro: closing)
  next
    case 13
    show thesis
      by (rule console) (use d 13 in \<open>auto simp: syscall_numbers dest: console_calls_kern\<close>)
  next
    case 14
    show thesis
      by (rule waitpid) (use d 14 in \<open>auto simp: syscall_numbers dest: console_calls_kern\<close>)
  next
    case 15
    show thesis
      by (rule sleeping) (use d 15 in \<open>auto simp: syscall_numbers dest: console_calls_kern\<close>)
  next
    case 16
    show thesis
      by (rule console) (use d 16 in simp)
  qed
qed


section \<open>The descriptor table is well formed\<close>

definition fd_ok :: "fd_entry \<Rightarrow> bool" where
  "fd_ok f \<longleftrightarrow> length (fd_name f) = 256 \<and> length (fd_data f) = 16384 \<and> fd_size f \<le> 16384 \<and> fd_pos f \<le> fd_size f"

definition fd_table_ok :: "kstate \<Rightarrow> bool" where
  "fd_table_ok k \<longleftrightarrow> length (fd_table k) = MAX_FD \<and> (\<forall>f \<in> set (fd_table k). fd_ok f)"

text \<open>The mounted file systems keep to the buffer of a descriptor.\<close>

definition reads_bounded :: "'s vfs_state \<Rightarrow> 's \<Rightarrow> bool" where
  "reads_bounded v s \<longleftrightarrow> (\<forall>name buf r buf' sz s'. length buf = 16384 \<longrightarrow>
     vfs_read name buf 0 16384 v s = Some ((r, buf', sz), s') \<longrightarrow> length buf' = 16384 \<and> (r = 0 \<longrightarrow> sz \<le> 16384))"

lemma fd_table_ok_cong: "fd_table k' = fd_table k \<Longrightarrow> fd_table_ok k' = fd_table_ok k"
  by (simp add: fd_table_ok_def)

lemma fd_table_ok_nth: "fd_table_ok k \<Longrightarrow> i < MAX_FD \<Longrightarrow> fd_ok (fd_table k ! i)"
  by (simp add: fd_table_ok_def)

lemma fd_table_ok_upd: "fd_table_ok k \<Longrightarrow> fd_ok (f (fd_table k ! i)) \<Longrightarrow> fd_table_ok (upd_fd i f k)"
  using set_update_subset_insert [of "fd_table k" i "f (fd_table k ! i)"] by (auto simp: fd_table_ok_def upd_fd_def)

lemma fd_table_ok_close: "fd_table_ok k \<Longrightarrow> fd_table_ok (syscall_close_process_fds p k)"
  by (auto simp: fd_table_ok_def syscall_close_process_fds_def fd_ok_def)

lemma syscall_init_ok: "fd_table k = replicate MAX_FD f \<Longrightarrow> length (fd_name f) = 256 \<Longrightarrow> length (fd_data f) = 16384 \<Longrightarrow>
   fd_size f = 0 \<Longrightarrow> fd_table_ok (syscall_init k)"
  by (auto simp: fd_table_ok_def syscall_init_def fd_table_init_def fd_ok_def)

lemma process_waitpid_ok:
  assumes "process_waitpid p nohang k = Some (r, k')" "fd_table_ok k"
  shows "fd_table_ok k'"
proof -
  have "fd_table_ok (snd (waitpid_collect t k))" for t
    using assms(2) fd_table_ok_close [OF assms(2), of "pid (processes k ! t)"]
    by (auto simp: waitpid_collect_def reap_def fd_table_ok_def process_cleanup_fds)
  then show ?thesis
    using assms by (auto simp: process_waitpid_def fd_table_ok_def split: option.splits if_splits prod.splits) (metis snd_conv)+
qed

lemma copy_name_length: "length old = 256 \<Longrightarrow> length (copy_name name old) = 256"
  by (simp add: copy_name_def Let_def min_def)

lemma open_slot_ok:
  assumes run: "open_slot p name i m = Some (r, m')" and ok: "fd_table_ok (kern m)" and b: "reads_bounded (vfs m) (files m)"
    and i: "i < MAX_FD"
  shows "fd_table_ok (kern m')"
proof -
  obtain res buf sz s' where v: "vfs_read name (fd_data (fd_table (kern m) ! i)) 0 16384 (vfs m) (files m) = Some ((res, buf, sz), s')"
    using run by (auto simp: open_slot_def split: option.splits)
  let ?k1 = "upd_fd i (\<lambda>f. f\<lparr>fd_data := buf\<rparr>) (kern m)"
  have f: "fd_ok (fd_table (kern m) ! i)" "i < length (fd_table (kern m))"
    using ok i fd_table_ok_nth [OF ok] by (simp_all add: fd_table_ok_def)
  then have bnd: "length buf = 16384" "res = 0 \<longrightarrow> sz \<le> 16384"
    using b [unfolded reads_bounded_def, rule_format, OF _ v] by (simp_all add: fd_ok_def)
  have k1: "fd_table_ok ?k1"
    using f(1) bnd by (intro fd_table_ok_upd [OF ok]) (simp add: fd_ok_def)
  have "res = 0 \<longrightarrow> fd_table_ok (upd_fd i (\<lambda>f. f\<lparr>fd_size := sz, fd_pos := 0, fd_used := True, fd_owner_pid := p,
      fd_name := copy_name name (fd_name f)\<rparr>) ?k1)"
    using f bnd by (intro impI fd_table_ok_upd [OF k1]) (simp add: fd_ok_def copy_name_length)
  then show ?thesis
    using run v k1 by (auto simp: open_slot_def Let_def split: if_splits)
qed

lemma sys_open_ok:
  assumes "sys_open a1 m = Some (r, m')" "fd_table_ok (kern m)" "reads_bounded (vfs m) (files m)"
  shows "fd_table_ok (kern m')"
proof -
  have "i < MAX_FD" if "find_idx (\<lambda>f. \<not> fd_used f) (fd_table (kern m)) = Some i" for i
    using find_idx_SomeD [OF that] assms(2) by (simp add: fd_table_ok_def)
  then show ?thesis
    using assms by (auto simp: sys_open_def Let_def split: if_splits option.splits elim!: open_slot_ok)
qed

text \<open>A read stays inside the descriptor's buffer and moves the position inside the file.\<close>

lemma read_slot_ok:
  assumes ok: "fd_table_ok k" and i: "i < MAX_FD"
  shows "\<exists>r k'. read_slot i buf len k = Some (r, k') \<and> fd_table_ok k'"
proof (cases "fd_pos (fd_table k ! i) < fd_size (fd_table k ! i)")
  case True
  let ?f = "fd_table k ! i"
  define n where "n = (if len > fd_size ?f - fd_pos ?f then fd_size ?f - fd_pos ?f else len)"
  have f: "fd_ok ?f"
    using ok i by (rule fd_table_ok_nth)
  have "n \<le> fd_size ?f - fd_pos ?f"
    by (auto simp: n_def)
  moreover have "unat (fd_size ?f - fd_pos ?f) = unat (fd_size ?f) - unat (fd_pos ?f)"
    using True by (intro unat_sub) simp
  ultimately have 1: "unat (fd_pos ?f) + unat n \<le> unat (fd_size ?f)"
    using True by (simp add: word_le_nat_alt word_less_nat_alt)
  then have "unat (fd_pos ?f + n) = unat (fd_pos ?f) + unat n"
    using unsigned_less [of "fd_size ?f", where ?'a = nat] by (simp add: unat_word_ariths)
  then have 2: "fd_pos ?f + n \<le> fd_size ?f"
    using 1 by (simp add: word_le_nat_alt)
  have 3: "unat (fd_pos ?f) + unat n \<le> length (fd_data ?f)"
    using 1 f by (auto simp: fd_ok_def word_le_nat_alt)
  have "fd_table_ok (upd_fd i (\<lambda>f. f\<lparr>fd_pos := fd_pos f + n\<rparr>) (user_write a bs k))" for a bs
    using f 2 ok by (intro fd_table_ok_upd) (simp_all add: fd_ok_def fd_table_ok_def)
  then show ?thesis
    using True 3 by (auto simp: read_slot_def Let_def not_le simp flip: n_def)
qed (use ok in \<open>simp add: read_slot_def Let_def not_less\<close>)

lemma sys_read_ok:
  assumes ok: "fd_table_ok (kern m)"
  shows "sys_read a1 a2 a3 m = Some (r, m') \<Longrightarrow> fd_table_ok (kern m')"
    and "user_buf_ok a2 (ucast (ucast a3 :: u32)) (kern m) \<noteq> None \<Longrightarrow> sys_read a1 a2 a3 m \<noteq> None"
proof -
  have i: "nat (c_int a1) < MAX_FD" if "fd_valid (c_int a1) (kern m)"
    using that by (auto simp: fd_valid_def)
  show "sys_read a1 a2 a3 m = Some (r, m') \<Longrightarrow> fd_table_ok (kern m')"
    using ok read_slot_ok [OF ok i, of a2 "ucast a3"] by (auto simp: sys_read_def Let_def split: if_splits option.splits)
  show "user_buf_ok a2 (ucast (ucast a3 :: u32)) (kern m) \<noteq> None \<Longrightarrow> sys_read a1 a2 a3 m \<noteq> None"
    using read_slot_ok [OF ok i, of a2 "ucast a3"] by (auto simp: sys_read_def Let_def split: option.splits)
qed

lemma sys_close_ok: "fd_table_ok (kern m) \<Longrightarrow> fd_table_ok (kern (snd (sys_close a1 m)))"
  using fd_table_ok_nth [of "kern m" "nat (c_int a1)"]
  by (auto simp: sys_close_def Let_def fd_valid_def fd_ok_def intro!: fd_table_ok_upd)

lemma sys_waitpid_ok:
  assumes "sys_waitpid a1 a2 a3 m = Some (r, m')" "fd_table_ok (kern m)"
  shows "fd_table_ok (kern m')"
  using assms(1)
proof (cases rule: sys_waitpid_split)
  case (2 k w)
  then show ?thesis
    using process_waitpid_ok [OF 2(2)] fd_table_ok_cong [OF 2(1)] assms(2) by simp
qed (use assms(2) in simp)

lemma waiting_calls_ok:
  assumes "\<And>x. fd_table_ok (kern x) \<Longrightarrow> fd_table_ok (kern (irq x))" "fd_table_ok (kern m)"
  shows "sys_getchar irq m = Some (r, m') \<Longrightarrow> fd_table_ok (kern m')"
    and "sys_readline irq b a1 a2 m = Some (r, m') \<Longrightarrow> fd_table_ok (kern m')"
proof -
  let ?R = "\<lambda>x y. fd_table_ok (kern x) \<longrightarrow> fd_table_ok (kern y)"
  show "sys_getchar irq m = Some (r, m') \<Longrightarrow> fd_table_ok (kern m')"
    using wait_key_rel [of irq _ m _ m' ?R] assms by (auto simp: sys_getchar_def)
  have "fd_table_ok (kern y)" if "readline_loop irq b p a1 (ucast a2) 0 m = Some (n, y)" for p n y
    using readline_loop_rel [OF that, of ?R] assms by (auto simp: fd_table_ok_def [of "user_store _ _ _"] fd_table_ok_def [symmetric])
  then show "sys_readline irq b a1 a2 m = Some (r, m') \<Longrightarrow> fd_table_ok (kern m')"
    using assms(2) by (auto simp: sys_readline_def Let_def fd_table_ok_def [of "user_store _ _ _"] fd_table_ok_def [symmetric]
        split: if_splits bind_splits)
qed

text \<open>C32. The descriptor table stays well formed under every system call: eight slots, each with its 256-byte name,
  its 16384-byte buffer, a size that fits the buffer and a position that does not pass the size, provided the mounted file
  systems keep to the buffer they are given. In such a state \<open>SYS_READ\<close> never reads outside a buffer: it returns
  whenever the check of the user range does.\<close>
theorem syscall_fd_table_typed:
  assumes "fd_table_ok (kern m)" "reads_bounded (vfs m) (files m)" "\<And>x. fd_table_ok (kern x) \<Longrightarrow> fd_table_ok (kern (irq x))"
  shows "(\<forall>r m'. syscall_dispatch irq b num a1 a2 a3 m = Some (r, m') \<longrightarrow> fd_table_ok (kern m')) \<and>
    (user_buf_ok a2 (ucast (ucast a3 :: u32)) (kern m) \<noteq> None \<longrightarrow> syscall_dispatch irq b SYS_READ a1 a2 a3 m \<noteq> None)"
proof (intro conjI allI impI)
  fix r m'
  assume "syscall_dispatch irq b num a1 a2 a3 m = Some (r, m')"
  then show "fd_table_ok (kern m')"
  proof (cases rule: syscall_dispatch_cases)
    case exiting
    then show ?thesis
      using exit_sleep_fds(1) [of a1 m] assms(1) by (metis fd_table_ok_cong snd_conv)
  next
    case sleeping
    then show ?thesis
      using exit_sleep_fds(2) [of a1 m] assms(1) by (metis fd_table_ok_cong snd_conv)
  next
    case (closing v)
    then show ?thesis
      using sys_close_ok [OF assms(1), of a1] by simp
  next
    case (sysinfo v)
    then show ?thesis
      using sys_sysinfo_fds assms(1) fd_table_ok_cong by blast
  qed (use assms in \<open>auto elim: waiting_calls_ok sys_open_ok sys_read_ok sys_waitpid_ok\<close>)
next
  assume "user_buf_ok a2 (ucast (ucast a3 :: u32)) (kern m) \<noteq> None"
  then show "syscall_dispatch irq b SYS_READ a1 a2 a3 m \<noteq> None"
    using sys_read_ok(2) [OF assms(1)] by (simp add: syscall_dispatch_def syscall_numbers)
qed

section \<open>User memory\<close>

text \<open>The tables that the translation of an address reads.\<close>

definition walk_tables :: "u64 \<Rightarrow> u64 \<Rightarrow> vmm_state \<Rightarrow> u64 set" where
  "walk_tables cr3 virt s =
     (let t4 = cr3 AND PTE_ADDR_MASK; e4 = pmem s t4 (PML4_INDEX virt);
          t3 = e4 AND PTE_ADDR_MASK; e3 = pmem s t3 (PDPT_INDEX virt);
          t2 = e3 AND PTE_ADDR_MASK; e2 = pmem s t2 (PD_INDEX virt)
      in {t4} \<union> (if e4 AND PTE_PRESENT = 0 then {} else {t3} \<union>
           (if e3 AND PTE_PRESENT = 0 then {} else {t2} \<union>
             (if e2 AND PTE_PRESENT = 0 \<or> e2 AND PTE_HUGE \<noteq> 0 then {} else {e2 AND PTE_ADDR_MASK}))))"

definition user_frame :: "u64 \<Rightarrow> u64 \<Rightarrow> vmm_state \<Rightarrow> u64" where
  "user_frame cr3 virt s = vmm_get_physical_in cr3 virt s AND NOT 0xFFF"

definition user_frames :: "u64 \<Rightarrow> vmm_state \<Rightarrow> u64 set" where
  "user_frames cr3 s = {user_frame cr3 v s |v. vmm_user_page_ok cr3 (v AND NOT 0xFFF) s}"

text \<open>No page table of the space is itself mapped for the user.\<close>

definition tables_private :: "u64 \<Rightarrow> vmm_state \<Rightarrow> bool" where
  "tables_private cr3 s \<longleftrightarrow> (\<forall>v. walk_tables cr3 v s \<inter> user_frames cr3 s = {})"

text \<open>\<open>confined s s'\<close>: from \<open>s\<close> to \<open>s'\<close> only frames of the user part of the loaded space have changed, and the
  space translates as before.\<close>

definition confined :: "vmm_state \<Rightarrow> vmm_state \<Rightarrow> bool" where
  "confined s s' \<longleftrightarrow> cr3_reg s' = cr3_reg s \<and>
     (\<forall>v. vmm_get_physical_in (cr3_reg s) v s' = vmm_get_physical_in (cr3_reg s) v s \<and>
          vmm_user_page_ok (cr3_reg s) v s' = vmm_user_page_ok (cr3_reg s) v s \<and>
          walk_tables (cr3_reg s) v s' = walk_tables (cr3_reg s) v s) \<and>
     (\<forall>t. t \<notin> user_frames (cr3_reg s) s \<longrightarrow> pmem s' t = pmem s t)"

lemma confined_frames: "confined s s' \<Longrightarrow> user_frames (cr3_reg s) s' = user_frames (cr3_reg s) s"
  by (simp add: confined_def user_frames_def user_frame_def)

lemma confined_refl [intro]: "confined s s"
  by (simp add: confined_def)

lemma confined_trans: "confined s s' \<Longrightarrow> confined s' s'' \<Longrightarrow> confined s s''"
  using confined_frames [of s s'] by (simp add: confined_def)

lemma confined_private: "confined s s' \<Longrightarrow> tables_private (cr3_reg s) s \<Longrightarrow> tables_private (cr3_reg s') s'"
  using confined_frames [of s s'] by (simp add: confined_def tables_private_def)

lemma absent_not_user: "e AND PTE_PRESENT = 0 \<Longrightarrow> e AND (PTE_PRESENT OR PTE_USER) \<noteq> PTE_PRESENT OR PTE_USER" for e :: u64
proof
  assume "e AND PTE_PRESENT = 0" "e AND (PTE_PRESENT OR PTE_USER) = PTE_PRESENT OR PTE_USER"
  then have "PTE_PRESENT = (e AND (PTE_PRESENT OR PTE_USER)) AND PTE_PRESENT"
    by (simp add: PTE_PRESENT_def PTE_USER_def)
  also have "\<dots> = e AND PTE_PRESENT"
    by (simp add: and.assoc PTE_PRESENT_def PTE_USER_def)
  finally show False
    using \<open>e AND PTE_PRESENT = 0\<close> by (simp add: PTE_PRESENT_def)
qed

lemma walk_unchanged:
  assumes "t \<notin> walk_tables cr3 v s" "pmem s' = (pmem s)(t := f)"
  shows "vmm_get_physical_in cr3 v s' = vmm_get_physical_in cr3 v s"
    "vmm_user_page_ok cr3 v s' = vmm_user_page_ok cr3 v s" "walk_tables cr3 v s' = walk_tables cr3 v s"
proof -
  define t4 where "t4 = cr3 AND PTE_ADDR_MASK"
  define e4 where "e4 = pmem s t4 (PML4_INDEX v)"
  define t3 where "t3 = e4 AND PTE_ADDR_MASK"
  define e3 where "e3 = pmem s t3 (PDPT_INDEX v)"
  define t2 where "t2 = e3 AND PTE_ADDR_MASK"
  define e2 where "e2 = pmem s t2 (PD_INDEX v)"
  note defs = t4_def [symmetric] e4_def [symmetric] t3_def [symmetric] e3_def [symmetric] t2_def [symmetric] e2_def [symmetric]
  have w: "t \<noteq> t4" "e4 AND PTE_PRESENT \<noteq> 0 \<Longrightarrow> t \<noteq> t3" "e4 AND PTE_PRESENT \<noteq> 0 \<Longrightarrow> e3 AND PTE_PRESENT \<noteq> 0 \<Longrightarrow> t \<noteq> t2"
    "e4 AND PTE_PRESENT \<noteq> 0 \<Longrightarrow> e3 AND PTE_PRESENT \<noteq> 0 \<Longrightarrow> e2 AND PTE_PRESENT \<noteq> 0 \<Longrightarrow> e2 AND PTE_HUGE = 0 \<Longrightarrow>
       t \<noteq> e2 AND PTE_ADDR_MASK"
    using assms(1) unfolding walk_tables_def Let_def defs by (auto split: if_splits)
  show "vmm_get_physical_in cr3 v s' = vmm_get_physical_in cr3 v s"
    using w unfolding vmm_get_physical_in_def Let_def assms(2) defs
    by (cases "e4 AND PTE_PRESENT = 0"; cases "e3 AND PTE_PRESENT = 0"; cases "e2 AND PTE_PRESENT = 0";
        cases "e2 AND PTE_HUGE = 0") (simp_all add: defs)
  show "vmm_user_page_ok cr3 v s' = vmm_user_page_ok cr3 v s"
    using w absent_not_user [of e4] absent_not_user [of e3] absent_not_user [of e2]
    unfolding vmm_user_page_ok_def Let_def assms(2) defs
    by (cases "e4 AND PTE_PRESENT = 0"; cases "e3 AND PTE_PRESENT = 0"; cases "e2 AND PTE_PRESENT = 0";
        cases "e2 AND PTE_HUGE = 0") (simp_all add: defs)
  show "walk_tables cr3 v s' = walk_tables cr3 v s"
    using w unfolding walk_tables_def Let_def assms(2) defs
    by (cases "e4 AND PTE_PRESENT = 0"; cases "e3 AND PTE_PRESENT = 0") (simp_all add: defs)
qed

lemma phys_store_pmem: "\<exists>f. pmem (phys_store a b s) = (pmem s)(a AND NOT 0xFFF := f)"
  by (auto simp: phys_store_def Let_def set_entry_def)

lemma phys_store_cr3 [simp]: "cr3_reg (phys_store a b s) = cr3_reg s"
  by (simp add: phys_store_def Let_def set_entry_def)

text \<open>A kernel state whose loaded tables are private, and a store to a user page.\<close>

definition user_addr :: "u64 \<Rightarrow> vmm_state \<Rightarrow> bool" where
  "user_addr a s \<longleftrightarrow> vmm_user_page_ok (cr3_reg s) (a AND NOT 0xFFF) s"

lemma user_store_confined:
  assumes "tables_private (cr3_reg (vm k)) (vm k)" "user_addr a (vm k)"
  shows "confined (vm k) (vm (user_store a v k))"
proof -
  let ?s = "vm k" and ?s' = "vm (user_store a v k)"
  let ?t = "user_frame (cr3_reg ?s) a ?s"
  have t: "?t \<in> user_frames (cr3_reg ?s) ?s"
    using assms(2) by (auto simp: user_frames_def user_addr_def)
  obtain f where f: "pmem ?s' = (pmem ?s)(?t := f)"
    using phys_store_pmem by (fastforce simp: user_store_def user_frame_def)
  have "?t \<notin> walk_tables (cr3_reg ?s) w ?s" for w
    using assms(1) t by (auto simp: tables_private_def)
  then show ?thesis
    using walk_unchanged [OF _ f] t f by (auto simp: confined_def user_store_def)
qed

lemma confined_user_addr: "confined s s' \<Longrightarrow> user_addr a s' = user_addr a s"
  by (simp add: confined_def user_addr_def)

lemma user_write_confined:
  assumes "tables_private (cr3_reg (vm k)) (vm k)" "\<And>i. i < length vs \<Longrightarrow> user_addr (a + of_nat i) (vm k)"
  shows "confined (vm k) (vm (user_write a vs k))"
  using assms
proof (induction vs arbitrary: a k)
  case (Cons v vs)
  have s: "confined (vm k) (vm (user_store a v k))"
    using Cons.prems(2) [of 0] by (intro user_store_confined Cons.prems) simp
  have "confined (vm (user_store a v k)) (vm (user_write (a + 1) vs (user_store a v k)))"
  proof (rule Cons.IH)
    show "tables_private (cr3_reg (vm (user_store a v k))) (vm (user_store a v k))"
      using confined_private [OF s Cons.prems(1)] .
    show "user_addr (a + 1 + of_nat i) (vm (user_store a v k))" if "i < length vs" for i
      using Cons.prems(2) [of "Suc i"] that confined_user_addr [OF s] by (simp add: add.assoc)
  qed
  with s show ?case
    by (auto intro: confined_trans)
qed auto

text \<open>The loaded page tables are those of the running process.\<close>

definition caller_loaded :: "kstate \<Rightarrow> bool" where
  "caller_loaded k \<longleftrightarrow> (\<forall>c. current_process k = Some c \<longrightarrow> pcr3 (processes k ! c) AND PTE_ADDR_MASK = cr3_reg (vm k) AND PTE_ADDR_MASK)"

lemma user_page_ok_masked: "cr3 AND PTE_ADDR_MASK = cr3' AND PTE_ADDR_MASK \<Longrightarrow> vmm_user_page_ok cr3 v s = vmm_user_page_ok cr3' v s"
  by (simp add: vmm_user_page_ok_def)

lemma user_buf_ok_addr:
  assumes ok: "user_buf_ok a len k = Some True" and ld: "caller_loaded k" and i: "i < unat len"
  shows "user_addr (a + of_nat i) (vm k)"
proof -
  obtain c where c: "current_process k = Some c" and r: "vmm_user_range_ok (pcr3 (processes k ! c)) a len (vm k) = Some True"
    using ok i by (auto simp: user_buf_ok_def process_get_current_def split: if_splits option.splits)
  have "\<not> a + len < a"
    using r by (auto simp: vmm_user_range_ok_def split: if_splits)
  then have "unat (a + len) = unat a + unat len"
    using unsigned_less [of len, where ?'a = nat] by (auto simp: unat_plus_if' word_less_nat_alt split: if_splits)
  then have lt: "unat a + unat len < 2 ^ LENGTH(64)"
    using unsigned_less [of "a + len", where ?'a = nat] by simp
  have "unat (a + of_nat i) = unat a + unat (of_nat i :: u64)"
    by (rule unat_add_lem [THEN iffD1]) (use lt i in \<open>simp add: unat_of_nat\<close>)
  then have "unat (a + of_nat i) = unat a + i"
    using lt i by (simp add: unat_of_nat)
  then have "vmm_user_page_ok (pcr3 (processes k ! c)) ((a + of_nat i) AND NOT 0xFFF) (vm k)"
    using vmm_user_range_ok_pages [OF r, of "a + of_nat i"] i by simp
  then show ?thesis
    using user_page_ok_masked [of "pcr3 (processes k ! c)" "cr3_reg (vm k)"] ld c by (simp add: user_addr_def caller_loaded_def)
qed

lemma unat_ucast_32_64: "unat (ucast n :: u64) = unat n" for n :: u32
  using unsigned_less [of n, where ?'a = nat] by (simp add: unsigned_ucast_eq take_bit_nat_eq_self)

lemma sysinfo_text_length: "2 \<le> n \<Longrightarrow> length (sysinfo_text n) < n"
  by (auto simp: sysinfo_text_def Let_def)

lemma sys_sysinfo_confined:
  assumes run: "sys_sysinfo a1 a2 m = Some (r, m')" and ld: "caller_loaded (kern m)"
    and tp: "tables_private (cr3_reg (vm (kern m))) (vm (kern m))"
  shows "confined (vm (kern m)) (vm (kern m'))"
proof (cases "m' = m")
  case False
  define n where "n = (ucast a2 :: u32)"
  have n: "2 \<le> unat n" and ok: "user_buf_ok a1 (ucast n) (kern m) = Some True"
    and m': "kern m' = user_write a1 (map of_char (sysinfo_text (unat n)) @ [0]) (kern m)"
    using run False unfolding n_def by (auto simp: sys_sysinfo_def Let_def word_le_nat_alt not_less split: if_splits bind_splits)
  show ?thesis
    unfolding m'
  proof (rule user_write_confined [OF tp])
    fix i assume "i < length (map of_char (sysinfo_text (unat n)) @ [0 :: u8])"
    then have "i < unat (ucast n :: u64)"
      using sysinfo_text_length [OF n] by (simp add: unat_ucast_32_64)
    then show "user_addr (a1 + of_nat i) (vm (kern m))"
      by (rule user_buf_ok_addr [OF ok ld])
  qed
qed auto

lemma read_slot_confined:
  assumes run: "read_slot i buf len k = Some (r, k')" and tp: "tables_private (cr3_reg (vm k)) (vm k)"
    and ok: "\<And>j. j < unat len \<Longrightarrow> user_addr (buf + of_nat j) (vm k)"
  shows "confined (vm k) (vm k')"
proof (cases "k' = k")
  case False
  define n where "n = (if len > fd_size (fd_table k ! i) - fd_pos (fd_table k ! i)
    then fd_size (fd_table k ! i) - fd_pos (fd_table k ! i) else len)"
  define bs where "bs = map (of_char :: char \<Rightarrow> u8) (take (unat n) (drop (unat (fd_pos (fd_table k ! i))) (fd_data (fd_table k ! i))))"
  have "vm k' = vm (user_write buf bs k)"
    using run False by (auto simp: read_slot_def Let_def simp flip: n_def bs_def split: if_splits)
  moreover have "length bs \<le> unat len"
    by (auto simp: bs_def n_def word_less_nat_alt)
  ultimately show ?thesis
    using ok by (auto intro!: user_write_confined [OF tp])
qed auto

lemma sys_read_confined:
  assumes run: "sys_read a1 a2 a3 m = Some (r, m')" and ld: "caller_loaded (kern m)"
    and tp: "tables_private (cr3_reg (vm (kern m))) (vm (kern m))"
  shows "confined (vm (kern m)) (vm (kern m'))"
proof -
  define len where "len = (ucast a3 :: u32)"
  have "user_addr (a2 + of_nat j) (vm (kern m))"
    if "user_buf_ok a2 (ucast len) (kern m) = Some True" "j < unat len" for j
    using user_buf_ok_addr [OF that(1) ld, of j] that(2) by (simp add: unat_ucast_32_64)
  then show ?thesis
    using run read_slot_confined [OF _ tp, of _ a2 len]
    by (auto simp: sys_read_def Let_def simp flip: len_def simp: word_gt_0 unat_gt_0 split: if_splits option.splits)
qed

lemma sys_readline_confined:
  assumes run: "sys_readline irq b a1 a2 m = Some (r, m')" and ld: "caller_loaded (kern m)"
    and tp: "tables_private (cr3_reg (vm (kern m))) (vm (kern m))" and irq: "\<And>x. vm (kern (irq x)) = vm (kern x)"
  shows "confined (vm (kern m)) (vm (kern m'))"
proof (cases "m' = m")
  case False
  define n where "n = (ucast a2 :: u32)"
  define I where "I = (\<lambda>s. tables_private (cr3_reg s) s \<and> (\<forall>j < unat n. user_addr (a1 + of_nat j) s))"
  let ?R = "\<lambda>x y. I (vm (kern x)) \<longrightarrow> confined (vm (kern x)) (vm (kern y))"
  obtain i y where n0: "n \<noteq> 0" and ok: "user_buf_ok a1 (ucast n) (kern m) = Some True"
    and lp: "readline_loop irq b (caller_pid (kern m)) a1 n 0 m = Some (i, y)"
    and m': "kern m' = user_store (a1 + ucast i) 0 (kern y)"
    using run False unfolding n_def by (auto simp: sys_readline_def Let_def split: if_splits bind_splits)
  have keep: "I s'" if "confined s s'" "I s" for s s'
    using that confined_private [OF that(1)] confined_user_addr [OF that(1)] by (simp add: I_def)
  have idx: "user_addr (a1 + ucast j) s" if "I s" "unat j < unat n" for j s
    using that(1) [unfolded I_def] that(2) by (metis of_nat_unat)
  have st: "confined (vm k) (vm (user_store (a1 + ucast j) v k))" if "I (vm k)" "unat j < unat n" for j v k
    using that idx [OF that] by (intro user_store_confined) (simp_all add: I_def)
  have n1: "unat (n - 1) = unat n - 1" "0 < unat n"
    using n0 by (simp_all add: unat_minus_one unat_gt_0)
  have "?R m y \<and> i \<le> n - 1"
  proof (rule readline_loop_rel [OF lp])
    show "?R x (irq x)" for x
      using irq confined_refl by simp
    show "?R x z" if "?R x y" "?R y z" for x y z
      using that keep confined_trans by blast
    show "?R x (x\<lparr>kern := user_store (a1 + ucast j) v (kern x)\<rparr>)" if "j < n - 1" for x j v
      using st [of "kern x" j v] that n1 by (auto simp: word_less_nat_alt)
  qed auto
  moreover have "I (vm (kern m))"
    using tp user_buf_ok_addr [OF ok ld] by (simp add: I_def unat_ucast_32_64)
  ultimately have "confined (vm (kern m)) (vm (kern y))" "I (vm (kern y))" "unat i < unat n"
    using keep n1 by (auto simp: word_le_nat_alt)
  then show ?thesis
    unfolding m' using st [of "kern y" i 0] confined_trans by blast
qed auto

lemma sys_getchar_vm:
  assumes "sys_getchar irq m = Some (r, m')" "\<And>x. vm (kern (irq x)) = vm (kern x)"
  shows "vm (kern m') = vm (kern m)"
  using assms wait_key_rel [of irq _ m _ m' "\<lambda>x y. vm (kern y) = vm (kern x)"] by (auto simp: sys_getchar_def)

lemma sys_open_vm: "sys_open a1 m = Some (r, m') \<Longrightarrow> vm (kern m') = vm (kern m)"
  by (auto simp: sys_open_def open_slot_def Let_def split: if_splits option.splits)

lemma other_calls_vm:
  "vm (kern (snd (sys_close a1 m))) = vm (kern m)" "vm (kern (snd (sys_exit a1 m))) = vm (kern m)"
  "vm (kern (snd (sys_sleep a1 m))) = vm (kern m)"
  by (simp_all add: sys_close_def sys_exit_def sys_sleep_def Let_def)


section \<open>A concrete machine\<close>

text \<open>Process 1 runs with one user page at 0x5000 behind every address; descriptor 0 belongs to process 7.\<close>

definition demo_user_space :: vmm_state where
  "demo_user_space = demo_space\<lparr>cr3_reg := 0x1000, pmem := (\<lambda>t i. if t = 0x1000 then 0x2007 else if t = 0x2000 then 0x3007
     else if t = 0x3000 then 0x4007 else if t = 0x4000 then 0x5007 else 0)\<rparr>"

definition demo_fd :: fd_entry where
  "demo_fd = \<lparr>fd_name = replicate 256 NUL, fd_data = replicate 16384 NUL, fd_size = 10, fd_pos = 0, fd_used = True,
     fd_owner_pid = 7\<rparr>"

definition demo_process :: process where
  "demo_process = \<lparr>pid = 1, pstate = PROC_RUNNING, pname = replicate 32 NUL, kernel_rsp = 0, kernel_stack = 0,
     kernel_stack_top = 0, pcr3 = 0x1000, is_user = True, exit_code = 0, detached = False, wait_target = 0,
     wake_tick = 0, user_pages = replicate 256 0, user_page_count = 0\<rparr>"

definition demo_kernel :: kstate where
  "demo_kernel = \<lparr>processes = replicate 16 demo_process, current_process = Some 0, next_pid = 2,
     scheduling_enabled = True, foreground_pid = 1, ticks_remaining = 5, system_ticks = 0, vm = demo_user_space,
     fd_table = replicate 8 demo_fd, tss_rsp0 = 0, kctx = (\<lambda>_. \<lparr>ctx_gprs = [], ctx_rip = 0, ctx_cs = 0, ctx_rflags = 0,
       ctx_rsp = 0, ctx_ss = 0\<rparr>), kernel_stacks = 0x300000, stack_top = 0x200000\<rparr>"

definition demo_machine :: "(unit, unit) machine" where
  "demo_machine = \<lparr>kern = demo_kernel, tty = demo_terminal, kbd = demo_kb, vfs = demo_vfs\<lparr>mount_count := 1\<rparr>, files = ()\<rparr>"

lemma demo_machine_kern [simp]: "kern demo_machine = demo_kernel" "vfs demo_machine = demo_vfs\<lparr>mount_count := 1\<rparr>" "files demo_machine = ()"
  by (simp_all add: demo_machine_def)

lemma demo_kernel_simps [simp]:
  "process_get_current demo_kernel = Some 0" "current_process demo_kernel = Some 0" "processes demo_kernel ! 0 = demo_process"
  "vm demo_kernel = demo_user_space" "fd_table demo_kernel = replicate 8 demo_fd" "cr3_reg demo_user_space = 0x1000"
  by (simp_all add: demo_kernel_def process_get_current_def demo_user_space_def)

lemma demo_walk: "walk_tables 0x1000 v demo_user_space = {0x1000, 0x2000, 0x3000, 0x4000}"
  by (auto simp: walk_tables_def demo_user_space_def PTE_ADDR_MASK_def PTE_PRESENT_def PTE_HUGE_def)

lemma demo_private: "tables_private 0x1000 demo_user_space"
proof -
  have "user_frame 0x1000 v demo_user_space = 0x5000" for v
  proof -
    have "vmm_get_physical_in 0x1000 v demo_user_space = 0x5000 + (v AND 0xFFF)"
      by (simp add: vmm_get_physical_in_def demo_user_space_def PTE_ADDR_MASK_def PTE_PRESENT_def PTE_HUGE_def)
    moreover have "0x5000 + (v AND 0xFFF) = 0x5000 OR (v AND 0xFFF)"
      by (rule disjunctive_add_eq_or) (simp add: and.left_commute)
    moreover have "(0x5000 OR (v AND 0xFFF)) AND NOT 0xFFF = (0x5000 :: u64)"
      by (simp add: bit.conj_disj_distrib2 and.assoc)
    ultimately show ?thesis
      by (simp add: user_frame_def)
  qed
  then show ?thesis
    by (auto simp: tables_private_def user_frames_def demo_walk)
qed

lemma demo_buf_ok: "user_buf_ok 0x6000 16 demo_kernel = Some True"
proof -
  have "vmm_user_page_ok 0x1000 v demo_user_space" for v
    by (simp add: vmm_user_page_ok_def demo_user_space_def PTE_ADDR_MASK_def PTE_PRESENT_def PTE_HUGE_def PTE_USER_def)
  then have "user_range_loop 0x1000 0x6000 0x6010 demo_user_space = Some True"
    by (subst user_range_loop.simps, subst user_range_loop.simps) (simp add: PAGE_SIZE_def)
  then show ?thesis
    by (simp add: user_buf_ok_def demo_process_def vmm_user_range_ok_def PAGE_SIZE_def)
qed


theorem syscall_fd_table_typed_witness:
  "fd_table_ok (kern demo_machine) \<and> reads_bounded (vfs demo_machine) (files demo_machine) \<and>
   syscall_dispatch id null_bus SYS_READ 3 0x6000 16 demo_machine \<noteq> None"
proof -
  have ok: "fd_table_ok (kern demo_machine)"
    by (simp add: fd_table_ok_def fd_ok_def demo_fd_def MAX_FD_def)
  have "\<exists>sub. resolve name (demo_vfs\<lparr>mount_count := 1\<rparr>) = Some (no_ops ''r'', sub)" for name
    by (auto simp: resolve_def resolve_step_def demo_vfs_def c_content_def)
  then have "vfs_read name buf 0 16384 (demo_vfs\<lparr>mount_count := 1\<rparr>) () = Some ((-1, buf, 0), ())" for name buf
    by (metis (no_types, lifting) vfs_read_def no_ops_def option.simps(4,5) prod.simps(2) vfs_ops.select_convs(3))
  then have b: "reads_bounded (vfs demo_machine) (files demo_machine)"
    by (auto simp: reads_bounded_def)
  have "user_buf_ok 0x6000 (ucast (ucast (16 :: u64) :: u32)) (kern demo_machine) \<noteq> None"
    by (simp add: demo_buf_ok)
  then show ?thesis
    using syscall_fd_table_typed [OF ok b, of id null_bus 0 3 "0x6000" 16]
      ok b by simp
qed


end
