(* ===== verification/Fat.thy ===== *)
theory Fat
  imports BlockCache Vfs
begin

text \<open>
  The FAT12/16/32 file system (\<open>kernel/fs/fat.c\<close>) on the cached disk. The static variables of the file are the
  fields of \<open>fat\<close>; a routine takes the port bus and this state and returns its result and the new state. \<open>None\<close> is an
  access outside a buffer, a division by zero or a loop that does not end. On-disk structures are records with their
  byte layout in \<open>read_bpb\<close>, \<open>read_dir_entry\<close> and \<open>dir_entry_bytes\<close>. Names are not null.
\<close>

unbundle bit_operations_syntax

section \<open>Types and state\<close>

definition DIR_ENTRY_SIZE :: nat where "DIR_ENTRY_SIZE = 32"
definition ATTR_DIRECTORY :: u8 where "ATTR_DIRECTORY = 0x10"
definition ATTR_VOLUME_ID :: u8 where "ATTR_VOLUME_ID = 0x08"
definition ATTR_LFN :: u8 where "ATTR_LFN = 0x0F"
definition MAX_DIR_ENTRIES :: nat where "MAX_DIR_ENTRIES = 512"
definition FS_MAX_FILENAME :: nat where "FS_MAX_FILENAME = 256"

datatype fat_type = FAT_TYPE_NONE | FAT_TYPE_12 | FAT_TYPE_16 | FAT_TYPE_32

record fat_bpb =
  jump :: bytes
  oem :: bytes
  bytes_per_sector :: u16
  sectors_per_cluster :: u8
  reserved_sectors :: u16
  fat_count :: u8
  root_entries :: u16
  total16 :: u16
  media :: u8
  fat16_size :: u16
  sectors_per_track :: u16
  heads :: u16
  hidden :: u32
  total32 :: u32

record fat_dir_entry =
  de_name :: bytes
  de_ext :: bytes
  de_attr :: u8
  de_nt_reserved :: u8
  de_create_tenths :: u8
  de_create_time :: u16
  de_create_date :: u16
  de_access_date :: u16
  de_cluster_high :: u16
  de_modify_time :: u16
  de_modify_date :: u16
  de_cluster_low :: u16
  de_size :: u32

record 'd fat =
  bpb :: fat_bpb
  ftype :: fat_type
  total_sectors :: u32
  fat_size :: u32
  root_sectors :: u32
  first_data :: u32
  cluster_count :: u32
  root_cluster :: u32
  current_cluster :: u32
  fsinfo_sector :: u16
  backup_boot_sector :: u16
  mounted_drive :: u8
  cwd :: string
  file_list :: "fs_file_info list"
  dsk :: "'d disk"

definition read_bpb :: "bytes \<Rightarrow> fat_bpb" where
  "read_bpb s = \<lparr>jump = take 3 s, oem = take 8 (drop 3 s), bytes_per_sector = get16 s 11, sectors_per_cluster = get8 s 13,
     reserved_sectors = get16 s 14, fat_count = get8 s 16, root_entries = get16 s 17, total16 = get16 s 19,
     media = get8 s 21, fat16_size = get16 s 22, sectors_per_track = get16 s 24, heads = get16 s 26,
     hidden = get32 s 28, total32 = get32 s 32\<rparr>"

definition read_dir_entry :: "bytes \<Rightarrow> fat_dir_entry" where
  "read_dir_entry s = \<lparr>de_name = take 8 s, de_ext = take 3 (drop 8 s), de_attr = get8 s 11, de_nt_reserved = get8 s 12,
     de_create_tenths = get8 s 13, de_create_time = get16 s 14, de_create_date = get16 s 16, de_access_date = get16 s 18,
     de_cluster_high = get16 s 20, de_modify_time = get16 s 22, de_modify_date = get16 s 24, de_cluster_low = get16 s 26,
     de_size = get32 s 28\<rparr>"

definition dir_entry_bytes :: "fat_dir_entry \<Rightarrow> bytes" where
  "dir_entry_bytes e = put32 28 (de_size e) (put16 26 (de_cluster_low e) (put16 24 (de_modify_date e)
     (put16 22 (de_modify_time e) (put16 20 (de_cluster_high e) (put16 18 (de_access_date e)
     (put16 16 (de_create_date e) (put16 14 (de_create_time e)
     (de_name e @ de_ext e @ [de_attr e, de_nt_reserved e, de_create_tenths e] @ replicate 18 0))))))))"

definition zero_entry :: fat_dir_entry where
  "zero_entry = read_dir_entry (replicate 32 0)"

section \<open>Sectors\<close>

text \<open>\<open>ata_read_sector\<close> and \<open>ata_write_sector\<close> are the cached operations here.\<close>

definition rd_sector :: "'d bus \<Rightarrow> u32 \<Rightarrow> 'd fat \<Rightarrow> (bytes option \<times> 'd fat) option" where
  "rd_sector b lba s = map_option (\<lambda>(r, d). (r, s\<lparr>dsk := d\<rparr>)) (block_cache_read_sector b lba (dsk s))"

definition wr_sector :: "'d bus \<Rightarrow> u32 \<Rightarrow> bytes \<Rightarrow> 'd fat \<Rightarrow> bool \<times> 'd fat" where
  "wr_sector b lba v s = (case block_cache_write_sector b lba v (dsk s) of (ok, d) \<Rightarrow> (ok, s\<lparr>dsk := d\<rparr>))"

section \<open>Clusters\<close>

definition entry_cluster :: "fat_type \<Rightarrow> fat_dir_entry \<Rightarrow> u32" where
  "entry_cluster t e =
     (if t = FAT_TYPE_32 then ucast (de_cluster_low e) OR push_bit 16 (ucast (de_cluster_high e)) else ucast (de_cluster_low e))"

definition set_entry_cluster :: "fat_type \<Rightarrow> u32 \<Rightarrow> fat_dir_entry \<Rightarrow> fat_dir_entry" where
  "set_entry_cluster t c e =
     e\<lparr>de_cluster_low := ucast c, de_cluster_high := (if t = FAT_TYPE_32 then ucast (drop_bit 16 c) else 0)\<rparr>"

definition eoc_value :: "fat_type \<Rightarrow> u32" where
  "eoc_value t = (if t = FAT_TYPE_12 then 0xFFF else if t = FAT_TYPE_16 then 0xFFFF else 0x0FFFFFFF)"

definition is_eoc :: "fat_type \<Rightarrow> u32 \<Rightarrow> bool" where
  "is_eoc t c \<longleftrightarrow> c \<ge> (if t = FAT_TYPE_12 then 0xFF8 else if t = FAT_TYPE_16 then 0xFFF8 else 0x0FFFFFF8)"

definition valid_data_cluster :: "u32 \<Rightarrow> 'd fat \<Rightarrow> bool" where
  "valid_data_cluster c s \<longleftrightarrow> c \<ge> 2 \<and> c < cluster_count s + 2"

definition cluster_sector :: "u32 \<Rightarrow> 'd fat \<Rightarrow> u32" where
  "cluster_sector c s = first_data s + (c - 2) * ucast (sectors_per_cluster (bpb s))"

section \<open>The allocation table\<close>

definition fat_offset :: "fat_type \<Rightarrow> u32 \<Rightarrow> u32" where
  "fat_offset t cluster =
     (if t = FAT_TYPE_12 then cluster + cluster div 2 else if t = FAT_TYPE_16 then cluster * 2 else cluster * 4)"

text \<open>For a FAT12 entry that crosses a sector boundary the code reads the whole next sector into a one-byte variable.\<close>

definition fat_get :: "'d bus \<Rightarrow> u32 \<Rightarrow> 'd fat \<Rightarrow> (u32 \<times> 'd fat) option" where
  "fat_get b cluster s =
     (let offset = fat_offset (ftype s) cluster;
          sector = ucast (reserved_sectors (bpb s)) + offset div 512;
          pos = unat (offset mod 512)
      in case rd_sector b sector s of
           None \<Rightarrow> None
         | Some (None, s1) \<Rightarrow> Some (eoc_value (ftype s), s1)
         | Some (Some sec, s1) \<Rightarrow>
             if ftype s = FAT_TYPE_12 then
               (if pos = 511 then
                  (case rd_sector b (sector + 1) s1 of
                     Some (None, s2) \<Rightarrow> Some (eoc_value (ftype s), s2)
                   | _ \<Rightarrow> None)
                else Some (let v = get16 sec pos in ucast (if bit cluster 0 then drop_bit 4 v else v AND 0xFFF), s1))
             else if ftype s = FAT_TYPE_16 then Some (ucast (get16 sec pos), s1)
             else Some (get32 sec pos AND 0x0FFFFFFF, s1))"

text \<open>\<open>terminal\<close> and \<open>*next\<close>: \<open>None\<close> is the -1, \<open>Some (terminal, next)\<close> the 0.\<close>

definition checked_next :: "'d bus \<Rightarrow> u32 \<Rightarrow> 'd fat \<Rightarrow> ((bool \<times> u32) option \<times> 'd fat) option" where
  "checked_next b c s =
     (if \<not> valid_data_cluster c s then Some (None, s)
      else map_option (\<lambda>(v, s1).
        if is_eoc (ftype s) v then (Some (True, v), s1)
        else if \<not> valid_data_cluster v s1 then (None, s1)
        else (Some (False, v), s1)) (fat_get b c s))"

definition merge12 :: "u32 \<Rightarrow> u32 \<Rightarrow> u16 \<Rightarrow> u16" where
  "merge12 cluster v old =
     (if bit cluster 0 then (old AND 0x000F) OR ucast (push_bit 4 v) else (old AND 0xF000) OR (ucast v AND 0xFFF))"

definition fat_set_copy :: "'d bus \<Rightarrow> u32 \<Rightarrow> u32 \<Rightarrow> u32 \<Rightarrow> 'd fat \<Rightarrow> (bool \<times> 'd fat) option" where
  "fat_set_copy b base cluster v s =
     (let offset = fat_offset (ftype s) cluster;
          sector = base + offset div 512;
          pos = unat (offset mod 512)
      in case rd_sector b sector s of
           None \<Rightarrow> None
         | Some (None, s1) \<Rightarrow> Some (False, s1)
         | Some (Some sec, s1) \<Rightarrow>
             if ftype s = FAT_TYPE_12 then
               (if pos = 511 then
                  (case rd_sector b (sector + 1) s1 of
                     None \<Rightarrow> None
                   | Some (None, s2) \<Rightarrow> Some (False, s2)
                   | Some (Some nxt, s2) \<Rightarrow>
                       (let new = merge12 cluster v (ucast (get8 sec 511) OR push_bit 8 (ucast (get8 nxt 0)));
                            (ok, s3) = wr_sector b (sector + 1) (put8 0 (ucast (drop_bit 8 new)) nxt) s2
                        in if \<not> ok then Some (False, s3) else Some (wr_sector b sector (put8 511 (ucast new) sec) s3)))
                else Some (wr_sector b sector (put16 pos (merge12 cluster v (get16 sec pos)) sec) s1))
             else if ftype s = FAT_TYPE_16 then Some (wr_sector b sector (put16 pos (ucast v) sec) s1)
             else Some (wr_sector b sector (put32 pos ((get32 sec pos AND 0xF0000000) OR (v AND 0x0FFFFFFF)) sec) s1))"

primrec fat_set_loop :: "'d bus \<Rightarrow> u32 \<Rightarrow> u32 \<Rightarrow> nat list \<Rightarrow> 'd fat \<Rightarrow> (bool \<times> 'd fat) option" where
  "fat_set_loop b cluster v [] s = Some (True, s)"
| "fat_set_loop b cluster v (i # is) s =
     (case fat_set_copy b (ucast (reserved_sectors (bpb s)) + of_nat i * fat_size s) cluster v s of
        None \<Rightarrow> None
      | Some (ok, s1) \<Rightarrow> if \<not> ok then Some (False, s1) else fat_set_loop b cluster v is s1)"

definition fat_set :: "'d bus \<Rightarrow> u32 \<Rightarrow> u32 \<Rightarrow> 'd fat \<Rightarrow> (bool \<times> 'd fat) option" where
  "fat_set b cluster v s = fat_set_loop b cluster v [0..<unat (fat_count (bpb s))] s"

definition fsinfo_adjust_sector :: "'d bus \<Rightarrow> u32 \<Rightarrow> int \<Rightarrow> u32 \<Rightarrow> 'd fat \<Rightarrow> 'd fat option" where
  "fsinfo_adjust_sector b sec_no delta next_free s =
     (if ftype s \<noteq> FAT_TYPE_32 \<or> sec_no \<ge> ucast (reserved_sectors (bpb s)) then Some s
      else case rd_sector b sec_no s of
        None \<Rightarrow> None
      | Some (None, s1) \<Rightarrow> Some s1
      | Some (Some d, s1) \<Rightarrow>
          if get32 d 0 \<noteq> 0x41615252 \<or> get32 d 484 \<noteq> 0x61417272 \<or> get32 d 508 \<noteq> 0xAA550000 then Some s1
          else
            (let free_count = get32 d 488;
                 d1 = (if free_count \<noteq> 0xFFFFFFFF then put32 488 (free_count + of_int delta) d else d);
                 d2 = put32 492 (if next_free < cluster_count s + 2 then next_free else 2) d1
             in Some (snd (wr_sector b sec_no d2 s1))))"

definition fsinfo_adjust :: "'d bus \<Rightarrow> int \<Rightarrow> u32 \<Rightarrow> 'd fat \<Rightarrow> 'd fat option" where
  "fsinfo_adjust b delta next_free s =
     (if ftype s \<noteq> FAT_TYPE_32 \<or> fsinfo_sector s = 0 \<or> fsinfo_sector s = 0xFFFF then Some s
      else Option.bind (fsinfo_adjust_sector b (ucast (fsinfo_sector s)) delta next_free s) (\<lambda>s1.
        if backup_boot_sector s \<noteq> 0 \<and> backup_boot_sector s \<noteq> 0xFFFF
        then fsinfo_adjust_sector b (ucast (backup_boot_sector s) + 1) delta next_free s1 else Some s1))"

primrec zero_sectors :: "'d bus \<Rightarrow> u32 \<Rightarrow> nat list \<Rightarrow> 'd fat \<Rightarrow> bool \<times> 'd fat" where
  "zero_sectors b base [] s = (True, s)"
| "zero_sectors b base (i # is) s =
     (case wr_sector b (base + of_nat i) (replicate 512 0) s of (ok, s1) \<Rightarrow>
        if \<not> ok then (False, s1) else zero_sectors b base is s1)"

text \<open>The claim of a free cluster \<open>c\<close> inside the search loop of \<open>alloc_cluster\<close>.\<close>

definition claim_cluster :: "'d bus \<Rightarrow> u32 \<Rightarrow> 'd fat \<Rightarrow> (u32 \<times> 'd fat) option" where
  "claim_cluster b c s =
     (case fat_set b c (eoc_value (ftype s)) s of
        None \<Rightarrow> None
      | Some (ok, s1) \<Rightarrow>
          if \<not> ok then Some (0, s1)
          else
            (let (ok2, s2) = zero_sectors b (cluster_sector c s1) [0..<unat (sectors_per_cluster (bpb s))] s1
             in if \<not> ok2 then Some (0, s2) else map_option (\<lambda>s3. (c, s3)) (fsinfo_adjust b (-1) (c + 1) s2)))"

function alloc_loop :: "'d bus \<Rightarrow> u32 \<Rightarrow> u32 \<Rightarrow> 'd fat \<Rightarrow> (u32 \<times> 'd fat) option" where
  "alloc_loop b limit c s =
     (if c < limit then
        (case fat_get b c s of
           None \<Rightarrow> None
         | Some (v, s1) \<Rightarrow> if v = 0 then claim_cluster b c s1 else alloc_loop b limit (c + 1) s1)
      else Some (0, s))"
  by pat_completeness auto
termination
  by (relation "measure (\<lambda>(b, limit, c, s). unat limit - unat c)") (auto simp: unat_inc_less word_less_nat_alt)

declare alloc_loop.simps [simp del]

definition alloc_cluster :: "'d bus \<Rightarrow> 'd fat \<Rightarrow> (u32 \<times> 'd fat) option" where
  "alloc_cluster b s = alloc_loop b (cluster_count s + 2) 2 s"

partial_function (option) free_chain :: "'d bus \<Rightarrow> u32 \<Rightarrow> 'd fat \<Rightarrow> 'd fat option" where
  "free_chain b c s =
     (if c \<ge> 2 \<and> c < cluster_count s + 2 then
        Option.bind (fat_get b c s) (\<lambda>(nxt, s1).
        Option.bind (fat_set b c 0 s1) (\<lambda>(ok, s2).
        Option.bind (fsinfo_adjust b 1 c s2) (\<lambda>s3.
          if is_eoc (ftype s) nxt \<or> nxt < 2 then Some s3 else free_chain b nxt s3)))
      else Some s)"

section \<open>Directories\<close>

text \<open>\<open>while (skip--)\<close>: \<open>None\<close> as first component is the -1.\<close>

primrec skip_clusters :: "'d bus \<Rightarrow> nat \<Rightarrow> u32 \<Rightarrow> 'd fat \<Rightarrow> (u32 option \<times> 'd fat) option" where
  "skip_clusters b 0 c s = Some (Some c, s)"
| "skip_clusters b (Suc n) c s =
     (case fat_get b c s of
        None \<Rightarrow> None
      | Some (c1, s1) \<Rightarrow> if is_eoc (ftype s) c1 \<or> c1 < 2 then Some (None, s1) else skip_clusters b n c1 s1)"

definition dir_location :: "'d bus \<Rightarrow> u32 \<Rightarrow> nat \<Rightarrow> 'd fat \<Rightarrow> ((u32 \<times> nat) option \<times> 'd fat) option" where
  "dir_location b dir index s =
     (if dir = 0 \<and> ftype s \<noteq> FAT_TYPE_32 then
        (if (of_nat index :: u32) \<ge> ucast (root_entries (bpb s)) then Some (None, s)
         else Some (Some (ucast (reserved_sectors (bpb s)) + ucast (fat_count (bpb s)) * fat_size s + of_nat index div 16,
                          index mod 16 * DIR_ENTRY_SIZE), s))
      else
        (let c = (if dir \<noteq> 0 then dir else root_cluster s);
             per_cluster = unat (sectors_per_cluster (bpb s)) * 16
         in if per_cluster = 0 then None
            else map_option (\<lambda>(r, s1). (map_option (\<lambda>c. (let within = index mod per_cluster
                     in (cluster_sector c s1 + of_nat (within div 16), within mod 16 * DIR_ENTRY_SIZE))) r, s1))
                   (skip_clusters b (index div per_cluster) c s)))"

definition dir_read :: "'d bus \<Rightarrow> u32 \<Rightarrow> nat \<Rightarrow> 'd fat \<Rightarrow> (fat_dir_entry option \<times> 'd fat) option" where
  "dir_read b dir index s =
     (case dir_location b dir index s of
        None \<Rightarrow> None
      | Some (None, s1) \<Rightarrow> Some (None, s1)
      | Some (Some (sec_no, off), s1) \<Rightarrow>
          map_option (\<lambda>(r, s2). (map_option (\<lambda>sec. read_dir_entry (take 32 (drop off sec))) r, s2)) (rd_sector b sec_no s1))"

definition dir_write :: "'d bus \<Rightarrow> u32 \<Rightarrow> nat \<Rightarrow> fat_dir_entry \<Rightarrow> 'd fat \<Rightarrow> (bool \<times> 'd fat) option" where
  "dir_write b dir index e s =
     (case dir_location b dir index s of
        None \<Rightarrow> None
      | Some (None, s1) \<Rightarrow> Some (False, s1)
      | Some (Some (sec_no, off), s1) \<Rightarrow>
          (case rd_sector b sec_no s1 of
             None \<Rightarrow> None
           | Some (None, s2) \<Rightarrow> Some (False, s2)
           | Some (Some sec, s2) \<Rightarrow> Some (wr_sector b sec_no (put_bytes off (dir_entry_bytes e) sec) s2)))"

definition sfn_char :: "char \<Rightarrow> u8" where
  "sfn_char c = (let v = of_char c :: u8 in if 97 \<le> v \<and> v \<le> 122 then v - 32 else v)"

definition pad :: "nat \<Rightarrow> bytes \<Rightarrow> bytes" where
  "pad n bs = bs @ replicate (n - length bs) 32"

definition make_sfn :: "string \<Rightarrow> bytes" where
  "make_sfn input =
     pad 8 (map sfn_char (take 8 (takeWhile (\<lambda>c. c \<noteq> CHR ''.'') input)))
     @ pad 3 (map sfn_char (take 3 (drop 1 (dropWhile (\<lambda>c. c \<noteq> CHR ''.'') input))))"

definition name_match :: "fat_dir_entry \<Rightarrow> string \<Rightarrow> bool" where
  "name_match e name \<longleftrightarrow> de_name e = take 8 (make_sfn name) \<and> de_ext e = drop 8 (make_sfn name)"

definition first_byte :: "fat_dir_entry \<Rightarrow> u8" where
  "first_byte e = get8 (de_name e) 0"

text \<open>Entries that a search passes over: deleted, long name, volume label.\<close>

definition hidden_entry :: "fat_dir_entry \<Rightarrow> bool" where
  "hidden_entry e \<longleftrightarrow> first_byte e = 0xE5 \<or> de_attr e = ATTR_LFN \<or> de_attr e AND ATTR_VOLUME_ID \<noteq> 0"

primrec find_entry_loop ::
    "'d bus \<Rightarrow> u32 \<Rightarrow> string \<Rightarrow> nat list \<Rightarrow> 'd fat \<Rightarrow> ((fat_dir_entry \<times> nat) option \<times> 'd fat) option" where
  "find_entry_loop b dir name [] s = Some (None, s)"
| "find_entry_loop b dir name (i # is) s =
     (case dir_read b dir i s of
        None \<Rightarrow> None
      | Some (None, s1) \<Rightarrow> Some (None, s1)
      | Some (Some e, s1) \<Rightarrow>
          if first_byte e = 0 then Some (None, s1)
          else if hidden_entry e then find_entry_loop b dir name is s1
          else if name_match e name then Some (Some (e, i), s1)
          else find_entry_loop b dir name is s1)"

definition find_entry :: "'d bus \<Rightarrow> u32 \<Rightarrow> string \<Rightarrow> 'd fat \<Rightarrow> ((fat_dir_entry \<times> nat) option \<times> 'd fat) option" where
  "find_entry b dir name s = find_entry_loop b dir name [0..<MAX_DIR_ENTRIES] s"

text \<open>\<open>while (1)\<close> of \<open>free_entry_index\<close>: the last cluster of a chain, or \<open>None\<close> for the -1.\<close>

partial_function (option) last_cluster :: "'d bus \<Rightarrow> u32 \<Rightarrow> 'd fat \<Rightarrow> (u32 option \<times> 'd fat) option" where
  "last_cluster b c s =
     Option.bind (fat_get b c s) (\<lambda>(nxt, s1).
       if is_eoc (ftype s) nxt then Some (Some c, s1)
       else if nxt < 2 then Some (None, s1)
       else last_cluster b nxt s1)"

text \<open>Growing the directory by one cluster when its chain ends at index \<open>i\<close>.\<close>

definition grow_dir :: "'d bus \<Rightarrow> u32 \<Rightarrow> nat \<Rightarrow> 'd fat \<Rightarrow> (nat option \<times> 'd fat) option" where
  "grow_dir b dir i s =
     (if dir = 0 \<and> ftype s \<noteq> FAT_TYPE_32 then Some (None, s)
      else case last_cluster b (if dir \<noteq> 0 then dir else root_cluster s) s of
        None \<Rightarrow> None
      | Some (None, s1) \<Rightarrow> Some (None, s1)
      | Some (Some c, s1) \<Rightarrow>
          (case alloc_cluster b s1 of
             None \<Rightarrow> None
           | Some (added, s2) \<Rightarrow>
               if added = 0 then Some (None, s2)
               else map_option (\<lambda>(ok, s3). (if ok then Some i else None, s3)) (fat_set b c added s2)))"

primrec free_entry_loop :: "'d bus \<Rightarrow> u32 \<Rightarrow> nat list \<Rightarrow> 'd fat \<Rightarrow> (nat option \<times> 'd fat) option" where
  "free_entry_loop b dir [] s = Some (None, s)"
| "free_entry_loop b dir (i # is) s =
     (case dir_read b dir i s of
        None \<Rightarrow> None
      | Some (None, s1) \<Rightarrow> grow_dir b dir i s1
      | Some (Some e, s1) \<Rightarrow>
          if first_byte e = 0 \<or> first_byte e = 0xE5 then Some (Some i, s1) else free_entry_loop b dir is s1)"

definition free_entry_index :: "'d bus \<Rightarrow> u32 \<Rightarrow> 'd fat \<Rightarrow> (nat option \<times> 'd fat) option" where
  "free_entry_index b dir s = free_entry_loop b dir [0..<MAX_DIR_ENTRIES] s"

section \<open>Mounting\<close>

text \<open>The fields of the boot sector, in the order the code stores them.\<close>

definition mount_geometry :: "bytes \<Rightarrow> 'd fat \<Rightarrow> 'd fat" where
  "mount_geometry sec s =
     (let p = bpb s;
          total = (if total16 p \<noteq> 0 then ucast (total16 p) else total32 p);
          fsz = (if fat16_size p \<noteq> 0 then ucast (fat16_size p) else get32 sec 36);
          roots = (ucast (root_entries p) * 32 + 511) div 512
      in s\<lparr>total_sectors := total, fat_size := fsz, root_sectors := roots,
           first_data := ucast (reserved_sectors p) + ucast (fat_count p) * fsz + roots\<rparr>)"

definition mount_type :: "bytes \<Rightarrow> 'd fat \<Rightarrow> 'd fat" where
  "mount_type sec s =
     (let cc = (total_sectors s - first_data s) div ucast (sectors_per_cluster (bpb s));
          t = (if cc < 4085 then FAT_TYPE_12 else if cc < 65525 then FAT_TYPE_16 else FAT_TYPE_32)
      in s\<lparr>cluster_count := cc, ftype := t,
           root_cluster := (if t = FAT_TYPE_32 then get32 sec 44 AND 0x0FFFFFFF else 0),
           fsinfo_sector := (if t = FAT_TYPE_32 then get16 sec 48 else 0),
           backup_boot_sector := (if t = FAT_TYPE_32 then get16 sec 50 else 0)\<rparr>)"

definition mount_finish :: "bool \<Rightarrow> 'd fat \<Rightarrow> 'd fat" where
  "mount_finish drive s =
     s\<lparr>current_cluster := (if ftype s = FAT_TYPE_32 then root_cluster s else 0), mounted_drive := (if drive then 1 else 0),
       cwd := (cwd s)[0 := CHR ''/'', 1 := NUL]\<rparr>"

definition mount_drive :: "'d bus \<Rightarrow> bool \<Rightarrow> 'd fat \<Rightarrow> (bool \<times> 'd fat) option" where
  "mount_drive b drive s =
     (case rd_sector b 0 (s\<lparr>dsk := (dsk s)\<lparr>ata := ata_select_drive drive (ata (dsk s))\<rparr>\<rparr>) of
        None \<Rightarrow> None
      | Some (None, s1) \<Rightarrow> Some (False, s1)
      | Some (Some sec, s1) \<Rightarrow>
          if get8 sec 510 \<noteq> 0x55 \<or> get8 sec 511 \<noteq> 0xAA then Some (False, s1)
          else
            (let s2 = s1\<lparr>bpb := read_bpb sec\<rparr>; p = bpb s2
             in if bytes_per_sector p \<noteq> 512 \<or> sectors_per_cluster p = 0 \<or> fat_count p = 0 \<or> reserved_sectors p = 0
                then Some (False, s2)
                else
                  (let s3 = mount_geometry sec s2
                   in if fat_size s3 = 0 \<or> total_sectors s3 \<le> first_data s3 then Some (False, s3)
                      else
                        (let s4 = mount_type sec s3
                         in if ftype s4 = FAT_TYPE_32 \<and> root_cluster s4 < 2 then Some (False, s4)
                            else Some (True, mount_finish drive s4)))))"

definition fat_log :: "'d bus \<Rightarrow> string \<Rightarrow> 'd fat \<Rightarrow> 'd fat option" where
  "fat_log b msg s = map_option (\<lambda>t. s\<lparr>dsk := (dsk s)\<lparr>con := t\<rparr>\<rparr>) (klog_info b msg (con (dsk s)))"

definition fat_init :: "'d bus \<Rightarrow> 'd fat \<Rightarrow> 'd fat option" where
  "fat_init b s0 =
     (let s = s0\<lparr>ftype := FAT_TYPE_NONE\<rparr>;
          announce = (\<lambda>s. if ftype s = FAT_TYPE_12 then fat_log b ''FAT12 filesystem initialized'' s
            else if ftype s = FAT_TYPE_16 then fat_log b ''FAT16 filesystem initialized'' s
            else fat_log b ''FAT32 filesystem initialized'' s)
      in if \<not> ata_is_available (ata (dsk s)) then Some s
         else Option.bind (mount_drive b False s) (\<lambda>(ok, s1).
           if ok then announce s1
           else Option.bind (mount_drive b True s1) (\<lambda>(ok, s2).
             if ok then announce s2
             else Some (s2\<lparr>dsk := (dsk s2)\<lparr>ata := ata_select_drive False (ata (dsk s2))\<rparr>, ftype := FAT_TYPE_NONE\<rparr>))))"

definition fat_available :: "'d fat \<Rightarrow> bool" where
  "fat_available s \<longleftrightarrow> ftype s \<noteq> FAT_TYPE_NONE"

definition fat_get_type :: "'d fat \<Rightarrow> fat_type" where
  "fat_get_type s = ftype s"

section \<open>Files\<close>

definition to_chars :: "bytes \<Rightarrow> string" where
  "to_chars bs = map (\<lambda>v. char_of (unat v)) bs"

definition c_status :: "bool \<Rightarrow> int" where
  "c_status ok = (if ok then 0 else -1)"

definition sector_part :: "u32 \<Rightarrow> u32 \<Rightarrow> u32" where
  "sector_part sz got = (let n = sz - got in if n > 512 then 512 else n)"

text \<open>The sectors of one cluster into the buffer: whether all reads worked, the buffer and \<open>done\<close>.\<close>

primrec read_sectors ::
    "'d bus \<Rightarrow> u32 \<Rightarrow> u32 \<Rightarrow> nat list \<Rightarrow> string \<Rightarrow> u32 \<Rightarrow> 'd fat \<Rightarrow> ((bool \<times> string \<times> u32) \<times> 'd fat) option" where
  "read_sectors b esize base [] buffer got s = Some ((True, buffer, got), s)"
| "read_sectors b esize base (i # is) buffer got s =
     (if got < esize then
        (case rd_sector b (base + of_nat i) s of
           None \<Rightarrow> None
         | Some (None, s1) \<Rightarrow> Some ((False, buffer, got), s1)
         | Some (Some sec, s1) \<Rightarrow>
             (let n = sector_part esize got
              in if unat got + unat n > length buffer then None
                 else read_sectors b esize base is
                        (take (unat got) buffer @ to_chars (take (unat n) sec) @ drop (unat got + unat n) buffer)
                        (got + n) s1))
      else Some ((True, buffer, got), s))"

text \<open>The main loop of \<open>fat_read\<close> with its cycle detection. \<open>sz\<close> is what \<open>*size\<close> keeps when a sector cannot be read.\<close>

partial_function (option) read_loop ::
    "'d bus \<Rightarrow> u32 \<Rightarrow> u32 \<Rightarrow> u32 \<Rightarrow> u32 \<Rightarrow> u32 \<Rightarrow> u32 \<Rightarrow> u32 \<Rightarrow> string \<Rightarrow> 'd fat \<Rightarrow> ((int \<times> string \<times> u32) \<times> 'd fat) option" where
  "read_loop b esize sz c got anchor pow len buffer s =
     (if got < esize then
        (if \<not> valid_data_cluster c s then Some ((-1, buffer, got), s)
         else
           Option.bind (read_sectors b esize (cluster_sector c s) [0..<unat (sectors_per_cluster (bpb s))] buffer got s)
             (\<lambda>((ok, buffer1, done1), s1).
                if \<not> ok then Some ((-1, buffer1, sz), s1)
                else if done1 < esize then
                  Option.bind (checked_next b c s1) (\<lambda>(r, s2).
                    case r of
                      None \<Rightarrow> Some ((-1, buffer1, done1), s2)
                    | Some (terminal, nxt) \<Rightarrow>
                        if terminal then Some ((-1, buffer1, done1), s2)
                        else if nxt = anchor then Some ((-1, buffer1, done1), s2)
                        else if len + 1 = pow then read_loop b esize sz nxt done1 nxt (push_bit 1 pow) 0 buffer1 s2
                        else read_loop b esize sz nxt done1 anchor pow (len + 1) buffer1 s2)
                else read_loop b esize sz c done1 anchor pow len buffer1 s1))
      else Some ((c_status (got = esize), buffer, got), s))"

definition fat_read ::
    "'d bus \<Rightarrow> string \<Rightarrow> string \<Rightarrow> u32 \<Rightarrow> u32 \<Rightarrow> 'd fat \<Rightarrow> ((int \<times> string \<times> u32) \<times> 'd fat) option" where
  "fat_read b name buffer sz max_size s =
     (if \<not> fat_available s then Some ((-1, buffer, sz), s)
      else case find_entry b (current_cluster s) name s of
        None \<Rightarrow> None
      | Some (None, s1) \<Rightarrow> Some ((-1, buffer, sz), s1)
      | Some (Some (e, i), s1) \<Rightarrow>
          if de_attr e AND ATTR_DIRECTORY \<noteq> 0 then Some ((-1, buffer, sz), s1)
          else if de_size e > max_size then Some ((-1, buffer, de_size e), s1)
          else (let c = entry_cluster (ftype s1) e in read_loop b (de_size e) sz c 0 c 1 0 buffer s1))"

primrec write_sectors ::
    "'d bus \<Rightarrow> string \<Rightarrow> u32 \<Rightarrow> u32 \<Rightarrow> nat list \<Rightarrow> u32 \<Rightarrow> 'd fat \<Rightarrow> ((bool \<times> u32) \<times> 'd fat) option" where
  "write_sectors b src sz base [] written s = Some ((True, written), s)"
| "write_sectors b src sz base (i # is) written s =
     (if written < sz then
        (let n = sector_part sz written
         in if unat written + unat n > length src then None
            else
              (let chunk = map of_char (take (unat n) (drop (unat written) src));
                   (ok, s1) = wr_sector b (base + of_nat i) (chunk @ replicate (512 - unat n) 0) s
               in if \<not> ok then Some ((False, written), s1) else write_sectors b src sz base is (written + n) s1))
      else Some ((True, written), s))"

text \<open>The allocation loop of \<open>fat_create\<close>: the first cluster, or \<open>None\<close> when it failed and freed what it had.\<close>

partial_function (option) create_loop ::
    "'d bus \<Rightarrow> string \<Rightarrow> u32 \<Rightarrow> u32 \<Rightarrow> u32 \<Rightarrow> u32 \<Rightarrow> 'd fat \<Rightarrow> (u32 option \<times> 'd fat) option" where
  "create_loop b src sz first prev written s =
     (if written < sz \<or> (sz = 0 \<and> first = 0) then
        Option.bind (alloc_cluster b s) (\<lambda>(c, s1).
          if c = 0 then map_option (\<lambda>s2. (None, s2)) (free_chain b first s1)
          else
            (let first1 = (if first = 0 then c else first)
             in Option.bind (if prev \<noteq> 0 then fat_set b prev c s1 else Some (True, s1)) (\<lambda>(linked, s2).
                  if \<not> linked then map_option (\<lambda>s3. (None, s3)) (free_chain b first1 s2)
                  else Option.bind (write_sectors b src sz (cluster_sector c s2) [0..<unat (sectors_per_cluster (bpb s2))]
                                      written s2) (\<lambda>((ok, written1), s3).
                    if \<not> ok then map_option (\<lambda>s4. (None, s4)) (free_chain b first1 s3)
                    else create_loop b src sz first1 c written1 s3))))
      else Some (Some first, s))"

text \<open>The entry to fill and its index: the old one with its chain freed, or a new one.\<close>

definition create_entry :: "'d bus \<Rightarrow> string \<Rightarrow> 'd fat \<Rightarrow> ((fat_dir_entry \<times> nat) option \<times> 'd fat) option" where
  "create_entry b name s =
     (case find_entry b (current_cluster s) name s of
        None \<Rightarrow> None
      | Some (Some (e, index), s1) \<Rightarrow>
          if de_attr e AND ATTR_DIRECTORY \<noteq> 0 then Some (None, s1)
          else map_option (\<lambda>s2. (Some (e, index), s2)) (free_chain b (entry_cluster (ftype s1) e) s1)
      | Some (None, s1) \<Rightarrow>
          map_option (\<lambda>(i, s2). (map_option (\<lambda>index. (zero_entry\<lparr>de_name := take 8 (make_sfn name),
                de_ext := drop 8 (make_sfn name), de_attr := 0x20\<rparr>, index)) i, s2))
            (free_entry_index b (current_cluster s1) s1))"

definition fat_create :: "'d bus \<Rightarrow> string \<Rightarrow> string \<Rightarrow> u32 \<Rightarrow> 'd fat \<Rightarrow> (int \<times> 'd fat) option" where
  "fat_create b name src sz s =
     (if \<not> fat_available s \<or> name = [] then Some (-1, s)
      else case create_entry b name s of
        None \<Rightarrow> None
      | Some (None, s1) \<Rightarrow> Some (-1, s1)
      | Some (Some (e, index), s1) \<Rightarrow>
          (case create_loop b src sz 0 0 0 s1 of
             None \<Rightarrow> None
           | Some (None, s2) \<Rightarrow> Some (-1, s2)
           | Some (Some first, s2) \<Rightarrow>
               map_option (\<lambda>(ok, s3). (c_status ok, s3))
                 (dir_write b (current_cluster s2) index ((set_entry_cluster (ftype s2) first e)\<lparr>de_size := sz\<rparr>) s2)))"

definition mark_deleted :: "fat_dir_entry \<Rightarrow> fat_dir_entry" where
  "mark_deleted e = e\<lparr>de_name := (de_name e)[0 := 0xE5]\<rparr>"

definition fat_delete :: "'d bus \<Rightarrow> string \<Rightarrow> 'd fat \<Rightarrow> (int \<times> 'd fat) option" where
  "fat_delete b name s =
     (case find_entry b (current_cluster s) name s of
        None \<Rightarrow> None
      | Some (None, s1) \<Rightarrow> Some (-1, s1)
      | Some (Some (e, i), s1) \<Rightarrow>
          if de_attr e AND ATTR_DIRECTORY \<noteq> 0 then Some (-1, s1)
          else Option.bind (free_chain b (entry_cluster (ftype s1) e) s1) (\<lambda>s2.
                 map_option (\<lambda>(ok, s3). (c_status ok, s3)) (dir_write b (current_cluster s2) i (mark_deleted e) s2)))"

definition list_info :: "fat_dir_entry \<Rightarrow> fs_file_info" where
  "list_info e =
     (let base = takeWhile (\<lambda>v. v \<noteq> 32) (de_name e);
          ext = (if de_attr e AND ATTR_DIRECTORY = 0 \<and> get8 (de_ext e) 0 \<noteq> 32 then 46 # takeWhile (\<lambda>v. v \<noteq> 32) (de_ext e) else [])
      in \<lparr>fi_name = to_chars (base @ ext) @ replicate (FS_MAX_FILENAME - length (base @ ext)) NUL, fi_size = de_size e,
          fi_used = True, fi_is_directory = (de_attr e AND ATTR_DIRECTORY \<noteq> 0)\<rparr>)"

primrec list_loop :: "'d bus \<Rightarrow> nat list \<Rightarrow> nat \<Rightarrow> 'd fat \<Rightarrow> (nat \<times> 'd fat) option" where
  "list_loop b [] count s = Some (count, s)"
| "list_loop b (i # is) count s =
     (case dir_read b (current_cluster s) i s of
        None \<Rightarrow> None
      | Some (None, s1) \<Rightarrow> Some (count, s1)
      | Some (Some e, s1) \<Rightarrow>
          if first_byte e = 0 then Some (count, s1)
          else if hidden_entry e then list_loop b is count s1
          else if count \<ge> length (file_list s1) then None
          else list_loop b is (count + 1) (s1\<lparr>file_list := (file_list s1)[count := list_info e]\<rparr>))"

definition fat_list :: "'d bus \<Rightarrow> 'd fat \<Rightarrow> ((int \<times> fs_file_info list \<times> int) \<times> 'd fat) option" where
  "fat_list b s =
     map_option (\<lambda>(count, s1). ((0, file_list s1, int count), s1)) (list_loop b [0..<MAX_DIR_ENTRIES] 0 s)"

definition dot_entry :: "fat_type \<Rightarrow> bytes \<Rightarrow> u32 \<Rightarrow> fat_dir_entry" where
  "dot_entry t nm c = set_entry_cluster t c (zero_entry\<lparr>de_name := pad 8 nm, de_ext := pad 3 [], de_attr := ATTR_DIRECTORY\<rparr>)"

definition fat_mkdir :: "'d bus \<Rightarrow> string \<Rightarrow> 'd fat \<Rightarrow> (int \<times> 'd fat) option" where
  "fat_mkdir b name s =
     (if name = [] then Some (-1, s)
      else Option.bind (find_entry b (current_cluster s) name s) (\<lambda>(found, s1).
        if found \<noteq> None then Some (-1, s1)
        else Option.bind (free_entry_index b (current_cluster s1) s1) (\<lambda>(index, s2).
          Option.bind (alloc_cluster b s2) (\<lambda>(c, s3).
            case index of
              None \<Rightarrow> Some (-1, s3)
            | Some i \<Rightarrow>
                if c = 0 then Some (-1, s3)
                else
                  (let e = set_entry_cluster (ftype s3) c (zero_entry\<lparr>de_name := take 8 (make_sfn name),
                             de_ext := drop 8 (make_sfn name), de_attr := ATTR_DIRECTORY\<rparr>);
                       parent = (if current_cluster s3 = root_cluster s3 then 0 else current_cluster s3)
                   in Option.bind (dir_write b c 0 (dot_entry (ftype s3) [46] c) s3) (\<lambda>(ok0, s4).
                      Option.bind (dir_write b c 1 (dot_entry (ftype s3) [46, 46] parent) s4) (\<lambda>(ok1, s5).
                        map_option (\<lambda>(ok, s6). (c_status ok, s6)) (dir_write b (current_cluster s5) i e s5))))))))"

primrec dir_empty_loop :: "'d bus \<Rightarrow> u32 \<Rightarrow> nat list \<Rightarrow> 'd fat \<Rightarrow> (bool \<times> 'd fat) option" where
  "dir_empty_loop b c [] s = Some (True, s)"
| "dir_empty_loop b c (j # js) s =
     (case dir_read b c j s of
        None \<Rightarrow> None
      | Some (None, s1) \<Rightarrow> Some (True, s1)
      | Some (Some x, s1) \<Rightarrow>
          if first_byte x = 0 then Some (True, s1)
          else if first_byte x \<noteq> 0xE5 then Some (False, s1) else dir_empty_loop b c js s1)"

definition fat_rmdir :: "'d bus \<Rightarrow> string \<Rightarrow> 'd fat \<Rightarrow> (int \<times> 'd fat) option" where
  "fat_rmdir b name s =
     Option.bind (find_entry b (current_cluster s) name s) (\<lambda>(found, s1).
       case found of
         None \<Rightarrow> Some (-1, s1)
       | Some (e, i) \<Rightarrow>
           if de_attr e AND ATTR_DIRECTORY = 0 then Some (-1, s1)
           else
             (let c = entry_cluster (ftype s1) e
              in Option.bind (dir_empty_loop b c [2..<MAX_DIR_ENTRIES] s1) (\<lambda>(empty, s2).
                   if \<not> empty then Some (-1, s2)
                   else Option.bind (free_chain b c s2) (\<lambda>s3.
                     map_option (\<lambda>(ok, s4). (c_status ok, s4)) (dir_write b (current_cluster s3) i (mark_deleted e) s3)))))"

text \<open>\<open>while (n > 1 && P(cwd[n-1])) cwd[--n] = 0;\<close>\<close>

fun trim_path :: "(char \<Rightarrow> bool) \<Rightarrow> nat \<Rightarrow> string \<Rightarrow> nat \<times> string" where
  "trim_path P (Suc (Suc n)) buf = (if P (buf ! Suc n) then trim_path P (Suc n) (buf[Suc n := NUL]) else (Suc (Suc n), buf))"
| "trim_path P n buf = (n, buf)"

definition store_char :: "nat \<Rightarrow> char \<Rightarrow> string \<Rightarrow> string option" where
  "store_char i c buf = (if i < length buf then Some (buf[i := c]) else None)"

text \<open>\<open>for (i = 0; name[i] && n < FS_MAX_FILENAME - 1; i++) cwd[n++] = name[i]; cwd[n] = 0;\<close>\<close>

fun append_path :: "string \<Rightarrow> nat \<Rightarrow> string \<Rightarrow> string option" where
  "append_path [] n buf = store_char n NUL buf"
| "append_path (c # cs) n buf =
     (if n < FS_MAX_FILENAME - 1 then Option.bind (store_char n c buf) (append_path cs (n + 1)) else store_char n NUL buf)"

definition chdir_up :: "'d bus \<Rightarrow> 'd fat \<Rightarrow> (int \<times> 'd fat) option" where
  "chdir_up b s =
     (if (ftype s \<noteq> FAT_TYPE_32 \<and> current_cluster s = 0) \<or> (ftype s = FAT_TYPE_32 \<and> current_cluster s = root_cluster s)
      then Some (0, s)
      else Option.bind (dir_read b (current_cluster s) 1 s) (\<lambda>(r, s1).
        case r of
          None \<Rightarrow> Some (-1, s1)
        | Some e \<Rightarrow>
            (let p = entry_cluster (ftype s1) e;
                 cur = (if p \<noteq> 0 then p else if ftype s1 = FAT_TYPE_32 then root_cluster s1 else 0);
                 (n, buf) = trim_path (\<lambda>c. c = CHR ''/'') (length (c_content (cwd s1))) (cwd s1)
             in Some (0, s1\<lparr>current_cluster := cur, cwd := snd (trim_path (\<lambda>c. c \<noteq> CHR ''/'') n buf)\<rparr>))))"

definition fat_chdir :: "'d bus \<Rightarrow> string \<Rightarrow> 'd fat \<Rightarrow> (int \<times> 'd fat) option" where
  "fat_chdir b name s =
     (if name = [] \<or> name = ''/'' then
        Some (0, s\<lparr>current_cluster := (if ftype s = FAT_TYPE_32 then root_cluster s else 0), cwd := (cwd s)[0 := CHR ''/'', 1 := NUL]\<rparr>)
      else if name = ''..'' then chdir_up b s
      else Option.bind (find_entry b (current_cluster s) name s) (\<lambda>(found, s1).
        case found of
          None \<Rightarrow> Some (-1, s1)
        | Some (e, i) \<Rightarrow>
            if de_attr e AND ATTR_DIRECTORY = 0 then Some (-1, s1)
            else
              (let n = length (c_content (cwd s1)) in
               Option.bind (if n > 1 \<and> cwd s1 ! (n - 1) \<noteq> CHR ''/'' then map_option (\<lambda>buf. (n + 1, buf)) (store_char n (CHR ''/'') (cwd s1))
                            else Some (n, cwd s1)) (\<lambda>(n1, buf).
                 map_option (\<lambda>buf1. (0, s1\<lparr>current_cluster := entry_cluster (ftype s1) e, cwd := buf1\<rparr>)) (append_path name n1 buf)))))"

definition fat_getcwd :: "'d fat \<Rightarrow> string" where
  "fat_getcwd s = c_content (cwd s)"

function free_loop :: "'d bus \<Rightarrow> u32 \<Rightarrow> u32 \<Rightarrow> u32 \<Rightarrow> 'd fat \<Rightarrow> (u32 \<times> 'd fat) option" where
  "free_loop b limit c free s =
     (if c < limit then
        (case fat_get b c s of
           None \<Rightarrow> None
         | Some (v, s1) \<Rightarrow> free_loop b limit (c + 1) (if v = 0 then free + 1 else free) s1)
      else Some (free, s))"
  by pat_completeness auto
termination
  by (relation "measure (\<lambda>(b, limit, c, free, s). unat limit - unat c)") (auto simp: unat_inc_less word_less_nat_alt)

declare free_loop.simps [simp del]

definition fat_get_disk_info :: "'d bus \<Rightarrow> 'd fat \<Rightarrow> ((u32 \<times> u32 \<times> u32) \<times> 'd fat) option" where
  "fat_get_disk_info b s =
     map_option (\<lambda>(free, s1).
       let csize = ucast (sectors_per_cluster (bpb s1)) * 512;
           total_kb = cluster_count s1 * csize div 1024;
           free_kb = free * csize div 1024
       in ((total_kb, total_kb - free_kb, free_kb), s1)) (free_loop b (cluster_count s + 2) 2 0 s)"

end
