(* ===== verification/FatTable.thy ===== *)
theory FatTable
  imports Fat
begin

text \<open>
  The file allocation table as a map from clusters to values. The table is seen as an array of bytes that runs over
  the sectors of a copy; \<open>fat_val\<close> decodes an entry and \<open>set_bytes\<close> stores one, for all three widths. Over a drive that is
  always ready, \<open>fat_get\<close> and \<open>fat_set\<close> are lookup and update of this map, and change nothing else on the disk.
\<close>

unbundle bit_operations_syntax

section \<open>Entries in an array of bytes\<close>

definition entry_pos :: "fat_type \<Rightarrow> nat \<Rightarrow> nat" where
  "entry_pos t c = (if t = FAT_TYPE_12 then c + c div 2 else if t = FAT_TYPE_16 then 2 * c else 4 * c)"

definition entry_mask :: "fat_type \<Rightarrow> u32" where
  "entry_mask t = (if t = FAT_TYPE_12 then 0xFFF else if t = FAT_TYPE_16 then 0xFFFF else 0x0FFFFFFF)"

definition byte_pair :: "(nat \<Rightarrow> u8) \<Rightarrow> nat \<Rightarrow> u16" where
  "byte_pair B p = ucast (B p) OR push_bit 8 (ucast (B (p + 1)))"

definition fat_val :: "fat_type \<Rightarrow> (nat \<Rightarrow> u8) \<Rightarrow> nat \<Rightarrow> u32" where
  "fat_val t B c =
     (let p = entry_pos t c in
      if t = FAT_TYPE_12 then ucast (if odd c then drop_bit 4 (byte_pair B p) else byte_pair B p AND 0xFFF)
      else if t = FAT_TYPE_16 then ucast (byte_pair B p)
      else (ucast (byte_pair B p) OR push_bit 16 (ucast (byte_pair B (p + 2)))) AND 0x0FFFFFFF)"

definition put_pair :: "nat \<Rightarrow> u16 \<Rightarrow> (nat \<Rightarrow> u8) \<Rightarrow> nat \<Rightarrow> u8" where
  "put_pair p w B = B(p := ucast w, p + 1 := ucast (drop_bit 8 w))"

definition set_bytes :: "fat_type \<Rightarrow> nat \<Rightarrow> u32 \<Rightarrow> (nat \<Rightarrow> u8) \<Rightarrow> nat \<Rightarrow> u8" where
  "set_bytes t c v B =
     (let p = entry_pos t c in
      if t = FAT_TYPE_12 then
        put_pair p (if odd c then (byte_pair B p AND 0x000F) OR ucast (push_bit 4 v)
                    else (byte_pair B p AND 0xF000) OR (ucast v AND 0xFFF)) B
      else if t = FAT_TYPE_16 then put_pair p (ucast v) B
      else (let w = ((ucast (byte_pair B p) OR push_bit 16 (ucast (byte_pair B (p + 2)))) AND 0xF0000000) OR (v AND 0x0FFFFFFF)
            in put_pair (p + 2) (ucast (drop_bit 16 w)) (put_pair p (ucast w) B)))"

lemma byte_pair_put [simp]: "byte_pair (put_pair p w B) p = w"
  by (simp add: byte_pair_def put_pair_def join8_16)

lemma byte_pair_put_other: "q + 2 \<le> p \<or> p + 2 \<le> q \<Longrightarrow> byte_pair (put_pair p w B) q = byte_pair B q"
  by (auto simp: byte_pair_def put_pair_def)

lemma put_pair_apply: "put_pair p w B q = (if q = p then ucast w else if q = p + 1 then ucast (drop_bit 8 w) else B q)"
  by (auto simp: put_pair_def)

text \<open>Two 12-bit entries share the byte in the middle of a pair.\<close>

lemma const_nibbles:
  "bit (0xF000 :: u16) n \<longleftrightarrow> 12 \<le> n \<and> n < 16" "bit (0x000F :: u16) n \<longleftrightarrow> n < 4" "bit (0xFFF :: u16) n \<longleftrightarrow> n < 12"
  "bit (0xFFF :: u32) n \<longleftrightarrow> n < 12"
proof -
  have "(0xF000 :: u16) = NOT (mask 12)" "(0xF :: u16) = mask 4" "(0xFFF :: u16) = mask 12" "(0xFFF :: u32) = mask 12"
    by (simp_all add: mask_eq_exp_minus_1)
  note masks = this
  show "bit (0xF000 :: u16) n \<longleftrightarrow> 12 \<le> n \<and> n < 16" "bit (0x000F :: u16) n \<longleftrightarrow> n < 4" "bit (0xFFF :: u16) n \<longleftrightarrow> n < 12"
    "bit (0xFFF :: u32) n \<longleftrightarrow> n < 12"
    unfolding masks by (auto simp: bit_not_iff bit_mask_iff)
qed

lemma nibble_bits:
  fixes w :: u16
  shows "bit (w AND 0x000F) n \<longleftrightarrow> bit w n \<and> n < 4" "bit (w AND 0xF000) n \<longleftrightarrow> bit w n \<and> 12 \<le> n" "bit (w AND 0xFFF) n \<longleftrightarrow> bit w n \<and> n < 12"
  using const_nibbles [of n] bit_imp_le_length [of w n] by (auto simp only: bit_and_iff) auto

lemma val12_same:
  fixes w :: u16 and v :: u32
  shows "ucast (drop_bit 4 ((w AND 0x000F) OR ucast (push_bit 4 v))) = v AND 0xFFF"
    "ucast (((w AND 0xF000) OR (ucast v AND 0xFFF)) AND 0xFFF) = v AND 0xFFF"
proof -
  show "ucast (drop_bit 4 ((w AND 0x000F) OR ucast (push_bit 4 v))) = v AND 0xFFF"
  proof (rule bit_word_eqI)
    fix n
    assume "n < LENGTH(32)"
    then show "bit (ucast (drop_bit 4 ((w AND 0x000F) OR ucast (push_bit 4 v))) :: u32) n = bit (v AND 0xFFF) n"
      using const_nibbles(4) [of n] nibble_bits(1) [of w "4 + n"] by (auto simp: bit_simps bit_and_iff)
  qed
  show "ucast (((w AND 0xF000) OR (ucast v AND 0xFFF)) AND 0xFFF) = v AND 0xFFF"
  proof (rule bit_word_eqI)
    fix n
    assume "n < LENGTH(32)"
    then show "bit (ucast (((w AND 0xF000) OR (ucast v AND 0xFFF)) AND 0xFFF) :: u32) n = bit (v AND 0xFFF) n"
      using const_nibbles [of n] nibble_bits(2) [of w n] by (auto simp: bit_simps bit_and_iff)
  qed
qed

lemma val12_next:
  fixes w :: u16 and x :: u8 and u :: u16
  assumes "\<And>n. 12 \<le> n \<Longrightarrow> bit u n = bit w n"
  shows "drop_bit 4 (ucast (ucast (drop_bit 8 u) :: u8) OR push_bit 8 (ucast x)) =
    drop_bit 4 (ucast (ucast (drop_bit 8 w) :: u8) OR push_bit 8 (ucast x) :: u16)"
  using assms by (intro bit_word_eqI) (auto simp: bit_simps)

lemma val12_prev:
  fixes w :: u16 and x :: u8 and u :: u16
  assumes "\<And>n. n < 4 \<Longrightarrow> bit u n = bit w n"
  shows "(ucast x OR push_bit 8 (ucast (ucast u :: u8))) AND 0xFFF = (ucast x OR push_bit 8 (ucast (ucast w :: u8))) AND (0xFFF :: u16)"
proof (rule bit_word_eqI)
  fix n
  show "bit ((ucast x OR push_bit 8 (ucast (ucast u :: u8))) AND 0xFFF :: u16) n =
      bit ((ucast x OR push_bit 8 (ucast (ucast w :: u8))) AND 0xFFF :: u16) n"
    using const_nibbles(3) [of n] assms [of "n - 8"] by (auto simp: bit_simps bit_and_iff)
qed

lemma split_pair: "ucast (byte_pair B p) = B p" "ucast (drop_bit 8 (byte_pair B p)) = B (p + 1)"
  unfolding byte_pair_def by (rule split16)+

lemma fat_val_set12:
  "fat_val FAT_TYPE_12 (set_bytes FAT_TYPE_12 c v B) c' = (if c' = c then v AND 0xFFF else fat_val FAT_TYPE_12 B c')"
proof -
  let ?p = "entry_pos FAT_TYPE_12"
  define w where "w = byte_pair B (?p c)"
  define u where "u = (if odd c then (w AND 0x000F) OR ucast (push_bit 4 v) else (w AND 0xF000) OR (ucast v AND 0xFFF))"
  have sb: "set_bytes FAT_TYPE_12 c v B = put_pair (?p c) u B"
    by (simp add: set_bytes_def Let_def u_def w_def)
  have w_bytes: "B (?p c) = ucast w" "B (?p c + 1) = ucast (drop_bit 8 w)"
    by (simp_all only: w_def split_pair)
  have "c' = c \<or> even c \<and> c' = c + 1 \<or> odd c \<and> c = c' + 1 \<or> c' + c' div 2 + 2 \<le> c + c div 2 \<or> c + c div 2 + 2 \<le> c' + c' div 2"
    by (cases "even c"; cases "even c'"; elim evenE oddE; simp; linarith)
  then consider (same) "c' = c" | (nxt) "even c" "c' = c + 1" | (prv) "odd c" "c = c' + 1"
    | (far) "c' \<noteq> c" "?p c' + 2 \<le> ?p c \<or> ?p c + 2 \<le> ?p c'"
    by (auto simp: entry_pos_def)
  then show ?thesis
  proof cases
    case same
    then show ?thesis
      using val12_same [of w v] by (cases "odd c") (simp_all add: sb fat_val_def Let_def u_def)
  next
    case nxt
    have p: "?p c' = ?p c + 1"
      using nxt by (simp add: entry_pos_def)
    have "bit u n = bit w n" if "12 \<le> n" for n
      using nxt that by (simp add: u_def bit_or_iff nibble_bits)
    from val12_next [OF this, of "B (?p c + 2)", unfolded w_bytes [symmetric]]
    have "drop_bit 4 (byte_pair (put_pair (?p c) u B) (?p c')) = drop_bit 4 (byte_pair B (?p c'))"
      unfolding byte_pair_def put_pair_apply p by simp
    then show ?thesis
      using nxt by (simp add: fat_val_def Let_def sb)
  next
    case prv
    have p: "?p c = ?p c' + 1"
      using prv by (auto simp: entry_pos_def elim!: oddE)
    have "bit u n = bit w n" if "n < 4" for n
      using prv that const_nibbles(2) [of n] by (simp add: u_def bit_simps)
    from val12_prev [OF this, of "B (?p c')", unfolded w_bytes [symmetric]]
    have "byte_pair (put_pair (?p c) u B) (?p c') AND 0xFFF = byte_pair B (?p c') AND 0xFFF"
      unfolding byte_pair_def put_pair_apply p by simp
    then show ?thesis
      unfolding sb using prv by (simp add: fat_val_def Let_def)
  next
    case far
    then show ?thesis
      by (simp add: fat_val_def Let_def sb byte_pair_put_other)
  qed
qed

lemma fat_val_set:
  "fat_val t (set_bytes t c v B) c' = (if c' = c then v AND entry_mask t else fat_val t B c')"
proof -
  consider (t12) "t = FAT_TYPE_12" | (t16) "t = FAT_TYPE_16" | (t32) "t \<noteq> FAT_TYPE_12" "t \<noteq> FAT_TYPE_16"
    by blast
  then show ?thesis
  proof cases
    case t12
    then show ?thesis
      by (simp add: fat_val_set12 entry_mask_def)
  next
    case t16
    have m: "(0xFFFF :: u32) = mask 16"
      by (simp add: mask_eq_exp_minus_1)
    have "ucast (ucast v :: u16) = v AND 0xFFFF"
      unfolding m by (rule bit_word_eqI) (auto simp: bit_simps)
    then show ?thesis
      using t16 byte_pair_put_other [of "2 * c'" "2 * c" "ucast v" B]
      by (cases "c' < c") (auto simp: fat_val_def Let_def set_bytes_def Let_def entry_pos_def entry_mask_def)
  next
    case t32
    define w where "w = ((ucast (byte_pair B (4 * c)) OR push_bit 16 (ucast (byte_pair B (4 * c + 2)))) AND 0xF0000000) OR (v AND 0x0FFFFFFF)"
    have sb: "set_bytes t c v B = put_pair (4 * c + 2) (ucast (drop_bit 16 w)) (put_pair (4 * c) (ucast w) B)"
      using t32 by (simp add: set_bytes_def Let_def entry_pos_def w_def)
    have w: "w AND 0x0FFFFFFF = v AND 0x0FFFFFFF"
      unfolding w_def by (simp add: bit.conj_disj_distrib2 and.assoc)
    show ?thesis
    proof (cases "c' = c")
      case True
      then show ?thesis
        using t32 w by (simp add: fat_val_def Let_def sb entry_pos_def entry_mask_def byte_pair_put_other join16_32)
    next
      case False
      then have "4 * c' + 4 \<le> 4 * c \<or> 4 * c + 4 \<le> 4 * c'"
        by linarith
      then show ?thesis
        using False t32 by (auto simp: fat_val_def Let_def sb entry_pos_def byte_pair_put_other)
    qed
  qed
qed

section \<open>The table on the disk\<close>

text \<open>Byte \<open>p\<close> of the copy of the table that starts at sector \<open>base\<close>.\<close>

definition table_byte :: "(u32 \<Rightarrow> bytes) \<Rightarrow> u32 \<Rightarrow> nat \<Rightarrow> u8" where
  "table_byte D base p = get8 (D (base + of_nat (p div 512))) (p mod 512)"

definition crosses :: "fat_type \<Rightarrow> nat \<Rightarrow> bool" where
  "crosses t c \<longleftrightarrow> t = FAT_TYPE_12 \<and> entry_pos t c mod 512 = 511"

definition entry_size :: "fat_type \<Rightarrow> nat" where
  "entry_size t = (if t = FAT_TYPE_12 \<or> t = FAT_TYPE_16 then 2 else 4)"

lemma unat_add_of_nat: "unat x + k < 2 ^ 32 \<Longrightarrow> unat (x + of_nat k) = unat x + k" for x :: u32
  by (simp add: unat_word_ariths unat_of_nat)

lemma offset_nat:
  assumes "unat c < 2 ^ 29"
  shows "fat_offset t c div 512 = of_nat (entry_pos t (unat c) div 512)" "unat (fat_offset t c mod 512) = entry_pos t (unat c) mod 512"
proof -
  have d: "unat (c div 2) = unat c div 2"
    by (simp add: unat_div_distrib)
  have "unat (c + c div 2) = unat c + unat c div 2"
    using assms by (subst unat_add_lem [THEN iffD1]) (simp_all add: d)
  moreover have "unat (c * 2) = 2 * unat c" "unat (c * 4) = 4 * unat c"
    using assms by (simp_all add: unat_word_ariths)
  ultimately have e: "unat (fat_offset t c) = entry_pos t (unat c)"
    by (simp add: fat_offset_def entry_pos_def)
  have "fat_offset t c div 512 = of_nat (unat (fat_offset t c div 512))"
    by simp
  then show "fat_offset t c div 512 = of_nat (entry_pos t (unat c) div 512)"
    by (simp only: unat_div_distrib e) simp
  show "unat (fat_offset t c mod 512) = entry_pos t (unat c) mod 512"
    using e by (simp add: unat_mod_distrib)
qed

text \<open>Inside a sector the bytes of the table are the bytes of the sector.\<close>

lemma same_block:
  fixes p k :: nat
  assumes "p mod 512 + k < 512"
  shows "(p + k) div 512 = p div 512" "(p + k) mod 512 = p mod 512 + k"
proof -
  define a r where "a = p div 512" and "r = p mod 512"
  have p: "p + k = a * 512 + (r + k)"
    by (simp add: a_def r_def)
  have "r + k < 512"
    using assms by (simp add: r_def)
  then show "(p + k) div 512 = p div 512" "(p + k) mod 512 = p mod 512 + k"
    unfolding p a_def [symmetric] r_def [symmetric] by simp_all
qed

lemma table_byte_in:
  "p mod 512 + k < 512 \<Longrightarrow> table_byte D base (p + k) = get8 (D (base + of_nat (p div 512))) (p mod 512 + k)"
  by (simp add: table_byte_def same_block)

lemma get16_table: "p mod 512 < 511 \<Longrightarrow> get16 (D (base + of_nat (p div 512))) (p mod 512) = byte_pair (table_byte D base) p"
  using table_byte_in [of p 0 D base] table_byte_in [of p 1 D base] by (simp add: get16_def byte_pair_def)

lemma get32_table: "p mod 512 < 509 \<Longrightarrow> get32 (D (base + of_nat (p div 512))) (p mod 512) =
    ucast (byte_pair (table_byte D base) p) OR push_bit 16 (ucast (byte_pair (table_byte D base) (p + 2)))"
  using table_byte_in [of p 0 D base] table_byte_in [of p 1 D base] table_byte_in [of p 2 D base] table_byte_in [of p 3 D base]
  by (simp add: get32_def get16_def byte_pair_def numeral_3_eq_3)

text \<open>Replacing one sector of a copy.\<close>

lemma table_byte_upd:
  assumes "unat base + F \<le> 2 ^ 32" "k < F" "q div 512 < F"
  shows "table_byte (D(base + of_nat k := sec)) base q = (if q div 512 = k then get8 sec (q mod 512) else table_byte D base q)"
proof -
  have "base + of_nat (q div 512) = base + of_nat k \<longleftrightarrow> q div 512 = k"
    using assms unat_add_of_nat [of base k] unat_add_of_nat [of base "q div 512"] by (auto dest: arg_cong [of _ _ unat])
  then show ?thesis
    by (auto simp: table_byte_def)
qed

lemma block_pos_iff:
  fixes p q k :: nat
  assumes "p mod 512 + k < 512"
  shows "q = p + k \<longleftrightarrow> q div 512 = p div 512 \<and> q mod 512 = p mod 512 + k"
  using same_block [OF assms] by (metis div_mult_mod_eq)

lemma table_put16:
  assumes "unat base + F \<le> 2 ^ 32" "p div 512 < F" "q div 512 < F" "p mod 512 < 511" "length (D (base + of_nat (p div 512))) = 512"
  shows "table_byte (D(base + of_nat (p div 512) := put16 (p mod 512) w (D (base + of_nat (p div 512))))) base q =
    put_pair p w (table_byte D base) q"
  using assms block_pos_iff [of p 0 q] block_pos_iff [of p 1 q] table_byte_upd [of base F "p div 512" q D]
  by (auto simp: put_pair_apply get8_put16 table_byte_def)

lemma table_put32:
  assumes "unat base + F \<le> 2 ^ 32" "p div 512 < F" "q div 512 < F" "p mod 512 < 509" "length (D (base + of_nat (p div 512))) = 512"
  shows "table_byte (D(base + of_nat (p div 512) := put32 (p mod 512) w (D (base + of_nat (p div 512))))) base q =
    put_pair (p + 2) (ucast (drop_bit 16 w)) (put_pair p (ucast w) (table_byte D base)) q"
proof -
  let ?s = "base + of_nat (p div 512)"
  let ?D = "D(?s := put16 (p mod 512) (ucast w) (D ?s))"
  have b: "(p + 2) div 512 = p div 512" "(p + 2) mod 512 = p mod 512 + 2"
    using same_block [of p 2] assms(4) by simp_all
  have "table_byte (?D(?s := put16 (p mod 512 + 2) (ucast (drop_bit 16 w)) (?D ?s))) base q =
      put_pair (p + 2) (ucast (drop_bit 16 w)) (table_byte ?D base) q"
    using table_put16 [of base F "p + 2" q ?D] assms b by simp
  moreover have "table_byte ?D base r = put_pair p (ucast w) (table_byte D base) r" if "r div 512 < F" for r
    using table_put16 [of base F p r D] assms that by simp
  ultimately show ?thesis
    using assms(3) by (simp add: put32_def put_pair_apply)
qed

lemma table_put_crossing:
  assumes "unat base + F \<le> 2 ^ 32" "(p + 1) div 512 < F" "q div 512 < F" "p mod 512 = 511"
    and len: "\<And>l. length (D l) = 512" and s: "s = base + of_nat (p div 512)"
  shows "table_byte (D(s + 1 := put8 0 (ucast (drop_bit 8 w)) (D (s + 1)), s := put8 511 (ucast w) (D s))) base q =
    put_pair p w (table_byte D base) q"
proof -
  define a where "a = p div 512"
  have "p + 1 = (a + 1) * 512"
    using assms(4) div_mult_mod_eq [of p 512] by (simp add: a_def)
  then have b: "(p + 1) div 512 = p div 512 + 1" "(p + 1) mod 512 = 0"
    by (simp_all only: a_def [symmetric]) simp_all
  then have s1: "s + 1 = base + of_nat ((p + 1) div 512)" and F: "p div 512 < F"
    using assms(2) s by (simp_all add: add.assoc)
  let ?D = "D(s + 1 := put8 0 (ucast (drop_bit 8 w)) (D (s + 1)))"
  have ne: "s + 1 \<noteq> s"
    by simp
  have "table_byte (?D(s := put8 511 (ucast w) (D s))) base q = (if q div 512 = p div 512 then get8 (put8 511 (ucast w) (D s)) (q mod 512)
      else table_byte ?D base q)"
    unfolding s by (rule table_byte_upd [OF assms(1) F assms(3)])
  moreover have "table_byte ?D base q = (if q div 512 = (p + 1) div 512 then get8 (put8 0 (ucast (drop_bit 8 w)) (D (s + 1))) (q mod 512)
      else table_byte D base q)"
    unfolding s1 by (rule table_byte_upd [OF assms(1,2,3)])
  moreover have q: "q = p \<longleftrightarrow> q div 512 = p div 512 \<and> q mod 512 = 511" "q = p + 1 \<longleftrightarrow> q div 512 = (p + 1) div 512 \<and> q mod 512 = 0"
    using block_pos_iff [of p 0 q] block_pos_iff [of "p + 1" 0 q] assms(4) b by simp_all
  moreover have "get8 (D s) (q mod 512) = table_byte D base q" if "q div 512 = p div 512"
    using that by (simp add: table_byte_def s)
  moreover have "get8 (D (s + 1)) (q mod 512) = table_byte D base q" if "q div 512 = (p + 1) div 512"
    using that by (simp add: table_byte_def s1)
  ultimately have "table_byte (?D(s := put8 511 (ucast w) (D s))) base q =
      (if q = p then ucast w else if q = p + 1 then ucast (drop_bit 8 w) else table_byte D base q)"
    using len b by (simp only: get8_put8) (simp split: if_splits)
  then show ?thesis
    by (simp only: put_pair_apply)
qed

section \<open>Volumes\<close>

text \<open>The disk under a volume.\<close>

definition disk_of :: "('d \<Rightarrow> drive_view) \<Rightarrow> ata_state \<Rightarrow> 'd fat \<Rightarrow> u32 \<Rightarrow> bytes" where
  "disk_of view a s = sector a (view (dev (con (dsk s))))"

definition vol_ok :: "('d \<Rightarrow> drive_view) \<Rightarrow> ata_state \<Rightarrow> 'd fat \<Rightarrow> bool" where
  "vol_ok view a s \<longleftrightarrow> cache_ok view a (dsk s)"

sublocale ready_disk \<subseteq> vol: reliable_store "rd_sector b" "\<lambda>lba v s. Some (wr_sector b lba v s)" "disk_of view a" "vol_ok view a"
proof (unfold_locales, goal_cases)
  case (1 s lba)
  then show ?case
    using cached.rd_spec [of "dsk s" lba] by (auto simp: rd_sector_def vol_ok_def disk_of_def)
next
  case (2 s lba v)
  then show ?case
    using cached.wr_spec [of "dsk s" lba v] by (auto simp: wr_sector_def vol_ok_def disk_of_def)
next
  case (3 s lba)
  then show ?case
    using cached.content_length [of "dsk s" lba] by (simp add: vol_ok_def disk_of_def)
next
  case (4 s lba r s')
  then show ?case
    using steady.rd_ok [of "dsk s" lba] by (auto simp: rd_sector_def vol_ok_def)
next
  case (5 s lba v ok s')
  then show ?case
    using steady.wr_ok [of "dsk s" lba v] by (auto simp: wr_sector_def vol_ok_def split: prod.splits)
qed

text \<open>The geometry of a sound volume of at most \<open>2\<^sup>2\<^sup>8\<close> sectors: the copies of the table lie before the data, and
  a copy has an entry for every cluster.\<close>

definition geo_ok :: "'d fat \<Rightarrow> bool" where
  "geo_ok s \<longleftrightarrow> 0 < unat (fat_count (bpb s)) \<and> 0 < unat (sectors_per_cluster (bpb s)) \<and>
     unat (reserved_sectors (bpb s)) + unat (fat_count (bpb s)) * unat (fat_size s) \<le> unat (first_data s) \<and>
     unat (first_data s) + unat (cluster_count s) * unat (sectors_per_cluster (bpb s)) \<le> 2 ^ 28 \<and>
     entry_pos (ftype s) (unat (cluster_count s) + 1) + entry_size (ftype s) \<le> 512 * unat (fat_size s)"

definition in_table :: "'d fat \<Rightarrow> u32 \<Rightarrow> bool" where
  "in_table s c \<longleftrightarrow> unat c < unat (cluster_count s) + 2"

definition copy_base :: "'d fat \<Rightarrow> nat \<Rightarrow> u32" where
  "copy_base s i = ucast (reserved_sectors (bpb s)) + of_nat i * fat_size s"

lemma geo_bounds:
  assumes "geo_ok s"
  shows "unat (cluster_count s) \<le> 2 ^ 28" "unat (reserved_sectors (bpb s)) + unat (fat_count (bpb s)) * unat (fat_size s) \<le> 2 ^ 28"
proof -
  have "unat (cluster_count s) * 1 \<le> unat (cluster_count s) * unat (sectors_per_cluster (bpb s))"
    using assms by (intro mult_le_mono2) (simp add: geo_ok_def)
  then show "unat (cluster_count s) \<le> 2 ^ 28"
    using assms unfolding geo_ok_def by linarith
  show "unat (reserved_sectors (bpb s)) + unat (fat_count (bpb s)) * unat (fat_size s) \<le> 2 ^ 28"
    using assms by (simp add: geo_ok_def)
qed

lemma copy_base_unat:
  assumes g: "geo_ok s" and i: "i < unat (fat_count (bpb s))"
  shows "unat (copy_base s i) = unat (reserved_sectors (bpb s)) + i * unat (fat_size s)"
    "unat (copy_base s i) + unat (fat_size s) \<le> unat (reserved_sectors (bpb s)) + unat (fat_count (bpb s)) * unat (fat_size s)"
proof -
  have "(i + 1) * unat (fat_size s) \<le> unat (fat_count (bpb s)) * unat (fat_size s)"
    using i by (intro mult_le_mono1) simp
  then have le: "unat (reserved_sectors (bpb s)) + i * unat (fat_size s) + unat (fat_size s)
      \<le> unat (reserved_sectors (bpb s)) + unat (fat_count (bpb s)) * unat (fat_size s)"
    by simp
  then have lt: "unat (reserved_sectors (bpb s)) + i * unat (fat_size s) < 2 ^ 32"
    using geo_bounds(2) [OF g] by simp
  have "copy_base s i = of_nat (unat (reserved_sectors (bpb s)) + i * unat (fat_size s))"
    by (simp add: copy_base_def)
  then show e: "unat (copy_base s i) = unat (reserved_sectors (bpb s)) + i * unat (fat_size s)"
    using lt by (simp only: unat_of_nat) simp
  show "unat (copy_base s i) + unat (fat_size s) \<le> unat (reserved_sectors (bpb s)) + unat (fat_count (bpb s)) * unat (fat_size s)"
    using le e by simp
qed

lemma entry_fits:
  assumes g: "geo_ok s" and c: "in_table s c"
  shows "unat c < 2 ^ 29" "entry_pos (ftype s) (unat c) + entry_size (ftype s) \<le> 512 * unat (fat_size s)"
    "entry_pos (ftype s) (unat c) div 512 < unat (fat_size s)"
proof -
  show "unat c < 2 ^ 29"
    using c geo_bounds(1) [OF g] by (simp add: in_table_def)
  have "entry_pos (ftype s) (unat c) \<le> entry_pos (ftype s) (unat (cluster_count s) + 1)"
    using c by (auto simp: in_table_def entry_pos_def intro!: add_mono div_le_mono)
  then show *: "entry_pos (ftype s) (unat c) + entry_size (ftype s) \<le> 512 * unat (fat_size s)"
    using g by (simp add: geo_ok_def)
  then show "entry_pos (ftype s) (unat c) div 512 < unat (fat_size s)"
    by (intro div_less_iff_less_mult [THEN iffD2]) (auto simp: entry_size_def split: if_splits)
qed

text \<open>\<open>vol_step view a s D s'\<close>: from \<open>s\<close> to \<open>s'\<close> only the disk has changed, to \<open>D\<close>.\<close>

definition vol_step :: "('d \<Rightarrow> drive_view) \<Rightarrow> ata_state \<Rightarrow> 'd fat \<Rightarrow> (u32 \<Rightarrow> bytes) \<Rightarrow> 'd fat \<Rightarrow> bool" where
  "vol_step view a s D s' \<longleftrightarrow> s' = s\<lparr>dsk := dsk s'\<rparr> \<and> vol_ok view a s' \<and> disk_of view a s' = D"

lemma vol_step_trans: "vol_step view a s D s' \<Longrightarrow> vol_step view a s' D' s'' \<Longrightarrow> vol_step view a s D' s''"
  unfolding vol_step_def by (metis (no_types, lifting) fat.surjective fat.update_convs(15))

lemma vol_step_fields:
  assumes "vol_step view a s D s'"
  shows "bpb s' = bpb s" "ftype s' = ftype s" "fat_size s' = fat_size s" "first_data s' = first_data s"
    "cluster_count s' = cluster_count s" "root_cluster s' = root_cluster s" "current_cluster s' = current_cluster s"
    "fsinfo_sector s' = fsinfo_sector s" "backup_boot_sector s' = backup_boot_sector s" "cwd s' = cwd s"
    "geo_ok s' = geo_ok s" "in_table s' c = in_table s c" "copy_base s' i = copy_base s i"
    "cluster_sector c s' = cluster_sector c s" "valid_data_cluster c s' = valid_data_cluster c s"
    "vol_ok view a s'" "disk_of view a s' = D"
proof -
  obtain d where s': "s' = s\<lparr>dsk := d\<rparr>" and r: "vol_ok view a s'" "disk_of view a s' = D"
    using assms unfolding vol_step_def by blast
  show "bpb s' = bpb s" "ftype s' = ftype s" "fat_size s' = fat_size s" "first_data s' = first_data s"
    "cluster_count s' = cluster_count s" "root_cluster s' = root_cluster s" "current_cluster s' = current_cluster s"
    "fsinfo_sector s' = fsinfo_sector s" "backup_boot_sector s' = backup_boot_sector s" "cwd s' = cwd s"
    "geo_ok s' = geo_ok s" "in_table s' c = in_table s c" "copy_base s' i = copy_base s i"
    "cluster_sector c s' = cluster_sector c s" "valid_data_cluster c s' = valid_data_cluster c s"
    by (simp_all add: s' geo_ok_def in_table_def copy_base_def cluster_sector_def valid_data_cluster_def)
  show "vol_ok view a s'" "disk_of view a s' = D"
    using r by simp_all
qed

text \<open>The value of an entry, in the first copy.\<close>

definition table_val :: "'d fat \<Rightarrow> (u32 \<Rightarrow> bytes) \<Rightarrow> u32 \<Rightarrow> u32" where
  "table_val s D c = fat_val (ftype s) (table_byte D (copy_base s 0)) (unat c)"

lemma copy_base_0: "copy_base s 0 = ucast (reserved_sectors (bpb s))"
  by (simp add: copy_base_def)

lemma entry_pos_mod: "(2 * n) mod 512 < (511 :: nat)" "(4 * n) mod 512 < (509 :: nat)" for n :: nat
  using mult_mod_right [of 2 n 256] mult_mod_right [of 4 n 128] mod_less_divisor [of 256 n] mod_less_divisor [of 128 n]
  by simp_all

lemma bit_0_unat: "bit c 0 \<longleftrightarrow> odd (unat c)" for c :: u32
  using bit_unsigned_iff [where ?'a = nat, of c 0] by (simp add: bit_0)

context ready_disk
begin

lemma rd_vol:
  assumes "vol_ok view a s" "lba < 0x10000000"
  obtains s' where "rd_sector b lba s = Some (Some (disk_of view a s lba), s')" "vol_step view a s (disk_of view a s) s'"
proof -
  obtain s' where r: "rd_sector b lba s = Some (Some (disk_of view a s lba), s')" "vol_ok view a s'" "disk_of view a s' = disk_of view a s"
    by (rule vol.rd_content [OF assms])
  moreover have "s' = s\<lparr>dsk := dsk s'\<rparr>"
    using r(1) by (auto simp: rd_sector_def)
  ultimately show thesis
    using that by (simp add: vol_step_def)
qed

lemma wr_vol:
  assumes "vol_ok view a s" "lba < 0x10000000" "length v = 512"
  obtains s' where "wr_sector b lba v s = (True, s')" "vol_step view a s ((disk_of view a s)(lba := v)) s'"
proof -
  obtain s' where r: "Some (wr_sector b lba v s) = Some (True, s')" "vol_ok view a s'" "disk_of view a s' = (disk_of view a s)(lba := v)"
    by (rule vol.wr_content [OF assms])
  moreover have "s' = s\<lparr>dsk := dsk s'\<rparr>"
    using r(1) by (auto simp: wr_sector_def split: prod.splits)
  ultimately show thesis
    using that by (simp add: vol_step_def)
qed

lemma disk_length: "vol_ok view a s \<Longrightarrow> length (disk_of view a s lba) = 512"
  by (rule vol.content_length)

lemma table_sector_bound:
  assumes "geo_ok s" "i < unat (fat_count (bpb s))" "k < unat (fat_size s)"
  shows "copy_base s i + of_nat k < 0x10000000" "unat (copy_base s i + of_nat k) = unat (copy_base s i) + k"
proof -
  have "unat (copy_base s i) + k < 2 ^ 28"
    using copy_base_unat(2) [OF assms(1,2)] geo_bounds(2) [OF assms(1)] assms(3) by linarith
  then show "unat (copy_base s i + of_nat k) = unat (copy_base s i) + k"
    by (intro unat_add_of_nat) simp
  then show "copy_base s i + of_nat k < 0x10000000"
    using \<open>unat (copy_base s i) + k < 2 ^ 28\<close> by (simp add: word_less_nat_alt)
qed

lemma fat_get_spec:
  assumes ok: "vol_ok view a s" and g: "geo_ok s" and c: "in_table s c" and x: "\<not> crosses (ftype s) (unat c)"
  obtains s' where "fat_get b c s = Some (table_val s (disk_of view a s) c, s')" "vol_step view a s (disk_of view a s) s'"
proof -
  let ?p = "entry_pos (ftype s) (unat c)" and ?D = "disk_of view a s" and ?t = "ftype s"
  have n: "0 < unat (fat_count (bpb s))"
    using g by (simp add: geo_ok_def)
  have lt: "copy_base s 0 + of_nat (?p div 512) < 0x10000000"
    by (rule table_sector_bound(1) [OF g n entry_fits(3) [OF g c]])
  obtain s' where r: "rd_sector b (copy_base s 0 + of_nat (?p div 512)) s = Some (Some (?D (copy_base s 0 + of_nat (?p div 512))), s')"
    and st: "vol_step view a s ?D s'"
    by (rule rd_vol [OF ok lt])
  have "fat_get b c s = Some (table_val s ?D c, s')"
  proof -
    consider (t12) "?t = FAT_TYPE_12" "?p mod 512 \<noteq> 511" | (t16) "?t = FAT_TYPE_16" | (t32) "?t \<noteq> FAT_TYPE_12" "?t \<noteq> FAT_TYPE_16"
      using x by (auto simp: crosses_def)
    then show ?thesis
    proof cases
      case t12
      then have "?p mod 512 < 511"
        using mod_less_divisor [of 512 ?p] by linarith
      then show ?thesis
        using t12 bit_0_unat [of c] r get16_table [of ?p ?D "copy_base s 0"] offset_nat [OF entry_fits(1) [OF g c], of ?t]
        by (simp add: fat_get_def Let_def table_val_def fat_val_def copy_base_0)
    next
      case t16
      have "?p mod 512 < 511"
        using t16 entry_pos_mod(1) by (simp add: entry_pos_def)
      then show ?thesis
        using t16 r get16_table [of ?p ?D "copy_base s 0"] offset_nat [OF entry_fits(1) [OF g c], of ?t]
        by (simp add: fat_get_def Let_def table_val_def fat_val_def copy_base_0)
    next
      case t32
      have "?p mod 512 < 509"
        using t32 entry_pos_mod(2) by (simp add: entry_pos_def)
      then show ?thesis
        using t32 r get32_table [of ?p ?D "copy_base s 0"] offset_nat [OF entry_fits(1) [OF g c], of ?t]
        by (simp add: fat_get_def Let_def table_val_def fat_val_def copy_base_0)
    qed
  qed
  then show thesis
    using st that by blast
qed

end

text \<open>\<open>copy_set\<close>: the copy at \<open>base\<close> has entry \<open>c\<close> replaced, everything outside this copy is as before.\<close>

definition copy_set :: "'d fat \<Rightarrow> u32 \<Rightarrow> u32 \<Rightarrow> u32 \<Rightarrow> (u32 \<Rightarrow> bytes) \<Rightarrow> (u32 \<Rightarrow> bytes) \<Rightarrow> bool" where
  "copy_set s base c v D D' \<longleftrightarrow>
     (\<forall>q. q div 512 < unat (fat_size s) \<longrightarrow> table_byte D' base q = set_bytes (ftype s) (unat c) v (table_byte D base) q) \<and>
     (\<forall>l. unat l < unat base \<or> unat base + unat (fat_size s) \<le> unat l \<longrightarrow> D' l = D l)"

lemma merge12_pair: "merge12 c v (byte_pair B p) = (if odd (unat c) then (byte_pair B p AND 0x000F) OR ucast (push_bit 4 v)
    else (byte_pair B p AND 0xF000) OR (ucast v AND 0xFFF))"
  by (simp add: merge12_def bit_0_unat)

context ready_disk
begin

lemma fat_set_copy_spec:
  assumes ok: "vol_ok view a s" and g: "geo_ok s" and c: "in_table s c" and i: "i < unat (fat_count (bpb s))"
  obtains s' D' where "fat_set_copy b (copy_base s i) c v s = Some (True, s')" "vol_step view a s D' s'"
    "copy_set s (copy_base s i) c v (disk_of view a s) D'"
proof -
  let ?p = "entry_pos (ftype s) (unat c)" and ?D = "disk_of view a s" and ?t = "ftype s" and ?B = "copy_base s i"
  let ?F = "unat (fat_size s)" and ?l = "copy_base s i + of_nat (entry_pos (ftype s) (unat c) div 512)"
  note result = that and fits = entry_fits [OF g c]
  note off = offset_nat [OF fits(1), of ?t]
  have BF: "unat ?B + ?F \<le> 2 ^ 32"
    using copy_base_unat(2) [OF g i] geo_bounds(2) [OF g] by simp
  note lt = table_sector_bound [OF g i fits(3)]
  have len: "length (?D l) = 512" for l
    by (rule disk_length [OF ok])
  obtain s1 where r: "rd_sector b ?l s = Some (Some (?D ?l), s1)" and st: "vol_step view a s ?D s1"
    by (rule rd_vol [OF ok lt(1)])
  note f1 = vol_step_fields [OF st]
  have single: thesis
    if run: "fat_set_copy b ?B c v s = Some (wr_sector b ?l sec s1)" and sec: "length sec = 512"
      and upd: "\<And>q. q div 512 < ?F \<Longrightarrow> table_byte (?D(?l := sec)) ?B q = set_bytes ?t (unat c) v (table_byte ?D ?B) q" for sec
  proof -
    obtain s2 where w: "wr_sector b ?l sec s1 = (True, s2)" and st2: "vol_step view a s1 (?D(?l := sec)) s2"
      using wr_vol [OF f1(16) lt(1) sec] f1(17) by auto
    have "copy_set s ?B c v ?D (?D(?l := sec))"
      using upd lt(2) fits(3) by (auto simp: copy_set_def)
    then show thesis
      using result [of s2 "?D(?l := sec)"] run w vol_step_trans [OF st st2] by simp
  qed
  consider (t12) "?t = FAT_TYPE_12" "?p mod 512 < 511" | (cross) "?t = FAT_TYPE_12" "?p mod 512 = 511"
    | (t16) "?t = FAT_TYPE_16" | (t32) "?t \<noteq> FAT_TYPE_12" "?t \<noteq> FAT_TYPE_16"
    using mod_less_divisor [of 512 ?p] by fastforce
  then show thesis
  proof cases
    case t12
    define w where "w = merge12 c v (byte_pair (table_byte ?D ?B) ?p)"
    show thesis
    proof (rule single [of "put16 (?p mod 512) w (?D ?l)"])
      show "fat_set_copy b ?B c v s = Some (wr_sector b ?l (put16 (?p mod 512) w (?D ?l)) s1)"
        using t12 r off get16_table [of ?p ?D ?B] by (simp add: fat_set_copy_def Let_def w_def)
      show "table_byte (?D(?l := put16 (?p mod 512) w (?D ?l))) ?B q = set_bytes ?t (unat c) v (table_byte ?D ?B) q"
        if "q div 512 < ?F" for q
        using table_put16 [OF BF fits(3) that t12(2), of ?D w] len t12(1) by (simp add: set_bytes_def Let_def w_def merge12_pair)
    qed (simp add: len)
  next
    case t16
    have p: "?p mod 512 < 511"
      using t16 entry_pos_mod(1) by (simp add: entry_pos_def)
    show thesis
    proof (rule single [of "put16 (?p mod 512) (ucast v) (?D ?l)"])
      show "fat_set_copy b ?B c v s = Some (wr_sector b ?l (put16 (?p mod 512) (ucast v) (?D ?l)) s1)"
        using t16 r off by (simp add: fat_set_copy_def Let_def)
      show "table_byte (?D(?l := put16 (?p mod 512) (ucast v) (?D ?l))) ?B q = set_bytes ?t (unat c) v (table_byte ?D ?B) q"
        if "q div 512 < ?F" for q
        using table_put16 [OF BF fits(3) that p, of ?D "ucast v"] len t16 by (simp add: set_bytes_def Let_def)
    qed (simp add: len)
  next
    case t32
    have p: "?p mod 512 < 509"
      using t32 entry_pos_mod(2) by (simp add: entry_pos_def)
    define w where "w = ((ucast (byte_pair (table_byte ?D ?B) ?p) OR push_bit 16 (ucast (byte_pair (table_byte ?D ?B) (?p + 2)))) AND 0xF0000000)
      OR (v AND 0x0FFFFFFF)"
    show thesis
    proof (rule single [of "put32 (?p mod 512) w (?D ?l)"])
      show "fat_set_copy b ?B c v s = Some (wr_sector b ?l (put32 (?p mod 512) w (?D ?l)) s1)"
        using t32 r off get32_table [OF p, of ?D ?B] by (simp add: fat_set_copy_def Let_def w_def)
      show "table_byte (?D(?l := put32 (?p mod 512) w (?D ?l))) ?B q = set_bytes ?t (unat c) v (table_byte ?D ?B) q"
        if "q div 512 < ?F" for q
        using table_put32 [OF BF fits(3) that p, of ?D w] len t32 by (simp add: set_bytes_def Let_def w_def)
    qed (simp add: len)
  next
    case cross
    define w where "w = merge12 c v (byte_pair (table_byte ?D ?B) ?p)"
    have p1: "(?p + 1) div 512 < ?F"
      using fits(2) cross by (simp add: entry_size_def)
    have q1: "(?p + 1) div 512 = ?p div 512 + 1" "(?p + 1) mod 512 = 0"
      using cross(2) by (simp_all add: div_Suc mod_Suc)
    have l1: "?l + 1 = ?B + of_nat ((?p + 1) div 512)"
      unfolding q1 by simp
    note lt1 = table_sector_bound [OF g i p1, folded l1]
    obtain s2 where r2: "rd_sector b (?l + 1) s1 = Some (Some (?D (?l + 1)), s2)" and st2: "vol_step view a s1 ?D s2"
      using rd_vol [OF f1(16) lt1(1)] f1(17) by auto
    note f2 = vol_step_fields [OF st2]
    let ?D1 = "?D(?l + 1 := put8 0 (ucast (drop_bit 8 w)) (?D (?l + 1)))"
    obtain s3 where w3: "wr_sector b (?l + 1) (put8 0 (ucast (drop_bit 8 w)) (?D (?l + 1))) s2 = (True, s3)"
      and st3: "vol_step view a s2 ?D1 s3"
      using wr_vol [OF f2(16) lt1(1), of "put8 0 (ucast (drop_bit 8 w)) (?D (?l + 1))"] len f2(17) by auto
    note f3 = vol_step_fields [OF st3]
    let ?D2 = "?D1(?l := put8 511 (ucast w) (?D ?l))"
    obtain s4 where w4: "wr_sector b ?l (put8 511 (ucast w) (?D ?l)) s3 = (True, s4)" and st4: "vol_step view a s3 ?D2 s4"
      using wr_vol [OF f3(16) lt(1), of "put8 511 (ucast w) (?D ?l)"] len f3(17) by auto
    have bp: "byte_pair (table_byte ?D ?B) ?p = ucast (get8 (?D ?l) 511) OR push_bit 8 (ucast (get8 (?D (?l + 1)) 0))"
      using cross(2) q1 by (simp add: byte_pair_def table_byte_def ac_simps)
    have run: "fat_set_copy b ?B c v s = Some (True, s4)"
      using cross r off r2 w3 w4 bp by (simp add: fat_set_copy_def Let_def w_def)
    have "table_byte ?D2 ?B q = set_bytes ?t (unat c) v (table_byte ?D ?B) q" if "q div 512 < ?F" for q
      using table_put_crossing [of ?B ?F ?p q ?D ?l w] BF p1 that cross len
      by (simp add: set_bytes_def Let_def w_def merge12_pair)
    moreover have "?D2 l = ?D l" if "unat l < unat ?B \<or> unat ?B + ?F \<le> unat l" for l
    proof -
      have "unat l \<noteq> unat ?l" "unat l \<noteq> unat (?l + 1)"
        unfolding lt(2) lt1(2) using that fits(3) p1 by linarith+
      then show ?thesis
        by (metis fun_upd_other)
    qed
    ultimately have "copy_set s ?B c v ?D ?D2"
      by (simp only: copy_set_def) blast
    then show thesis
      using result [OF run vol_step_trans [OF st vol_step_trans [OF st2 vol_step_trans [OF st3 st4]]]] by simp
  qed
qed

end

lemma word_unat_ne: "x \<noteq> y \<Longrightarrow> unat x \<noteq> unat y" for x y :: u32
  by (auto dest: unsigned_word_eqI)

lemma fat_val_cong:
  assumes "\<And>q. entry_pos t c \<le> q \<Longrightarrow> q < entry_pos t c + entry_size t \<Longrightarrow> B q = B' q"
  shows "fat_val t B c = fat_val t B' c"
  using assms [of "entry_pos t c"] assms [of "entry_pos t c + 1"] assms [of "entry_pos t c + 2"] assms [of "entry_pos t c + 3"]
  by (cases t) (simp_all add: fat_val_def byte_pair_def entry_size_def Let_def numeral_3_eq_3)

lemma entry_byte_sector:
  assumes "geo_ok s" "in_table s c" "q < entry_pos (ftype s) (unat c) + entry_size (ftype s)"
  shows "q div 512 < unat (fat_size s)"
proof -
  have "q < unat (fat_size s) * 512"
    using entry_fits(2) [OF assms(1,2)] assms(3) by linarith
  then show ?thesis
    by (rule less_mult_imp_div_less)
qed

text \<open>The value of an entry in copy \<open>i\<close> of the table, and the effect of \<open>fat_set\<close>: the entry is replaced in the
  copies \<open>I\<close>, everything else on the disk is as before.\<close>

definition copy_val :: "'d fat \<Rightarrow> (u32 \<Rightarrow> bytes) \<Rightarrow> nat \<Rightarrow> u32 \<Rightarrow> u32" where
  "copy_val s D i c = fat_val (ftype s) (table_byte D (copy_base s i)) (unat c)"

definition fat_end :: "'d fat \<Rightarrow> nat" where
  "fat_end s = unat (reserved_sectors (bpb s)) + unat (fat_count (bpb s)) * unat (fat_size s)"

definition table_set :: "'d fat \<Rightarrow> nat set \<Rightarrow> u32 \<Rightarrow> u32 \<Rightarrow> (u32 \<Rightarrow> bytes) \<Rightarrow> (u32 \<Rightarrow> bytes) \<Rightarrow> bool" where
  "table_set s I c v D D' \<longleftrightarrow>
     (\<forall>i c'. i < unat (fat_count (bpb s)) \<longrightarrow> in_table s c' \<longrightarrow> copy_val s D' i c' =
        (if i \<in> I \<and> c' = c then v AND entry_mask (ftype s) else copy_val s D i c')) \<and>
     (\<forall>l. unat l < unat (reserved_sectors (bpb s)) \<or> fat_end s \<le> unat l \<longrightarrow> D' l = D l)"

lemma table_val_copy: "table_val s D c = copy_val s D 0 c"
  by (simp add: table_val_def copy_val_def)

lemma copies_apart:
  assumes g: "geo_ok s" and i: "i < unat (fat_count (bpb s))" and j: "j < unat (fat_count (bpb s))" and ne: "i \<noteq> j"
    and k: "k < unat (fat_size s)"
  shows "unat (copy_base s j + of_nat k) < unat (copy_base s i) \<or>
    unat (copy_base s i) + unat (fat_size s) \<le> unat (copy_base s j + of_nat k)"
proof -
  let ?F = "unat (fat_size s)"
  have j': "unat (copy_base s j) + ?F \<le> 2 ^ 28"
    using copy_base_unat(2) [OF g j] geo_bounds(2) [OF g] by linarith
  have e: "unat (copy_base s j + of_nat k) = unat (copy_base s j) + k"
    by (rule unat_add_of_nat) (use j' k in simp)
  have "(j + 1) * ?F \<le> i * ?F \<or> (i + 1) * ?F \<le> j * ?F"
    using ne by (cases "j < i") (auto intro!: disjI1 disjI2 mult_le_mono1 simp del: mult_Suc add_Suc_right)
  then show ?thesis
    unfolding e copy_base_unat(1) [OF g i] copy_base_unat(1) [OF g j] using k by (simp add: distrib_right) linarith
qed

lemma copy_set_table:
  assumes g: "geo_ok s" and c: "in_table s c" and i: "i < unat (fat_count (bpb s))"
    and cs: "copy_set s (copy_base s i) c v D D'"
  shows "table_set s {i} c v D D'"
proof -
  have "copy_val s D' j c' = (if j = i \<and> c' = c then v AND entry_mask (ftype s) else copy_val s D j c')"
    if j: "j < unat (fat_count (bpb s))" and c': "in_table s c'" for j c'
  proof (cases "j = i")
    case True
    have "copy_val s D' i c' = fat_val (ftype s) (set_bytes (ftype s) (unat c) v (table_byte D (copy_base s i))) (unat c')"
      unfolding copy_val_def
      by (rule fat_val_cong) (use cs entry_byte_sector [OF g c'] in \<open>simp add: copy_set_def\<close>)
    then show ?thesis
      using True by (cases "c' = c") (simp_all add: fat_val_set copy_val_def word_unat_ne)
  next
    case False
    have keep: "D' l = D l" if "unat l < unat (copy_base s i) \<or> unat (copy_base s i) + unat (fat_size s) \<le> unat l" for l
      using cs that unfolding copy_set_def by blast
    have "table_byte D' (copy_base s j) q = table_byte D (copy_base s j) q" if "q div 512 < unat (fat_size s)" for q
      unfolding table_byte_def using keep [OF copies_apart [OF g i j False [symmetric] that]] by simp
    then have "copy_val s D' j c' = copy_val s D j c'"
      unfolding copy_val_def by (intro fat_val_cong) (use entry_byte_sector [OF g c'] in blast)
    then show ?thesis
      using False by simp
  qed
  moreover have "unat (reserved_sectors (bpb s)) \<le> unat (copy_base s i)" "unat (copy_base s i) + unat (fat_size s) \<le> fat_end s"
    using copy_base_unat [OF g i] by (simp_all add: fat_end_def)
  ultimately show ?thesis
    using cs by (auto simp: table_set_def copy_set_def)
qed

lemma table_set_trans:
  "table_set s I c v D D' \<Longrightarrow> table_set s J c v D' D'' \<Longrightarrow> table_set s (I \<union> J) c v D D''"
  unfolding table_set_def by auto

context ready_disk
begin

lemma fat_set_loop_spec:
  assumes "vol_ok view a s" "geo_ok s" "in_table s c" "\<forall>i \<in> set is. i < unat (fat_count (bpb s))"
  shows "\<exists>s' D'. fat_set_loop b c v is s = Some (True, s') \<and> vol_step view a s D' s' \<and> table_set s (set is) c v (disk_of view a s) D'"
  using assms
proof (induction "is" arbitrary: s)
  case Nil
  then show ?case
    by (intro exI [of _ s] exI [of _ "disk_of view a s"]) (simp add: vol_step_def table_set_def)
next
  case (Cons i js)
  have i: "i < unat (fat_count (bpb s))"
    using Cons.prems by simp
  obtain s1 D1 where r: "fat_set_copy b (copy_base s i) c v s = Some (True, s1)" and st: "vol_step view a s D1 s1"
    and cs: "copy_set s (copy_base s i) c v (disk_of view a s) D1"
    by (rule fat_set_copy_spec [OF Cons.prems(1-3) i])
  note f = vol_step_fields [OF st]
  have "vol_ok view a s1" "geo_ok s1" "in_table s1 c" "\<forall>i \<in> set js. i < unat (fat_count (bpb s1))"
    using Cons.prems f by simp_all
  from Cons.IH [OF this] obtain s2 D2 where l: "fat_set_loop b c v js s1 = Some (True, s2)" and st2: "vol_step view a s1 D2 s2"
    and ts: "table_set s1 (set js) c v (disk_of view a s1) D2"
    by blast
  have "table_set s (set js) c v D1 D2"
    using ts f(17) by (simp add: table_set_def copy_val_def fat_end_def f(1-3,12,13))
  from table_set_trans [OF copy_set_table [OF Cons.prems(2,3) i cs] this]
  have "table_set s (set (i # js)) c v (disk_of view a s) D2"
    by simp
  then show ?case
    using r l vol_step_trans [OF st st2] by (auto simp: copy_base_def)
qed

lemma fat_set_spec:
  assumes "vol_ok view a s" "geo_ok s" "in_table s c"
  obtains s' D' where "fat_set b c v s = Some (True, s')" "vol_step view a s D' s'"
    "table_set s {0..<unat (fat_count (bpb s))} c v (disk_of view a s) D'"
  using fat_set_loop_spec [OF assms, of "[0..<unat (fat_count (bpb s))]" v] that by (auto simp: fat_set_def)

end

end
