(* ===== verification/FatChain.thy ===== *)
theory FatChain
  imports FatTable
begin

text \<open>
  Cluster chains of the FAT file system (fat.c): what \<open>fsinfo_adjust\<close>, \<open>free_chain\<close> and \<open>alloc_cluster\<close> do to a volume on a
  working drive. Each is described by an update of the allocation table, in all its copies, and by the sectors it may change.
  \<open>free_chain\<close> returns on every table, cyclic ones included, since each round frees a cluster.
\<close>

unbundle bit_operations_syntax

section \<open>Volumes\<close>

lemma unat_up16 [simp]: "unat (ucast w :: u32) = unat w" for w :: u16
  using unsigned_less [of w, where ?'a = nat] by (simp add: unsigned_ucast_eq take_bit_nat_eq_self_iff)

lemma unat_up8 [simp]: "unat (ucast w :: u32) = unat w" for w :: u8
  using unsigned_less [of w, where ?'a = nat] by (simp add: unsigned_ucast_eq take_bit_nat_eq_self_iff)

text \<open>A cluster that the code accepts as data lies in the table and in the data area.\<close>

lemma valid_cluster:
  assumes g: "geo_ok s"
  shows "valid_data_cluster c s \<longleftrightarrow> 2 \<le> unat c \<and> in_table s c"
proof -
  have "unat (cluster_count s + 2) = unat (cluster_count s) + 2"
    using geo_bounds(1) [OF g] unat_add_of_nat [of "cluster_count s" 2] by simp
  then show ?thesis
    by (simp add: valid_data_cluster_def in_table_def word_le_nat_alt word_less_nat_alt)
qed

text \<open>No entry of the table crosses a sector boundary: FAT16, FAT32, and FAT12 with less than 340 clusters.\<close>

definition no_crossing :: "'d fat \<Rightarrow> bool" where
  "no_crossing s \<longleftrightarrow> ftype s = FAT_TYPE_12 \<longrightarrow> unat (cluster_count s) < 340"

lemma no_crossing_entry: "no_crossing s \<Longrightarrow> in_table s c \<Longrightarrow> \<not> crosses (ftype s) (unat c)"
proof
  assume n: "no_crossing s" and c: "in_table s c" and x: "crosses (ftype s) (unat c)"
  then have "unat c < 341" "(unat c + unat c div 2) mod 512 = 511"
    by (auto simp: no_crossing_def in_table_def crosses_def entry_pos_def)
  moreover from this(1) have "unat c + unat c div 2 < 511"
    by simp
  ultimately show False
    by simp
qed

text \<open>A volume on a working drive: \<open>mount_drive\<close> calls it FAT16 only below 65525 clusters.\<close>

definition fs_ok :: "('d \<Rightarrow> drive_view) \<Rightarrow> ata_state \<Rightarrow> 'd fat \<Rightarrow> bool" where
  "fs_ok view a s \<longleftrightarrow> vol_ok view a s \<and> geo_ok s \<and> no_crossing s \<and>
     (ftype s = FAT_TYPE_16 \<longrightarrow> unat (cluster_count s) < 65525)"

lemma vol_step_fs_ok: "vol_step view a s D s' \<Longrightarrow> fs_ok view a s \<Longrightarrow> fs_ok view a s'"
  using vol_step_fields [of view a s D s'] by (simp add: fs_ok_def no_crossing_def)

lemma vol_step_views:
  assumes "vol_step view a s D s'"
  shows "table_val s' = table_val s" "no_crossing s' = no_crossing s" "table_set s' = table_set s" "fat_end s' = fat_end s"
  using vol_step_fields [OF assms]
  by (simp_all add: fun_eq_iff table_val_def no_crossing_def table_set_def copy_val_def fat_end_def)

context ready_disk
begin

lemma fsinfo_sector_spec:
  assumes ok: "vol_ok view a s"
  obtains s' D' where "fsinfo_adjust_sector b l delta next_free s = Some s'" "vol_step view a s D' s'"
    "\<forall>l. unat (reserved_sectors (bpb s)) \<le> unat l \<longrightarrow> D' l = disk_of view a s l"
proof (cases "ftype s \<noteq> FAT_TYPE_32 \<or> l \<ge> ucast (reserved_sectors (bpb s))")
  case True
  then show thesis
    using ok by (intro that [of s "disk_of view a s"]) (auto simp: fsinfo_adjust_sector_def vol_step_def)
next
  case False
  have l: "unat l < unat (reserved_sectors (bpb s))"
    using False by (simp add: word_le_nat_alt)
  then have l28: "l < 0x10000000"
    using unsigned_less [of "reserved_sectors (bpb s)", where ?'a = nat] by (simp add: word_less_nat_alt)
  obtain s1 where r: "rd_sector b l s = Some (Some (disk_of view a s l), s1)" and st: "vol_step view a s (disk_of view a s) s1"
    by (rule rd_vol [OF ok l28])
  note f = vol_step_fields [OF st]
  define d where "d = disk_of view a s l"
  show thesis
  proof (cases "get32 d 0 \<noteq> 0x41615252 \<or> get32 d 484 \<noteq> 0x61417272 \<or> get32 d 508 \<noteq> 0xAA550000")
    case True
    then show thesis
      using r st False by (intro that [of s1 "disk_of view a s"]) (auto simp: fsinfo_adjust_sector_def d_def)
  next
    case nomagic: False
    define d2 where "d2 = put32 492 (if next_free < cluster_count s + 2 then next_free else 2)
      (if get32 d 488 \<noteq> 0xFFFFFFFF then put32 488 (get32 d 488 + of_int delta) d else d)"
    have len: "length d2 = 512"
      using disk_length [OF ok, of l] by (simp add: d2_def d_def)
    obtain s2 where w: "wr_sector b l d2 s1 = (True, s2)" and st2: "vol_step view a s1 ((disk_of view a s)(l := d2)) s2"
      using wr_vol [OF f(16) l28 len] f(17) by auto
    show thesis
    proof (rule that [of s2 "(disk_of view a s)(l := d2)"])
      show "fsinfo_adjust_sector b l delta next_free s = Some s2"
        using False nomagic r w unfolding fsinfo_adjust_sector_def d2_def d_def by simp
      show "vol_step view a s ((disk_of view a s)(l := d2)) s2"
        by (rule vol_step_trans [OF st st2])
    qed (use l in auto)
  qed
qed

lemma fsinfo_adjust_spec:
  assumes ok: "vol_ok view a s"
  obtains s' D' where "fsinfo_adjust b delta next_free s = Some s'" "vol_step view a s D' s'"
    "\<forall>l. unat (reserved_sectors (bpb s)) \<le> unat l \<longrightarrow> D' l = disk_of view a s l"
proof (cases "ftype s \<noteq> FAT_TYPE_32 \<or> fsinfo_sector s = 0 \<or> fsinfo_sector s = 0xFFFF")
  case True
  then show thesis
    using ok by (intro that [of s "disk_of view a s"]) (auto simp: fsinfo_adjust_def vol_step_def)
next
  case False
  obtain s1 D1 where r: "fsinfo_adjust_sector b (ucast (fsinfo_sector s)) delta next_free s = Some s1" and st: "vol_step view a s D1 s1"
    and k: "\<forall>l. unat (reserved_sectors (bpb s)) \<le> unat l \<longrightarrow> D1 l = disk_of view a s l"
    by (rule fsinfo_sector_spec [OF ok, of "ucast (fsinfo_sector s)" delta next_free])
  note f = vol_step_fields [OF st]
  show thesis
  proof (cases "backup_boot_sector s \<noteq> 0 \<and> backup_boot_sector s \<noteq> 0xFFFF")
    case True
    obtain s2 D2 where r2: "fsinfo_adjust_sector b (ucast (backup_boot_sector s) + 1) delta next_free s1 = Some s2"
      and st2: "vol_step view a s1 D2 s2" and k2: "\<forall>l. unat (reserved_sectors (bpb s)) \<le> unat l \<longrightarrow> D2 l = D1 l"
      using fsinfo_sector_spec [OF f(16), of "ucast (backup_boot_sector s) + 1" delta next_free] unfolding f(1,17) by metis
    show thesis
      using False True r r2 vol_step_trans [OF st st2] k k2
      by (intro that [of s2 D2]) (auto simp: fsinfo_adjust_def)
  next
    case nobackup: False
    show thesis
      using False nobackup r st k by (intro that [of s1 D1]) (auto simp: fsinfo_adjust_def)
  qed
qed

end
section \<open>Freeing a chain\<close>

text \<open>Updates of the table: the entries in the domain of \<open>f\<close> are replaced in every copy, the directory and data areas are as before.\<close>

definition table_upd :: "'d fat \<Rightarrow> (u32 \<rightharpoonup> u32) \<Rightarrow> (u32 \<Rightarrow> bytes) \<Rightarrow> (u32 \<Rightarrow> bytes) \<Rightarrow> bool" where
  "table_upd s f D D' \<longleftrightarrow>
     (\<forall>i x. i < unat (fat_count (bpb s)) \<longrightarrow> in_table s x \<longrightarrow>
        copy_val s D' i x = (case f x of None \<Rightarrow> copy_val s D i x | Some v \<Rightarrow> v AND entry_mask (ftype s))) \<and>
     (\<forall>l. fat_end s \<le> unat l \<longrightarrow> D' l = D l)"

lemma table_upd_val:
  assumes "table_upd s f D D'" "geo_ok s" "in_table s x"
  shows "table_val s D' x = (case f x of None \<Rightarrow> table_val s D x | Some v \<Rightarrow> v AND entry_mask (ftype s))"
  using assms unfolding table_val_copy by (simp add: table_upd_def geo_ok_def)

lemma table_upd_area: "table_upd s f D D' \<Longrightarrow> fat_end s \<le> unat l \<Longrightarrow> D' l = D l"
  by (simp add: table_upd_def)

lemma table_upd_refl: "table_upd s Map.empty D D"
  by (simp add: table_upd_def)

lemma table_upd_trans: "table_upd s f D D' \<Longrightarrow> table_upd s g D' D'' \<Longrightarrow> table_upd s (f ++ g) D D''"
  by (simp add: table_upd_def map_add_def split: option.splits)

lemma copy_val_cong:
  assumes g: "geo_ok s" and i: "i < unat (fat_count (bpb s))" and c: "in_table s c"
    and eq: "\<And>l. unat (reserved_sectors (bpb s)) \<le> unat l \<Longrightarrow> unat l < fat_end s \<Longrightarrow> D' l = D l"
  shows "copy_val s D' i c = copy_val s D i c"
  unfolding copy_val_def
proof (rule fat_val_cong)
  fix q
  assume "q < entry_pos (ftype s) (unat c) + entry_size (ftype s)"
  then have k: "q div 512 < unat (fat_size s)"
    by (rule entry_byte_sector [OF g c])
  have "unat (copy_base s i) + q div 512 < 2 ^ 32"
    using copy_base_unat(2) [OF g i] geo_bounds(2) [OF g] k by simp
  then have "unat (copy_base s i + of_nat (q div 512)) = unat (copy_base s i) + q div 512"
    by (intro unat_add_of_nat) simp
  then show "table_byte D' (copy_base s i) q = table_byte D (copy_base s i) q"
    using copy_base_unat [OF g i] k eq [of "copy_base s i + of_nat (q div 512)"] by (simp add: table_byte_def fat_end_def)
qed

lemma table_upd_reserved:
  assumes g: "geo_ok s" and eq: "\<forall>l. unat (reserved_sectors (bpb s)) \<le> unat l \<longrightarrow> D' l = D l"
  shows "table_upd s Map.empty D D'"
proof -
  have "unat (reserved_sectors (bpb s)) \<le> fat_end s"
    by (simp add: fat_end_def)
  then show ?thesis
    using eq copy_val_cong [OF g, of _ _ D' D] by (auto simp: table_upd_def)
qed

lemma table_set_upd: "table_set s {0..<unat (fat_count (bpb s))} c v D D' \<Longrightarrow> table_upd s [c \<mapsto> v] D D'"
  by (auto simp: table_set_def table_upd_def)

lemma vol_step_upd:
  assumes "vol_step view a s D s'"
  shows "table_upd s' = table_upd s"
  unfolding fun_eq_iff table_upd_def copy_val_def fat_end_def vol_step_fields [OF assms] by blast

text \<open>The links that \<open>free_chain\<close> follows, and the clusters it visits.\<close>

definition chain_step :: "'d fat \<Rightarrow> (u32 \<Rightarrow> bytes) \<Rightarrow> u32 \<Rightarrow> u32 \<Rightarrow> bool" where
  "chain_step s D c c' \<longleftrightarrow>
     valid_data_cluster c s \<and> c' = table_val s D c \<and> \<not> is_eoc (ftype s) c' \<and> 2 \<le> c'"

definition chain_set :: "'d fat \<Rightarrow> (u32 \<Rightarrow> bytes) \<Rightarrow> u32 \<Rightarrow> u32 set" where
  "chain_set s D c = {x. (chain_step s D)\<^sup>*\<^sup>* c x \<and> valid_data_cluster x s}"

definition freeing :: "u32 set \<Rightarrow> u32 \<rightharpoonup> u32" where
  "freeing X x = (if x \<in> X then Some 0 else None)"

lemma freeing_single: "[c \<mapsto> 0] = freeing {c}"
  by (auto simp: freeing_def)

lemma freeing_un: "freeing X ++ freeing Y = freeing (X \<union> Y)"
  by (auto simp: freeing_def map_add_def split: option.splits)

text \<open>Once \<open>c\<close> is free, the rest of its chain is what its old successor reaches.\<close>

lemma chain_set_step:
  assumes g: "geo_ok s" and v: "valid_data_cluster c s" and u: "table_upd s [c \<mapsto> 0] D D'" and st: "chain_step s D c n"
  shows "chain_set s D c = insert c (chain_set s D' n)"
proof -
  have other: "table_val s D' x = table_val s D x" if "x \<noteq> c" "valid_data_cluster x s" for x
    using table_upd_val [OF u g, of x] that by (simp add: valid_cluster [OF g])
  have zero: "table_val s D' c = 0"
    using table_upd_val [OF u g, of c] v by (simp add: valid_cluster [OF g])
  have fwd: "x = c \<or> (chain_step s D')\<^sup>*\<^sup>* n x" if "(chain_step s D)\<^sup>*\<^sup>* c x" for x
    using that
  proof induction
    case (step y z)
    show ?case
    proof (cases "y = c")
      case True
      then show ?thesis
        using step.hyps(2) st by (auto simp: chain_step_def)
    next
      case False
      then have "chain_step s D' y z"
        using step.hyps(2) other [of y] by (auto simp: chain_step_def)
      then show ?thesis
        using step.IH False by (auto intro: rtranclp.rtrancl_into_rtrancl)
    qed
  qed simp
  have bwd: "(chain_step s D)\<^sup>*\<^sup>* n x" if "(chain_step s D')\<^sup>*\<^sup>* n x" for x
    using that
  proof induction
    case (step y z)
    then have "y \<noteq> c"
      using zero by (auto simp: chain_step_def)
    then have "chain_step s D y z"
      using step.hyps(2) other [of y] by (auto simp: chain_step_def)
    then show ?case
      using step.IH by (auto intro: rtranclp.rtrancl_into_rtrancl)
  qed simp
  show ?thesis
    using fwd bwd v st by (auto simp: chain_set_def intro: converse_rtranclp_into_rtranclp)
qed

lemma chain_set_last:
  assumes "valid_data_cluster c s" "is_eoc (ftype s) (table_val s D c) \<or> table_val s D c < 2"
  shows "chain_set s D c = {c}"
proof -
  have "\<not> chain_step s D c x" for x
    using assms(2) by (auto simp: chain_step_def)
  then have "x = c" if "(chain_step s D)\<^sup>*\<^sup>* c x" for x
    using that by (metis converse_rtranclpE)
  then show ?thesis
    using assms(1) by (auto simp: chain_set_def)
qed

lemma chain_set_invalid: "\<not> valid_data_cluster c s \<Longrightarrow> chain_set s D c = {}"
  by (auto simp: chain_set_def chain_step_def elim: converse_rtranclpE)

definition used_clusters :: "'d fat \<Rightarrow> (u32 \<Rightarrow> bytes) \<Rightarrow> u32 set" where
  "used_clusters s D = {x. valid_data_cluster x s \<and> table_val s D x \<noteq> 0}"

lemma used_clusters_free:
  assumes g: "geo_ok s" and v: "valid_data_cluster c s" and u: "table_upd s [c \<mapsto> 0] D D'"
  shows "used_clusters s D' = used_clusters s D - {c}"
  using table_upd_val [OF u g] v by (auto simp: used_clusters_def valid_cluster [OF g] split: if_splits)

context ready_disk
begin

lemma get_entry:
  assumes "fs_ok view a s" "in_table s c"
  obtains s' where "fat_get b c s = Some (table_val s (disk_of view a s) c, s')" "vol_step view a s (disk_of view a s) s'"
  using fat_get_spec [of s c thesis] assms no_crossing_entry [of s c] by (auto simp: fs_ok_def)

lemma set_entry:
  assumes "fs_ok view a s" "in_table s c"
  obtains s' D' where "fat_set b c v s = Some (True, s')" "vol_step view a s D' s'" "table_upd s [c \<mapsto> v] (disk_of view a s) D'"
  using fat_set_spec [of s c v thesis] assms table_set_upd [of s c v "disk_of view a s"] by (auto simp: fs_ok_def)

lemma adjust_info:
  assumes "fs_ok view a s"
  obtains s' D' where "fsinfo_adjust b delta next_free s = Some s'" "vol_step view a s D' s'"
    "table_upd s Map.empty (disk_of view a s) D'"
  using fsinfo_adjust_spec [of s delta next_free thesis] assms table_upd_reserved [of s _ "disk_of view a s"] by (auto simp: fs_ok_def)

text \<open>One round of the loop of \<open>free_chain\<close>.\<close>

lemma free_one:
  assumes ok: "fs_ok view a s" and v: "valid_data_cluster c s"
  obtains s1 s2 s3 D' where "fat_get b c s = Some (table_val s (disk_of view a s) c, s1)" "fat_set b c 0 s1 = Some (True, s2)"
    "fsinfo_adjust b 1 c s2 = Some s3" "vol_step view a s D' s3" "table_upd s [c \<mapsto> 0] (disk_of view a s) D'"
proof -
  have it: "in_table s c"
    using ok v valid_cluster [of s c] by (simp add: fs_ok_def)
  obtain s1 where 1: "fat_get b c s = Some (table_val s (disk_of view a s) c, s1)" and t1: "vol_step view a s (disk_of view a s) s1"
    by (rule get_entry [OF ok it])
  note f1 = vol_step_fields [OF t1]
  obtain s2 D2 where 2: "fat_set b c 0 s1 = Some (True, s2)" and t2: "vol_step view a s1 D2 s2"
    and u2: "table_upd s1 [c \<mapsto> 0] (disk_of view a s1) D2"
    using set_entry [OF vol_step_fs_ok [OF t1 ok], of c 0] it f1(12) by blast
  note t12 = vol_step_trans [OF t1 t2]
  note f2 = vol_step_fields [OF t2]
  obtain s3 D3 where 3: "fsinfo_adjust b 1 c s2 = Some s3" and t3: "vol_step view a s2 D3 s3"
    and u3: "table_upd s2 Map.empty (disk_of view a s2) D3"
    using adjust_info [OF vol_step_fs_ok [OF t12 ok], of 1 c] by blast
  have "table_upd s [c \<mapsto> 0] (disk_of view a s) D3"
    using table_upd_trans [of s "[c \<mapsto> 0]" _ D2 Map.empty D3] u2 u3 vol_step_upd [OF t1] vol_step_upd [OF t12] f1(17) f2(17)
    by simp
  then show thesis
    by (rule that [OF 1 2 3 vol_step_trans [OF t12 t3]])
qed

lemma free_chain_spec:
  assumes "fs_ok view a s"
  shows "\<exists>s' D'. free_chain b c s = Some s' \<and> vol_step view a s D' s' \<and>
    table_upd s (freeing (chain_set s (disk_of view a s) c)) (disk_of view a s) D'"
  using assms
proof (induction "card (used_clusters s (disk_of view a s))" arbitrary: c s rule: less_induct)
  case less
  let ?D = "disk_of view a s" and ?n = "table_val s (disk_of view a s) c"
  have g: "geo_ok s"
    using less.prems by (simp add: fs_ok_def)
  show ?case
  proof (cases "valid_data_cluster c s")
    case False
    then show ?thesis
      using less.prems table_upd_refl [of s ?D]
      by (intro exI [of _ s] exI [of _ ?D])
        (auto simp: free_chain.simps [of b c s] valid_data_cluster_def chain_set_invalid freeing_def [abs_def] vol_step_def fs_ok_def)
  next
    case v: True
    obtain s1 s2 s3 D' where 1: "fat_get b c s = Some (?n, s1)" and 2: "fat_set b c 0 s1 = Some (True, s2)"
      and 3: "fsinfo_adjust b 1 c s2 = Some s3" and t: "vol_step view a s D' s3" and u: "table_upd s [c \<mapsto> 0] ?D D'"
      by (rule free_one [OF less.prems v])
    have run: "free_chain b c s = (if is_eoc (ftype s) ?n \<or> ?n < 2 then Some s3 else free_chain b ?n s3)"
      using v 1 2 3 by (simp add: free_chain.simps [of b c s] valid_data_cluster_def)
    show ?thesis
    proof (cases "is_eoc (ftype s) ?n \<or> ?n < 2")
      case True
      then show ?thesis
        using run t u chain_set_last [OF v True] by (auto simp: freeing_single)
    next
      case False
      note f = vol_step_fields [OF t]
      have st: "chain_step s ?D c ?n"
        using False v by (simp add: chain_step_def not_less)
      have "?n \<noteq> 0"
        using False by auto
      then have "card (used_clusters s D') < card (used_clusters s ?D)"
        unfolding used_clusters_free [OF g v u] using v by (intro card_Diff1_less) (simp_all add: used_clusters_def)
      moreover have views: "used_clusters s3 = used_clusters s" "chain_set s3 = chain_set s" "table_upd s3 = table_upd s"
        using f vol_step_views [OF t] vol_step_upd [OF t]
        by (simp_all add: used_clusters_def [abs_def] chain_set_def [abs_def] chain_step_def [abs_def])
      ultimately obtain s' D'' where r: "free_chain b ?n s3 = Some s'" and t': "vol_step view a s3 D'' s'"
        and u': "table_upd s (freeing (chain_set s D' ?n)) D' D''"
        using less.hyps [of s3 ?n] vol_step_fs_ok [OF t less.prems] f(17) by auto
      have "table_upd s (freeing (chain_set s ?D c)) ?D D''"
        using table_upd_trans [OF u u'] by (simp add: freeing_single freeing_un chain_set_step [OF g v u st])
      then show ?thesis
        using run r False vol_step_trans [OF t t'] by auto
    qed
  qed
qed

end

section \<open>Allocating a cluster\<close>

definition spc :: "'d fat \<Rightarrow> nat" where
  "spc s = unat (sectors_per_cluster (bpb s))"

definition cluster_area :: "'d fat \<Rightarrow> u32 \<Rightarrow> u32 set" where
  "cluster_area s c = {cluster_sector c s + of_nat i | i. i < spc s}"

lemma sector_in_area: "i < spc s \<Longrightarrow> cluster_sector c s + of_nat i \<in> cluster_area s c"
  by (auto simp: cluster_area_def)

lemma cluster_sector_unat:
  assumes g: "geo_ok s" and v: "valid_data_cluster c s" and i: "i < spc s"
  shows "unat (cluster_sector c s + of_nat i) = unat (first_data s) + (unat c - 2) * spc s + i"
    "cluster_sector c s + of_nat i < 0x10000000"
proof -
  have c: "2 \<le> unat c" "unat c < unat (cluster_count s) + 2"
    using v by (simp_all add: valid_cluster [OF g] in_table_def)
  then have "(unat c - 2 + 1) * spc s \<le> unat (cluster_count s) * spc s"
    by (intro mult_le_mono1) simp
  then have b: "unat (first_data s) + (unat c - 2) * spc s + i < 2 ^ 28"
    using g i unfolding geo_ok_def spc_def by (simp add: distrib_right)
  have "c - 2 = of_nat (unat c - 2)"
    using c(1) by (simp add: of_nat_diff)
  then have "cluster_sector c s + of_nat i = of_nat (unat (first_data s) + (unat c - 2) * spc s + i)"
    by (simp add: cluster_sector_def spc_def)
  then show e: "unat (cluster_sector c s + of_nat i) = unat (first_data s) + (unat c - 2) * spc s + i"
    using b by (simp only: unat_of_nat) simp
  show "cluster_sector c s + of_nat i < 0x10000000"
    using b e by (simp add: word_less_nat_alt)
qed

lemma cluster_area_ge:
  assumes "geo_ok s" "valid_data_cluster c s" "l \<in> cluster_area s c"
  shows "unat (first_data s) \<le> unat l" "fat_end s \<le> unat l"
  using assms cluster_sector_unat(1) [OF assms(1,2)] by (auto simp: cluster_area_def fat_end_def geo_ok_def)

lemma cluster_area_disjoint:
  assumes g: "geo_ok s" and v: "valid_data_cluster c s" "valid_data_cluster c' s" and ne: "c \<noteq> c'"
  shows "cluster_area s c \<inter> cluster_area s c' = {}"
proof -
  have "False" if i: "i < spc s" "j < spc s" and eq: "cluster_sector c s + of_nat i = cluster_sector c' s + of_nat j" for i j
  proof -
    have "(unat c - 2) * spc s + i = (unat c' - 2) * spc s + j"
      using arg_cong [OF eq, of unat] cluster_sector_unat(1) [OF g v(1) i(1)] cluster_sector_unat(1) [OF g v(2) i(2)] by simp
    from arg_cong [OF this, of "\<lambda>x. x div spc s"] have "unat c - 2 = unat c' - 2"
      using i by simp
    then show False
      using v word_unat_ne [OF ne] unfolding valid_cluster [OF g] by linarith
  qed
  then show ?thesis
    by (auto simp: cluster_area_def)
qed

text \<open>Updates of a volume: table entries, and the sectors of the clusters \<open>X\<close>.\<close>

definition vol_upd :: "'d fat \<Rightarrow> (u32 \<rightharpoonup> u32) \<Rightarrow> u32 set \<Rightarrow> (u32 \<Rightarrow> bytes) \<Rightarrow> (u32 \<Rightarrow> bytes) \<Rightarrow> bool" where
  "vol_upd s f X D D' \<longleftrightarrow>
     (\<forall>i x. i < unat (fat_count (bpb s)) \<longrightarrow> in_table s x \<longrightarrow>
        copy_val s D' i x = (case f x of None \<Rightarrow> copy_val s D i x | Some v \<Rightarrow> v AND entry_mask (ftype s))) \<and>
     (\<forall>l. fat_end s \<le> unat l \<longrightarrow> l \<notin> (\<Union>c\<in>X. cluster_area s c) \<longrightarrow> D' l = D l)"

lemma table_upd_vol: "table_upd s f D D' \<Longrightarrow> vol_upd s f X D D'"
  by (simp add: table_upd_def vol_upd_def)

lemma vol_upd_val:
  assumes "vol_upd s f X D D'" "geo_ok s" "in_table s x"
  shows "table_val s D' x = (case f x of None \<Rightarrow> table_val s D x | Some v \<Rightarrow> v AND entry_mask (ftype s))"
  using assms unfolding table_val_copy by (simp add: vol_upd_def geo_ok_def)

lemma vol_upd_area: "vol_upd s f X D D' \<Longrightarrow> fat_end s \<le> unat l \<Longrightarrow> l \<notin> (\<Union>c\<in>X. cluster_area s c) \<Longrightarrow> D' l = D l"
  by (simp add: vol_upd_def)

lemma vol_upd_trans: "vol_upd s f X D D' \<Longrightarrow> vol_upd s g Y D' D'' \<Longrightarrow> vol_upd s (f ++ g) (X \<union> Y) D D''"
  by (simp add: vol_upd_def map_add_def split: option.splits)

lemma vol_upd_sector:
  assumes g: "geo_ok s" and v: "valid_data_cluster c s" and l: "l \<in> cluster_area s c"
  shows "vol_upd s Map.empty {c} D (D(l := x))"
proof -
  have "copy_val s (D(l := x)) i y = copy_val s D i y" if "i < unat (fat_count (bpb s))" "in_table s y" for i y
    by (rule copy_val_cong [OF g that]) (use cluster_area_ge(2) [OF g v l] in auto)
  then show ?thesis
    using l by (auto simp: vol_upd_def)
qed

lemma vol_step_areas:
  assumes "vol_step view a s D s'"
  shows "spc s' = spc s" "cluster_area s' = cluster_area s" "vol_upd s' = vol_upd s"
  unfolding fun_eq_iff vol_upd_def spc_def cluster_area_def copy_val_def fat_end_def vol_step_fields [OF assms] by blast+

text \<open>The content of a cluster that an update does not touch.\<close>

lemma vol_upd_cluster:
  assumes "geo_ok s" "vol_upd s f X D D'" "valid_data_cluster c s" "\<forall>x\<in>X. valid_data_cluster x s" "c \<notin> X" "i < spc s"
  shows "D' (cluster_sector c s + of_nat i) = D (cluster_sector c s + of_nat i)"
proof (rule vol_upd_area [OF assms(2)])
  have l: "cluster_sector c s + of_nat i \<in> cluster_area s c"
    using assms(6) by (auto simp: cluster_area_def)
  show "fat_end s \<le> unat (cluster_sector c s + of_nat i)"
    by (rule cluster_area_ge(2) [OF assms(1,3) l])
  show "cluster_sector c s + of_nat i \<notin> (\<Union>c\<in>X. cluster_area s c)"
    using l assms cluster_area_disjoint [OF assms(1,3)] by fastforce
qed

lemma cluster_sector_inj:
  assumes "geo_ok s" "valid_data_cluster c s" "i < spc s" "j < spc s"
  shows "cluster_sector c s + of_nat i = cluster_sector c s + of_nat j \<longleftrightarrow> i = j"
proof
  assume "cluster_sector c s + of_nat i = cluster_sector c s + of_nat j"
  from arg_cong [OF this, of unat] show "i = j"
    unfolding cluster_sector_unat(1) [OF assms(1,2,3)] cluster_sector_unat(1) [OF assms(1,2,4)] by (rule add_left_imp_eq)
qed simp

definition zero_sector :: bytes where
  "zero_sector = replicate 512 0"

lemma length_zero_sector [simp]: "length zero_sector = 512"
  by (simp only: zero_sector_def length_replicate)

lemmas zero_sectors_fold = zero_sectors.simps [folded zero_sector_def]

lemma eoc_masked: "eoc_value t AND entry_mask t = eoc_value t" "is_eoc t (eoc_value t)" "eoc_value t \<noteq> 0"
  by (simp_all add: eoc_value_def entry_mask_def is_eoc_def)

context ready_disk
begin

lemma zero_sectors_spec:
  assumes "fs_ok view a s" "valid_data_cluster c s" "\<forall>i \<in> set is. i < spc s"
  shows "\<exists>s' D'. zero_sectors b (cluster_sector c s) is s = (True, s') \<and> vol_step view a s D' s' \<and>
    vol_upd s Map.empty {c} (disk_of view a s) D' \<and>
    (\<forall>i < spc s. D' (cluster_sector c s + of_nat i) = (if i \<in> set is then zero_sector else disk_of view a s (cluster_sector c s + of_nat i)))"
  using assms
proof (induction "is" arbitrary: s)
  case Nil
  then show ?case
    by (intro exI [of _ s] exI [of _ "disk_of view a s"]) (simp add: vol_step_def fs_ok_def vol_upd_def)
next
  case (Cons i js)
  let ?D = "disk_of view a s" and ?z = zero_sector and ?l = "\<lambda>i. cluster_sector c s + of_nat i"
  have g: "geo_ok s" and i: "i < spc s" and v: "vol_ok view a s"
    using Cons.prems by (simp_all add: fs_ok_def)
  have area: "?l i \<in> cluster_area s c"
    using i by (auto simp: cluster_area_def)
  obtain s1 where w: "wr_sector b (?l i) ?z s = (True, s1)" and st: "vol_step view a s (?D(?l i := ?z)) s1"
    using wr_vol [OF v cluster_sector_unat(2) [OF g Cons.prems(2) i], of ?z] by auto
  note f = vol_step_fields [OF st]
  have u: "vol_upd s Map.empty {c} ?D (?D(?l i := ?z))"
    by (rule vol_upd_sector [OF g Cons.prems(2) area])
  have "fs_ok view a s1" "valid_data_cluster c s1" "\<forall>i \<in> set js. i < spc s1"
    using Cons.prems f vol_step_fs_ok [OF st] vol_step_areas [OF st] by simp_all
  from Cons.IH [OF this, unfolded f vol_step_areas [OF st]]
  obtain s2 D2 where r: "zero_sectors b (cluster_sector c s) js s1 = (True, s2)" and st2: "vol_step view a s1 D2 s2"
    and u2: "vol_upd s Map.empty {c} (?D(?l i := ?z)) D2"
    and z: "\<forall>i' < spc s. D2 (?l i') = (if i' \<in> set js then ?z else (?D(?l i := ?z)) (?l i'))"
    by blast
  have "D2 (?l j) = (if j \<in> set (i # js) then ?z else ?D (?l j))" if "j < spc s" for j
    using z that cluster_sector_inj [OF g Cons.prems(2) that i] unfolding fun_upd_def list.set by auto
  moreover have "zero_sectors b (cluster_sector c s) (i # js) s = (True, s2)"
    using w r by (simp add: zero_sectors_fold del: zero_sectors.simps)
  moreover have "vol_upd s Map.empty {c} ?D D2"
    using vol_upd_trans [OF u u2] by simp
  ultimately show ?case
    using vol_step_trans [OF st st2] by blast
qed

lemma claim_cluster_spec:
  assumes ok: "fs_ok view a s" and v: "valid_data_cluster c s"
  obtains s' D' where "claim_cluster b c s = Some (c, s')" "vol_step view a s D' s'"
    "vol_upd s [c \<mapsto> eoc_value (ftype s)] {c} (disk_of view a s) D'"
    "\<forall>i < spc s. D' (cluster_sector c s + of_nat i) = zero_sector"
proof -
  have g: "geo_ok s" and it: "in_table s c"
    using ok v valid_cluster [of s c] by (simp_all add: fs_ok_def)
  obtain s1 D1 where 1: "fat_set b c (eoc_value (ftype s)) s = Some (True, s1)" and t1: "vol_step view a s D1 s1"
    and u1: "table_upd s [c \<mapsto> eoc_value (ftype s)] (disk_of view a s) D1"
    using set_entry [OF ok it, of "eoc_value (ftype s)"] by blast
  note f1 = vol_step_fields [OF t1] vol_step_areas [OF t1]
  have ok1: "fs_ok view a s1" and v1: "valid_data_cluster c s1" and "\<forall>i \<in> set [0..<spc s]. i < spc s1"
    using v f1 vol_step_fs_ok [OF t1 ok] by simp_all
  from zero_sectors_spec [OF this, unfolded f1]
  obtain s2 D2 where 2: "zero_sectors b (cluster_sector c s) [0..<spc s] s1 = (True, s2)" and t2: "vol_step view a s1 D2 s2"
    and u2: "vol_upd s Map.empty {c} D1 D2" and z: "\<forall>i < spc s. D2 (cluster_sector c s + of_nat i) = zero_sector"
    by auto
  note t12 = vol_step_trans [OF t1 t2]
  note f2 = vol_step_fields [OF t12] vol_step_areas [OF t12] vol_step_upd [OF t12]
  obtain s3 D3 where 3: "fsinfo_adjust b (-1) (c + 1) s2 = Some s3" and t3: "vol_step view a s2 D3 s3"
    and u3: "table_upd s Map.empty D2 D3"
    using adjust_info [OF vol_step_fs_ok [OF t12 ok], of "-1" "c + 1"] unfolding f2 by blast
  have "D3 (cluster_sector c s + of_nat i) = zero_sector" if "i < spc s" for i
    using table_upd_area [OF u3 cluster_area_ge(2) [OF g v sector_in_area [OF that]]] z that by simp
  moreover have "vol_upd s [c \<mapsto> eoc_value (ftype s)] {c} (disk_of view a s) D3"
    using vol_upd_trans [OF vol_upd_trans [OF table_upd_vol [OF u1, of "{}"] u2] table_upd_vol [OF u3, of "{}"]] by simp
  moreover have "claim_cluster b c s = Some (c, s3)"
    using 1 2 3 f1 by (simp add: claim_cluster_def spc_def)
  ultimately show thesis
    using that vol_step_trans [OF t12 t3] by blast
qed

lemma alloc_loop_spec:
  assumes "fs_ok view a s" "2 \<le> unat c" "unat c \<le> unat (cluster_count s) + 2"
    "\<exists>x. valid_data_cluster x s \<and> c \<le> x \<and> table_val s (disk_of view a s) x = 0"
  shows "\<exists>c' s' D'. alloc_loop b (cluster_count s + 2) c s = Some (c', s') \<and> vol_step view a s D' s' \<and>
    valid_data_cluster c' s \<and> table_val s (disk_of view a s) c' = 0 \<and>
    vol_upd s [c' \<mapsto> eoc_value (ftype s)] {c'} (disk_of view a s) D' \<and>
    (\<forall>i < spc s. D' (cluster_sector c' s + of_nat i) = zero_sector)"
  using assms
proof (induction "unat (cluster_count s) + 2 - unat c" arbitrary: c s rule: less_induct)
  case less
  have g: "geo_ok s"
    using less.prems by (simp add: fs_ok_def)
  obtain x where x: "valid_data_cluster x s" "c \<le> x" "table_val s (disk_of view a s) x = 0"
    using less.prems by blast
  have lim: "c < cluster_count s + 2"
    using x(1,2) by (auto simp: valid_data_cluster_def intro: le_less_trans)
  have v: "valid_data_cluster c s"
    using lim less.prems(2) by (simp add: valid_data_cluster_def word_le_nat_alt)
  have it: "in_table s c"
    using v valid_cluster [OF g] by simp
  obtain s1 where 1: "fat_get b c s = Some (table_val s (disk_of view a s) c, s1)" and t1: "vol_step view a s (disk_of view a s) s1"
    by (rule get_entry [OF less.prems(1) it])
  note f1 = vol_step_fields [OF t1] vol_step_areas [OF t1] vol_step_views [OF t1]
  show ?case
  proof (cases "table_val s (disk_of view a s) c = 0")
    case True
    have v1: "valid_data_cluster c s1"
      using v f1 by simp
    obtain s' D' where 2: "claim_cluster b c s1 = Some (c, s')" and t2: "vol_step view a s1 D' s'"
      and u: "vol_upd s [c \<mapsto> eoc_value (ftype s)] {c} (disk_of view a s) D'"
      and z: "\<forall>i < spc s. D' (cluster_sector c s + of_nat i) = zero_sector"
      using claim_cluster_spec [OF vol_step_fs_ok [OF t1 less.prems(1)] v1] unfolding f1 by blast
    show ?thesis
      using True lim 1 2 v u z vol_step_trans [OF t1 t2] by (auto simp: alloc_loop.simps [of b _ c s])
  next
    case False
    have ne: "c \<noteq> x"
      using False x(3) by auto
    have cu: "unat (c + 1) = unat c + 1" "unat c < unat (cluster_count s) + 2"
      using unat_add_of_nat [of c 1] it geo_bounds(1) [OF g] by (simp_all add: in_table_def)
    have "c + 1 \<le> x"
      using x(2) word_unat_ne [OF ne] cu by (simp add: word_le_nat_alt)
    then have "\<exists>x. valid_data_cluster x s1 \<and> c + 1 \<le> x \<and> table_val s1 (disk_of view a s1) x = 0"
      unfolding f1 using x by blast
    moreover have "unat (cluster_count s1) + 2 - unat (c + 1) < unat (cluster_count s) + 2 - unat c" "2 \<le> unat (c + 1)"
      "unat (c + 1) \<le> unat (cluster_count s1) + 2"
      using cu f1(5) less.prems(2) by simp_all
    ultimately have "\<exists>c' s' D'. alloc_loop b (cluster_count s + 2) (c + 1) s1 = Some (c', s') \<and> vol_step view a s1 D' s' \<and>
      valid_data_cluster c' s \<and> table_val s (disk_of view a s) c' = 0 \<and>
      vol_upd s [c' \<mapsto> eoc_value (ftype s)] {c'} (disk_of view a s) D' \<and>
      (\<forall>i < spc s. D' (cluster_sector c' s + of_nat i) = zero_sector)"
      using less.hyps [of s1 "c + 1"] vol_step_fs_ok [OF t1 less.prems(1)] unfolding f1 by simp
    moreover have "alloc_loop b (cluster_count s + 2) c s = alloc_loop b (cluster_count s + 2) (c + 1) s1"
      using False lim 1 by (simp add: alloc_loop.simps [of b _ c s])
    ultimately show ?thesis
      using vol_step_trans [OF t1] by metis
  qed
qed

lemma alloc_cluster_spec:
  assumes "fs_ok view a s" "\<exists>x. valid_data_cluster x s \<and> table_val s (disk_of view a s) x = 0"
  obtains c s' D' where "alloc_cluster b s = Some (c, s')" "vol_step view a s D' s'"
    "valid_data_cluster c s" "table_val s (disk_of view a s) c = 0"
    "vol_upd s [c \<mapsto> eoc_value (ftype s)] {c} (disk_of view a s) D'"
    "\<forall>i < spc s. D' (cluster_sector c s + of_nat i) = zero_sector"
  using alloc_loop_spec [OF assms(1), of 2] assms(2) unfolding alloc_cluster_def
  by (auto simp: valid_data_cluster_def)

end

end
