(* ===== verification/FatFile.thy ===== *)
theory FatFile
  imports FatChain
begin

text \<open>
  Files of the FAT file system (fat.c): the loops of \<open>fat_read\<close> and \<open>fat_create\<close> over the clusters of a file. \<open>stored\<close> says that
  the clusters of a chain hold the bytes of a file; writing establishes it on clusters that were free, and reading returns the bytes.
\<close>

unbundle bit_operations_syntax

text \<open>Cluster numbers are neither end markers nor cut by the width of an entry.\<close>

lemma count_bound:
  assumes ok: "fs_ok view a s"
  shows "unat (cluster_count s) + 2 \<le> (if ftype s = FAT_TYPE_12 then 0xFF8 else if ftype s = FAT_TYPE_16 then 0xFFF8 else 0x0FFFFFF8)"
proof -
  have g: "geo_ok s" and n: "no_crossing s" and t: "ftype s = FAT_TYPE_16 \<longrightarrow> unat (cluster_count s) < 65525"
    using ok by (simp_all add: fs_ok_def)
  consider "ftype s = FAT_TYPE_12" | "ftype s = FAT_TYPE_16" | "ftype s \<noteq> FAT_TYPE_12" "ftype s \<noteq> FAT_TYPE_16"
    by blast
  then show ?thesis
  proof cases
    case 3
    then have a: "4 * (unat (cluster_count s) + 1) + 4 \<le> 512 * unat (fat_size s)"
      using g by (simp add: geo_ok_def entry_pos_def entry_size_def)
    have "1 * unat (fat_size s) \<le> unat (fat_count (bpb s)) * unat (fat_size s)"
      using g by (intro mult_le_mono1) (simp add: geo_ok_def)
    then have "unat (fat_size s) \<le> unat (first_data s)"
      using g unfolding geo_ok_def by linarith
    moreover have "unat (cluster_count s) * 1 \<le> unat (cluster_count s) * unat (sectors_per_cluster (bpb s))"
      using g by (intro mult_le_mono2) (simp add: geo_ok_def)
    ultimately have "unat (fat_size s) + unat (cluster_count s) \<le> 2 ^ 28"
      using g unfolding geo_ok_def by linarith
    then show ?thesis
      using a 3 by simp
  qed (use n t in \<open>auto simp: no_crossing_def\<close>)
qed

lemma cluster_number:
  assumes ok: "fs_ok view a s" and v: "valid_data_cluster c s"
  shows "\<not> is_eoc (ftype s) c" "c AND entry_mask (ftype s) = c" "2 \<le> c" "c \<noteq> 0"
proof -
  have c: "2 \<le> unat c" "unat c < unat (cluster_count s) + 2"
    using v valid_cluster [of s c] ok by (simp_all add: fs_ok_def in_table_def)
  show "\<not> is_eoc (ftype s) c"
    using c(2) count_bound [OF ok] by (auto simp: is_eoc_def word_le_nat_alt split: if_splits)
  show "2 \<le> c" "c \<noteq> 0"
    using c(1) by (auto simp: word_le_nat_alt)
  show "c AND entry_mask (ftype s) = c"
  proof -
    have m: "c AND mask n = c" if "unat c < 2 ^ n" for n
      using that by (simp add: take_bit_eq_mask [symmetric] word_eq_iff_unsigned [where ?'a = nat] unsigned_take_bit_eq take_bit_nat_eq_self)
    have "(0xFFF :: u32) = mask 12" "(0xFFFF :: u32) = mask 16" "(0x0FFFFFFF :: u32) = mask 28"
      by (simp_all add: mask_eq_exp_minus_1)
    then show ?thesis
      using c(2) count_bound [OF ok] m [of 12] m [of 16] m [of 28] by (simp add: entry_mask_def split: if_splits)
  qed
qed

section \<open>File contents\<close>

text \<open>The sector that holds the bytes \<open>B\<close> of a file from offset \<open>off\<close>, padded with zeros.\<close>

definition sec_at :: "bytes \<Rightarrow> nat \<Rightarrow> bytes" where
  "sec_at B off = take 512 (drop off B @ zero_sector)"

definition linked :: "'d fat \<Rightarrow> (u32 \<Rightarrow> bytes) \<Rightarrow> u32 list \<Rightarrow> bool" where
  "linked s D cs \<longleftrightarrow> (\<forall>c \<in> set cs. valid_data_cluster c s) \<and> (\<forall>k. Suc k < length cs \<longrightarrow> table_val s D (cs ! k) = cs ! Suc k)"

definition stored :: "'d fat \<Rightarrow> (u32 \<Rightarrow> bytes) \<Rightarrow> bytes \<Rightarrow> u32 list \<Rightarrow> bool" where
  "stored s D B cs \<longleftrightarrow>
     (\<forall>k < length cs. \<forall>i < spc s. D (cluster_sector (cs ! k) s + of_nat i) = sec_at B ((k * spc s + i) * 512))"

lemma sec_at_take: "n \<le> 512 \<Longrightarrow> off + n \<le> length B \<Longrightarrow> take n (sec_at B off) = take n (drop off B)"
  by (auto simp: sec_at_def min_def)

lemma sec_at_beyond: "length B \<le> off \<Longrightarrow> sec_at B off = zero_sector"
  by (simp add: sec_at_def)

lemma sec_at_padded: "n = min 512 (length B - off) \<Longrightarrow> take n (drop off B) @ replicate (512 - n) 0 = sec_at B off"
  by (auto simp: sec_at_def zero_sector_def take_replicate min_def)

text \<open>A buffer whose first \<open>g\<close> bytes are those of the file.\<close>

definition filled :: "bytes \<Rightarrow> string \<Rightarrow> nat \<Rightarrow> string" where
  "filled B buf g = to_chars (take g B) @ drop g buf"

lemma filled_0 [simp]: "filled B buf 0 = buf"
  by (simp add: filled_def to_chars_def)

lemma filled_step:
  assumes "g + n \<le> length B" "length B \<le> length buf"
  shows "take g (filled B buf g) @ to_chars (take n (drop g B)) @ drop (g + n) (filled B buf g) = filled B buf (g + n)"
proof -
  have "take (g + n) B = take g B @ take n (drop g B)"
    by (rule take_add)
  then show ?thesis
    using assms by (cases "length B = g") (simp_all add: filled_def to_chars_def min_def add.commute)
qed

lemma length_filled [simp]: "length B \<le> length buf \<Longrightarrow> g \<le> length B \<Longrightarrow> length (filled B buf g) = length buf"
  by (simp add: filled_def to_chars_def)

lemma sector_part_unat:
  assumes "got < sz"
  shows "unat (sector_part sz got) = min 512 (unat sz - unat got)"
proof -
  have "unat (sz - got) = unat sz - unat got"
    using assms by (intro unat_sub) simp
  then show ?thesis
    by (auto simp: sector_part_def Let_def word_less_nat_alt min_def)
qed

lemma sector_part_add:
  assumes "got < sz"
  shows "unat (got + sector_part sz got) = min (unat sz) (unat got + 512)"
proof -
  have "unat got + unat (sector_part sz got) \<le> unat sz"
    using assms by (simp add: sector_part_unat word_less_nat_alt)
  then have "unat (got + sector_part sz got) = unat got + unat (sector_part sz got)"
    using unsigned_less [of sz, where ?'a = nat] by (simp add: unat_word_ariths)
  then show ?thesis
    using assms by (auto simp: sector_part_unat word_less_nat_alt min_def)
qed

context ready_disk
begin

lemma read_sectors_spec:
  assumes "fs_ok view a s" "valid_data_cluster c s" "i \<le> spc s" "unat got = min (length B) (off + i * 512)"
    "unat esize = length B" "length B \<le> length buf"
    "\<forall>j < spc s. disk_of view a s (cluster_sector c s + of_nat j) = sec_at B (off + j * 512)"
  shows "\<exists>s' got'. read_sectors b esize (cluster_sector c s) [i..<spc s] (filled B buf (unat got)) got s =
      Some ((True, filled B buf (unat got'), got'), s') \<and> vol_step view a s (disk_of view a s) s' \<and>
      unat got' = min (length B) (off + spc s * 512)"
  using assms
proof (induction "spc s - i" arbitrary: i got s)
  case 0
  then have "[i..<spc s] = []" "i = spc s"
    by simp_all
  then show ?case
    using 0 by (auto simp: vol_step_def fs_ok_def)
next
  case (Suc n)
  let ?D = "disk_of view a s" and ?l = "cluster_sector c s + of_nat i"
  have i: "i < spc s"
    using Suc.hyps(2) by simp
  have g: "geo_ok s" and v: "vol_ok view a s"
    using Suc.prems by (simp_all add: fs_ok_def)
  have up: "[i..<spc s] = i # [Suc i..<spc s]"
    using i by (rule upt_conv_Cons)
  show ?case
  proof (cases "got < esize")
    case False
    then have "unat got = length B" "min (length B) (off + spc s * 512) = length B"
      using Suc.prems(4,5) i by (simp_all add: word_less_nat_alt min_def split: if_splits)
    then show ?thesis
      using False Suc.prems(1) up by (intro exI [of _ s] exI [of _ got]) (simp add: vol_step_def fs_ok_def)
  next
    case True
    have got: "unat got = off + i * 512" "unat got < length B"
      using True Suc.prems(4,5) by (simp_all add: word_less_nat_alt min_def split: if_splits)
    define m where "m = unat (sector_part esize got)"
    have m: "m = min 512 (length B - unat got)"
      using sector_part_unat [OF True] Suc.prems(5) by (simp add: m_def)
    obtain s1 where r: "rd_sector b ?l s = Some (Some (sec_at B (unat got)), s1)" and t1: "vol_step view a s ?D s1"
      using rd_vol [OF v cluster_sector_unat(2) [OF g Suc.prems(2) i]] Suc.prems(7) i got(1) by metis
    note f1 = vol_step_fields [OF t1] vol_step_areas [OF t1]
    have gm: "unat (got + sector_part esize got) = unat got + m"
      using sector_part_add [OF True] Suc.prems(5) m got(2) by simp
    have run: "read_sectors b esize (cluster_sector c s) [i..<spc s] (filled B buf (unat got)) got s =
        read_sectors b esize (cluster_sector c s) [Suc i..<spc s] (filled B buf (unat got + m)) (got + sector_part esize got) s1"
      using True r m filled_step [of "unat got" m B buf] sec_at_take [of m "unat got" B] Suc.prems(6) got(2)
      unfolding up by (simp add: Let_def m_def [symmetric])
    have gm': "unat got + m = min (length B) (off + Suc i * 512)"
      using m got by (auto simp: min_def)
    have "n = spc s1 - Suc i" "Suc i \<le> spc s1" "valid_data_cluster c s1"
      "unat (got + sector_part esize got) = min (length B) (off + Suc i * 512)"
      "\<forall>j < spc s1. disk_of view a s1 (cluster_sector c s1 + of_nat j) = sec_at B (off + j * 512)"
      using Suc.hyps(2) Suc.prems(2,7) i gm gm' unfolding f1 by simp_all
    from Suc.hyps(1) [OF this(1) vol_step_fs_ok [OF t1 Suc.prems(1)] this(3,2,4) Suc.prems(5,6) this(5), unfolded f1 gm]
    have "\<exists>s' got'. read_sectors b esize (cluster_sector c s) [Suc i..<spc s] (filled B buf (unat got + m)) (got + sector_part esize got) s1 =
      Some ((True, filled B buf (unat got'), got'), s') \<and> vol_step view a s1 ?D s' \<and>
      unat got' = min (length B) (off + spc s * 512)" .
    then show ?thesis
      unfolding run using vol_step_trans [OF t1] by blast
  qed
qed

end

context ready_disk
begin

lemma checked_next_spec:
  assumes ok: "fs_ok view a s" and c: "valid_data_cluster c s" "valid_data_cluster (table_val s (disk_of view a s) c) s"
  obtains s' where "checked_next b c s = Some (Some (False, table_val s (disk_of view a s) c), s')"
    "vol_step view a s (disk_of view a s) s'"
proof -
  have it: "in_table s c"
    using c(1) ok valid_cluster [of s c] by (simp add: fs_ok_def)
  obtain s' where "fat_get b c s = Some (table_val s (disk_of view a s) c, s')" and t: "vol_step view a s (disk_of view a s) s'"
    by (rule get_entry [OF ok it])
  then show thesis
    using c cluster_number(1) [OF ok c(2)] vol_step_fields [OF t] by (intro that [OF _ t]) (simp add: checked_next_def)
qed

text \<open>Along a chain without repetition the cycle check never fires: the anchor is a cluster already passed.\<close>

lemma read_loop_spec:
  assumes "fs_ok view a s" "linked s (disk_of view a s) cs" "distinct cs" "stored s (disk_of view a s) B cs"
    "length B \<le> length cs * (spc s * 512)" "unat esize = length B" "length B \<le> length buf"
    "k < length cs" "anchor \<in> set (take (Suc k) cs)" "unat got = k * (spc s * 512)" "unat got < length B"
  shows "\<exists>s'. read_loop b esize sz (cs ! k) got anchor pow len (filled B buf (unat got)) s =
    Some ((0, filled B buf (length B), esize), s') \<and> vol_step view a s (disk_of view a s) s'"
  using assms
proof (induction "length cs - k" arbitrary: k got anchor pow len s rule: less_induct)
  case less
  let ?D = "disk_of view a s" and ?c = "cs ! k"
  have v: "valid_data_cluster ?c s"
    using less.prems(2,8) by (simp add: linked_def)
  have lt: "got < esize"
    using less.prems(6,11) by (simp add: word_less_nat_alt)
  have "unat got = min (length B) (k * (spc s * 512) + 0 * 512)"
    using less.prems(10,11) by simp
  moreover have "\<forall>j < spc s. ?D (cluster_sector ?c s + of_nat j) = sec_at B (k * (spc s * 512) + j * 512)"
    using less.prems(4,8) by (simp add: stored_def distrib_right mult.assoc)
  ultimately obtain s1 got1 where r: "read_sectors b esize (cluster_sector ?c s) [0..<spc s] (filled B buf (unat got)) got s =
      Some ((True, filled B buf (unat got1), got1), s1)" and t1: "vol_step view a s ?D s1"
    and got1: "unat got1 = min (length B) (k * (spc s * 512) + spc s * 512)"
    using read_sectors_spec [OF less.prems(1) v _ _ less.prems(6,7), of 0 got "k * (spc s * 512)"] by auto
  note f1 = vol_step_fields [OF t1] vol_step_areas [OF t1] vol_step_views [OF t1]
  have ok1: "fs_ok view a s1"
    by (rule vol_step_fs_ok [OF t1 less.prems(1)])
  show ?case
  proof (cases "unat got1 < length B")
    case False
    then have "unat got1 = length B"
      using got1 by simp
    then have e: "unat got1 = length B" "got1 = esize" "\<not> got1 < esize"
      using less.prems(6) word_unat_ne [of got1 esize] by (auto simp: word_less_nat_alt)
    have "read_loop b esize sz ?c got anchor pow len (filled B buf (unat got)) s =
        read_loop b esize sz ?c got1 anchor pow len (filled B buf (unat got1)) s1"
      using lt v r e(3) by (simp add: read_loop.simps [of b esize sz ?c got] spc_def)
    also have "\<dots> = Some ((0, filled B buf (length B), esize), s1)"
      using e by (simp add: read_loop.simps [of b esize sz ?c esize] c_status_def)
    finally show ?thesis
      using t1 by blast
  next
    case True
    then have g1: "unat got1 = Suc k * (spc s * 512)" and lt1: "got1 < esize"
      using got1 less.prems(6) by (simp_all add: word_less_nat_alt min_def split: if_splits)
    have k1: "Suc k < length cs"
    proof (rule ccontr)
      assume "\<not> Suc k < length cs"
      then have "length cs * (spc s * 512) \<le> Suc k * (spc s * 512)"
        by (intro mult_le_mono1) simp
      then show False
        using True g1 less.prems(5) by linarith
    qed
    let ?n = "cs ! Suc k"
    have n: "table_val s ?D ?c = ?n" "valid_data_cluster ?n s"
      using less.prems(2) k1 by (simp_all add: linked_def)
    obtain s2 where c: "checked_next b ?c s1 = Some (Some (False, ?n), s2)" and t2: "vol_step view a s1 ?D s2"
      using checked_next_spec [OF ok1, of ?c] v n unfolding f1 by auto
    note t12 = vol_step_trans [OF t1 t2]
    note f2 = vol_step_fields [OF t12] vol_step_areas [OF t12] vol_step_views [OF t12]
    have fresh: "?n \<notin> set (take (Suc k) cs)"
      using less.prems(3) k1 by (auto simp: in_set_conv_nth nth_eq_iff_index_eq)
    obtain an1 pow1 len1 where run: "read_loop b esize sz ?c got anchor pow len (filled B buf (unat got)) s =
        read_loop b esize sz ?n got1 an1 pow1 len1 (filled B buf (unat got1)) s2" and an1: "an1 \<in> {?n, anchor}"
    proof (cases "len + 1 = pow")
      case True
      show thesis
        by (rule that [of ?n "push_bit 1 pow" 0])
          (use lt v r lt1 c fresh less.prems(9) True in \<open>auto simp: read_loop.simps [of b esize sz ?c got] spc_def\<close>)
    next
      case False
      show thesis
        by (rule that [of anchor pow "len + 1"])
          (use lt v r lt1 c fresh less.prems(9) False in \<open>auto simp: read_loop.simps [of b esize sz ?c got] spc_def\<close>)
    qed
    have an: "an1 \<in> set (take (Suc (Suc k)) cs)"
      using an1 less.prems(9) k1 take_Suc_conv_app_nth [OF k1] by auto
    have "linked s2 (disk_of view a s2) cs" "stored s2 (disk_of view a s2) B cs" "length B \<le> length cs * (spc s2 * 512)"
      "unat got1 = Suc k * (spc s2 * 512)" "length cs - Suc k < length cs - k"
      using less.prems(2,4,5) g1 k1 unfolding linked_def stored_def f2 by simp_all
    from less.hyps [OF this(5) vol_step_fs_ok [OF t12 less.prems(1)] this(1) less.prems(3) this(2,3) less.prems(6,7) k1 an this(4) True,
        of pow1 len1, unfolded f2]
    show ?thesis
      unfolding run using vol_step_trans [OF t12] by blast
  qed
qed

end

section \<open>Writing\<close>

definition file_bytes :: "string \<Rightarrow> u32 \<Rightarrow> bytes" where
  "file_bytes src sz = map of_char (take (unat sz) src)"

lemma file_bytes_length: "unat sz \<le> length src \<Longrightarrow> length (file_bytes src sz) = unat sz"
  by (simp add: file_bytes_def)

lemma file_bytes_part:
  "w + n \<le> unat sz \<Longrightarrow> map of_char (take n (drop w src)) = take n (drop w (file_bytes src sz))"
  by (simp add: file_bytes_def drop_map take_map drop_take min_def)

context ready_disk
begin

lemma write_sectors_spec:
  assumes "fs_ok view a s" "valid_data_cluster c s" "i \<le> spc s" "unat sz \<le> length src" "B = file_bytes src sz"
    "unat written = min (unat sz) (off + i * 512)"
    "\<forall>j < spc s. disk_of view a s (cluster_sector c s + of_nat j) = (if j < i then sec_at B (off + j * 512) else zero_sector)"
  shows "\<exists>s' D' written'. write_sectors b src sz (cluster_sector c s) [i..<spc s] written s = Some ((True, written'), s') \<and>
    vol_step view a s D' s' \<and> vol_upd s Map.empty {c} (disk_of view a s) D' \<and>
    unat written' = min (unat sz) (off + spc s * 512) \<and>
    (\<forall>j < spc s. D' (cluster_sector c s + of_nat j) = sec_at B (off + j * 512))"
  using assms
proof (induction "spc s - i" arbitrary: i written s)
  case 0
  then have "[i..<spc s] = []" "i = spc s"
    by simp_all
  then show ?case
    using 0 by (intro exI [of _ s] exI [of _ "disk_of view a s"]) (auto simp: vol_step_def fs_ok_def vol_upd_def)
next
  case (Suc n)
  let ?D = "disk_of view a s" and ?l = "\<lambda>j. cluster_sector c s + of_nat j"
  have i: "i < spc s"
    using Suc.hyps(2) by simp
  have g: "geo_ok s" and v: "vol_ok view a s"
    using Suc.prems by (simp_all add: fs_ok_def)
  have up: "[i..<spc s] = i # [Suc i..<spc s]"
    using i by (rule upt_conv_Cons)
  have len: "length B = unat sz"
    using Suc.prems(4,5) file_bytes_length by simp
  show ?case
  proof (cases "written < sz")
    case False
    then have e: "unat written = unat sz" "unat sz \<le> off + i * 512"
      using Suc.prems(6) by (simp_all add: word_less_nat_alt min_def split: if_splits)
    have "?D (?l j) = sec_at B (off + j * 512)" if "j < spc s" for j
      using that Suc.prems(7) e(2) len sec_at_beyond [of B "off + j * 512"] by (cases "j < i") simp_all
    moreover have "min (unat sz) (off + spc s * 512) = unat sz"
      using e(2) i by simp
    ultimately show ?thesis
      using False Suc.prems(1) up e(1)
      by (intro exI [of _ s] exI [of _ ?D] exI [of _ written]) (simp add: vol_step_def fs_ok_def vol_upd_def)
  next
    case True
    have w: "unat written = off + i * 512" "unat written < unat sz"
      using True Suc.prems(6) by (simp_all add: word_less_nat_alt min_def split: if_splits)
    define m where "m = unat (sector_part sz written)"
    have m: "m = min 512 (length B - unat written)"
      using sector_part_unat [OF True] len by (simp add: m_def)
    have chunk: "map of_char (take m (drop (unat written) src)) @ replicate (512 - m) 0 = sec_at B (unat written)"
      using sec_at_padded [OF m] file_bytes_part [of "unat written" m sz src] m w(2) len Suc.prems(5) by simp
    have sl: "length (sec_at B (unat written)) = 512"
      by (simp add: sec_at_def)
    obtain s1 where wr: "wr_sector b (?l i) (sec_at B (unat written)) s = (True, s1)"
      and t1: "vol_step view a s (?D(?l i := sec_at B (unat written))) s1"
      using wr_vol [OF v cluster_sector_unat(2) [OF g Suc.prems(2) i] sl] by blast
    note f1 = vol_step_fields [OF t1] vol_step_areas [OF t1]
    have wm: "unat (written + sector_part sz written) = min (unat sz) (off + Suc i * 512)"
      using sector_part_add [OF True] w(1) by (simp add: add.commute add.left_commute)
    have run: "write_sectors b src sz (cluster_sector c s) [i..<spc s] written s =
        write_sectors b src sz (cluster_sector c s) [Suc i..<spc s] (written + sector_part sz written) s1"
      using True wr chunk m w(2) len Suc.prems(4) unfolding up by (simp add: Let_def m_def [symmetric])
    have q: "n = spc s1 - Suc i" "Suc i \<le> spc s1" "valid_data_cluster c s1"
      using Suc.hyps(2) Suc.prems(2) i unfolding f1 by simp_all
    have z: "\<forall>j < spc s1. disk_of view a s1 (cluster_sector c s1 + of_nat j) = (if j < Suc i then sec_at B (off + j * 512) else zero_sector)"
      using Suc.prems(7) cluster_sector_inj [OF g Suc.prems(2) _ i] w(1) unfolding f1 fun_upd_def by (simp add: less_Suc_eq)
    have "\<exists>s' D' written'. write_sectors b src sz (cluster_sector c s) [Suc i..<spc s] (written + sector_part sz written) s1 = Some ((True, written'), s') \<and>
        vol_step view a s1 D' s' \<and> vol_upd s Map.empty {c} (?D(?l i := sec_at B (unat written))) D' \<and>
        unat written' = min (unat sz) (off + spc s * 512) \<and> (\<forall>j < spc s. D' (?l j) = sec_at B (off + j * 512))"
      using Suc.hyps(1) [OF q(1) vol_step_fs_ok [OF t1 Suc.prems(1)] q(3,2) Suc.prems(4,5) wm z] unfolding f1 .
    moreover have "vol_upd s Map.empty {c} ?D D'" if "vol_upd s Map.empty {c} (?D(?l i := sec_at B (unat written))) D'" for D'
      using vol_upd_trans [OF vol_upd_sector [OF g Suc.prems(2) sector_in_area [OF i]] that] by simp
    ultimately show ?thesis
      unfolding run using vol_step_trans [OF t1] by meson
  qed
qed

end

text \<open>The chain that \<open>fat_create\<close> has built so far from clusters that were free on \<open>D0\<close>.\<close>

definition free_clusters :: "'d fat \<Rightarrow> (u32 \<Rightarrow> bytes) \<Rightarrow> u32 set" where
  "free_clusters s D = {x. valid_data_cluster x s \<and> table_val s D x = 0}"

definition building :: "'d fat \<Rightarrow> (u32 \<Rightarrow> bytes) \<Rightarrow> (u32 \<Rightarrow> bytes) \<Rightarrow> bytes \<Rightarrow> u32 list \<Rightarrow> bool" where
  "building s D0 D B cs \<longleftrightarrow> distinct cs \<and> set cs \<subseteq> free_clusters s D0 \<and> linked s D cs \<and>
     (cs \<noteq> [] \<longrightarrow> is_eoc (ftype s) (table_val s D (last cs))) \<and> stored s D B cs \<and>
     (\<exists>f. dom f \<subseteq> set cs \<and> vol_upd s f (set cs) D0 D)"

lemma is_eoc_0: "\<not> is_eoc t 0"
  by (simp add: is_eoc_def)

lemma linked_used:
  assumes ok: "fs_ok view a s" and l: "linked s D cs" and eoc: "is_eoc (ftype s) (table_val s D (last cs))" and x: "x \<in> set cs"
  shows "table_val s D x \<noteq> 0"
proof -
  obtain k where k: "k < length cs" "x = cs ! k"
    using x by (auto simp: in_set_conv_nth)
  show ?thesis
  proof (cases "Suc k < length cs")
    case True
    then have "table_val s D x = cs ! Suc k" "valid_data_cluster (cs ! Suc k) s"
      using l k by (simp_all add: linked_def)
    then show ?thesis
      using cluster_number(4) [OF ok] by metis
  next
    case False
    then have "k = length cs - 1" "cs \<noteq> []"
      using k(1) by auto
    then have "x = last cs"
      using k(2) by (simp add: last_conv_nth)
    then show ?thesis
      using eoc is_eoc_0 by auto
  qed
qed

lemma building_used: "fs_ok view a s \<Longrightarrow> building s D0 D B cs \<Longrightarrow> x \<in> set cs \<Longrightarrow> table_val s D x \<noteq> 0"
  by (rule linked_used) (auto simp: building_def)

lemma building_free:
  assumes g: "geo_ok s" and bd: "building s D0 D B cs" and x: "valid_data_cluster x s" "x \<notin> set cs"
  shows "table_val s D x = table_val s D0 x"
proof -
  obtain f where "dom f \<subseteq> set cs" "vol_upd s f (set cs) D0 D"
    using bd by (auto simp: building_def)
  moreover from this x have "f x = None"
    by auto
  ultimately show ?thesis
    using vol_upd_val [of s f "set cs" D0 D x] g x valid_cluster [OF g] by simp
qed

lemma building_extend:
  assumes ok: "fs_ok view a s" and bd: "building s D0 D B cs" and c: "valid_data_cluster c s" "table_val s D c = 0"
    and u: "vol_upd s ([c \<mapsto> eoc_value (ftype s)] ++ (if cs = [] then Map.empty else [last cs \<mapsto> c])) {c} D D'"
    and w: "\<forall>i < spc s. D' (cluster_sector c s + of_nat i) = sec_at B (length cs * (spc s * 512) + i * 512)"
  shows "building s D0 D' B (cs @ [c])"
proof -
  let ?h = "[c \<mapsto> eoc_value (ftype s)] ++ (if cs = [] then Map.empty else [last cs \<mapsto> c])"
  have g: "geo_ok s"
    using ok by (simp add: fs_ok_def)
  have new: "c \<notin> set cs"
    using building_used [OF ok bd] c(2) by auto
  have vcs: "valid_data_cluster x s" if "x \<in> set cs" for x
    using bd that by (simp add: building_def linked_def)
  have val: "table_val s D' x = (case ?h x of None \<Rightarrow> table_val s D x | Some v \<Rightarrow> v AND entry_mask (ftype s))"
    if "valid_data_cluster x s" for x
    using vol_upd_val [OF u g, of x] that valid_cluster [OF g] by simp
  have lastc: "table_val s D' (last cs) = c" if "cs \<noteq> []"
    using val [of "last cs"] vcs that cluster_number(2) [OF ok c(1)] by simp
  have keep: "table_val s D' x = table_val s D x" if "x \<in> set cs" "x \<noteq> last cs" for x
    using val [OF vcs [OF that(1)]] that new by (auto simp: map_add_def)
  have eoc: "table_val s D' c = eoc_value (ftype s)"
    using val [OF c(1)] new eoc_masked(1) [of "ftype s"] by (auto simp: map_add_def)
  have "table_val s D' ((cs @ [c]) ! k) = (cs @ [c]) ! Suc k" if k: "Suc k < length (cs @ [c])" for k
  proof (cases "Suc k = length cs")
    case True
    then have "k = length cs - 1" "k < length cs" "cs \<noteq> []"
      by auto
    then have "k < length cs" "cs \<noteq> []" "last cs = cs ! k"
      by (simp_all add: last_conv_nth)
    then show ?thesis
      using lastc True by (simp add: nth_append)
  next
    case False
    then have "k < length cs - 1" "length cs - 1 < length cs" "last cs = cs ! (length cs - 1)"
      using k by (cases "cs = []"; simp add: last_conv_nth)+
    moreover have "distinct cs"
      using bd by (simp add: building_def)
    ultimately have "cs ! k \<noteq> last cs"
      by (simp add: nth_eq_iff_index_eq)
    then show ?thesis
      using k False keep [of "cs ! k"] bd by (simp add: nth_append building_def linked_def)
  qed
  then have "linked s D' (cs @ [c])"
    using c(1) vcs by (auto simp: linked_def)
  moreover have "stored s D' B (cs @ [c])"
  proof -
    have "D' (cluster_sector (cs ! k) s + of_nat i) = sec_at B ((k * spc s + i) * 512)" if "k < length cs" "i < spc s" for k i
    proof -
      have "cs ! k \<noteq> c"
        using new nth_mem [OF that(1)] by auto
      then show ?thesis
        using vol_upd_cluster [OF g u vcs [OF nth_mem [OF that(1)]], of i] that bd c(1) by (simp add: building_def stored_def)
    qed
    moreover have "D' (cluster_sector c s + of_nat i) = sec_at B ((length cs * spc s + i) * 512)" if "i < spc s" for i
      using w that by (simp only: distrib_right mult.assoc)
    ultimately show ?thesis
      unfolding stored_def by (simp only: nth_append length_append list.size add_0 less_Suc_eq add_Suc_right add_0_right simp_thms if_True if_False less_irrefl diff_self_eq_0 nth_Cons_0 all_conj_distrib imp_disjL)
        auto
  qed
  moreover obtain f where f: "dom f \<subseteq> set cs" "vol_upd s f (set cs) D0 D"
    using bd by (auto simp: building_def)
  then have "dom (f ++ ?h) \<subseteq> set (cs @ [c])" "vol_upd s (f ++ ?h) (set (cs @ [c])) D0 D'"
    using vol_upd_trans [OF f(2) u] by auto
  moreover have "c \<in> free_clusters s D0"
    using c building_free [OF g bd c(1) new] by (simp add: free_clusters_def)
  moreover have "distinct (cs @ [c])" "set cs \<subseteq> free_clusters s D0"
    using bd new by (simp_all add: building_def)
  ultimately show ?thesis
    using eoc eoc_masked(2) [of "ftype s"] unfolding building_def by (intro conjI exI [of _ "f ++ ?h"]) simp_all
qed
definition first_of :: "u32 list \<Rightarrow> u32" where
  "first_of cs = (if cs = [] then 0 else hd cs)"

definition prev_of :: "u32 list \<Rightarrow> u32" where
  "prev_of cs = (if cs = [] then 0 else last cs)"

lemma vol_step_building:
  assumes "vol_step view a s D s'"
  shows "building s' = building s" "free_clusters s' = free_clusters s" "linked s' = linked s" "stored s' = stored s"
  unfolding fun_eq_iff building_def free_clusters_def linked_def stored_def vol_step_fields [OF assms] vol_step_areas [OF assms]
    vol_step_views [OF assms]
  by simp_all

lemma create_loop_step:
  assumes "written < sz \<or> sz = 0 \<and> first = 0" "alloc_cluster b s = Some (c, s1)" "c \<noteq> 0"
    "(if prev \<noteq> 0 then fat_set b prev c s1 else Some (True, s1)) = Some (True, s2)"
    "write_sectors b src sz (cluster_sector c s2) [0..<spc s2] written s2 = Some ((True, written'), s3)"
  shows "create_loop b src sz first prev written s = create_loop b src sz (if first = 0 then c else first) c written' s3"
  using assms by (subst create_loop.simps) (cases "prev = 0"; simp add: Let_def spc_def)

text \<open>The number of clusters of a file of \<open>n\<close> bytes: at least one.\<close>

definition clusters_needed :: "'d fat \<Rightarrow> nat \<Rightarrow> nat" where
  "clusters_needed s n = max 1 ((n + spc s * 512 - 1) div (spc s * 512))"

lemma clusters_needed_less:
  assumes "geo_ok s" "length cs * (spc s * 512) < n \<or> cs = []"
  shows "length cs < clusters_needed s n"
proof (cases "cs = []")
  case False
  then have lt: "length cs * (spc s * 512) < n"
    using assms(2) by simp
  have p: "0 < spc s * 512"
    using assms(1) by (simp add: geo_ok_def spc_def)
  have "Suc (length cs) * (spc s * 512) \<le> n + spc s * 512 - 1"
    using lt p by simp
  from div_le_mono [OF this, of "spc s * 512"] have "Suc (length cs) \<le> (n + spc s * 512 - 1) div (spc s * 512)"
    using p by simp
  then show ?thesis
    by (simp add: clusters_needed_def)
qed (simp add: clusters_needed_def)

context ready_disk
begin

text \<open>The allocation and the link of one more cluster.\<close>

lemma link_spec:
  assumes ok: "fs_ok view a s" and bd: "building s D0 (disk_of view a s) B cs" and room: "length cs < card (free_clusters s D0)"
  obtains c s1 s2 D2 where "alloc_cluster b s = Some (c, s1)" "valid_data_cluster c s" "table_val s (disk_of view a s) c = 0"
    "(if prev_of cs \<noteq> 0 then fat_set b (prev_of cs) c s1 else Some (True, s1)) = Some (True, s2)" "vol_step view a s D2 s2"
    "vol_upd s ([c \<mapsto> eoc_value (ftype s)] ++ (if cs = [] then Map.empty else [last cs \<mapsto> c])) {c} (disk_of view a s) D2"
    "\<forall>i < spc s. D2 (cluster_sector c s + of_nat i) = zero_sector"
proof -
  let ?D = "disk_of view a s"
  have g: "geo_ok s"
    using ok by (simp add: fs_ok_def)
  have "\<not> free_clusters s D0 \<subseteq> set cs"
    using room card_length [of cs] card_mono [of "set cs" "free_clusters s D0"] by auto
  then obtain x where "x \<in> free_clusters s D0" "x \<notin> set cs"
    by blast
  then have "\<exists>x. valid_data_cluster x s \<and> table_val s ?D x = 0"
    using building_free [OF g bd, of x] by (auto simp: free_clusters_def)
  then obtain c s1 D1 where 1: "alloc_cluster b s = Some (c, s1)" and t1: "vol_step view a s D1 s1"
    and c: "valid_data_cluster c s" "table_val s ?D c = 0" and u1: "vol_upd s [c \<mapsto> eoc_value (ftype s)] {c} ?D D1"
    and z: "\<forall>i < spc s. D1 (cluster_sector c s + of_nat i) = zero_sector"
    by (rule alloc_cluster_spec [OF ok])
  note f1 = vol_step_fields [OF t1] vol_step_upd [OF t1]
  show thesis
  proof (cases "cs = []")
    case True
    then show thesis
      using that [OF 1 c _ t1 _ z] u1 by (simp add: prev_of_def)
  next
    case False
    have lv: "valid_data_cluster (last cs) s"
      using bd False by (simp add: building_def linked_def)
    then have it: "in_table s1 (last cs)"
      using valid_cluster [OF g] f1 by simp
    obtain s2 D2 where 2: "fat_set b (last cs) c s1 = Some (True, s2)" and t2: "vol_step view a s1 D2 s2"
      and u2: "table_upd s [last cs \<mapsto> c] D1 D2"
      using set_entry [OF vol_step_fs_ok [OF t1 ok] it, of c] unfolding f1 by blast
    have "D2 (cluster_sector c s + of_nat i) = zero_sector" if "i < spc s" for i
      using table_upd_area [OF u2 cluster_area_ge(2) [OF g c(1) sector_in_area [OF that]]] z that by simp
    moreover have "vol_upd s ([c \<mapsto> eoc_value (ftype s)] ++ [last cs \<mapsto> c]) {c} ?D D2"
      using vol_upd_trans [OF u1 table_upd_vol [OF u2, of "{}"]] by simp
    ultimately show thesis
      using that [OF 1 c _ vol_step_trans [OF t1 t2]] False 2 cluster_number(4) [OF ok lv] by (simp add: prev_of_def)
  qed
qed

lemma create_step:
  assumes ok: "fs_ok view a s" and bd: "building s D0 (disk_of view a s) B cs" and room: "length cs < card (free_clusters s D0)"
    and sz: "unat sz \<le> length src" "B = file_bytes src sz" and written: "unat written = min (unat sz) (length cs * (spc s * 512))"
    and go: "written < sz \<or> sz = 0 \<and> cs = []"
  obtains c s' D' written' where
    "create_loop b src sz (first_of cs) (prev_of cs) written s = create_loop b src sz (first_of (cs @ [c])) (prev_of (cs @ [c])) written' s'"
    "vol_step view a s D' s'" "building s D0 D' B (cs @ [c])" "unat written' = min (unat sz) (length (cs @ [c]) * (spc s * 512))"
proof -
  let ?D = "disk_of view a s"
  obtain c s1 s2 D2 where 1: "alloc_cluster b s = Some (c, s1)" and c: "valid_data_cluster c s" "table_val s ?D c = 0"
    and 2: "(if prev_of cs \<noteq> 0 then fat_set b (prev_of cs) c s1 else Some (True, s1)) = Some (True, s2)" and t2: "vol_step view a s D2 s2"
    and u2: "vol_upd s ([c \<mapsto> eoc_value (ftype s)] ++ (if cs = [] then Map.empty else [last cs \<mapsto> c])) {c} ?D D2"
    and z: "\<forall>i < spc s. D2 (cluster_sector c s + of_nat i) = zero_sector"
    by (rule link_spec [OF ok bd room])
  note f2 = vol_step_fields [OF t2] vol_step_areas [OF t2]
  let ?off = "length cs * (spc s * 512)"
  have off: "unat written = min (unat sz) (?off + 0 * 512)"
    using written by simp
  have v2: "valid_data_cluster c s2" and z2: "\<forall>j < spc s2. disk_of view a s2 (cluster_sector c s2 + of_nat j) =
      (if j < 0 then sec_at B (?off + j * 512) else zero_sector)"
    using c z unfolding f2 by simp_all
  obtain s3 D3 written' where 3: "write_sectors b src sz (cluster_sector c s) [0..<spc s] written s2 = Some ((True, written'), s3)"
    and t3: "vol_step view a s2 D3 s3" and u3: "vol_upd s Map.empty {c} D2 D3"
    and w: "unat written' = min (unat sz) (?off + spc s * 512)"
    and st: "\<forall>j < spc s. D3 (cluster_sector c s + of_nat j) = sec_at B (?off + j * 512)"
    using write_sectors_spec [OF vol_step_fs_ok [OF t2 ok] v2 _ sz off z2] unfolding f2 by auto
  have "vol_upd s ([c \<mapsto> eoc_value (ftype s)] ++ (if cs = [] then Map.empty else [last cs \<mapsto> c])) {c} ?D D3"
    using vol_upd_trans [OF u2 u3] by simp
  then have bd3: "building s D0 D3 B (cs @ [c])"
    by (rule building_extend [OF ok bd c _ st])
  have c0: "c \<noteq> 0"
    by (rule cluster_number(4) [OF ok c(1)])
  have fst: "(if first_of cs = 0 then c else first_of cs) = first_of (cs @ [c])"
  proof (cases cs)
    case (Cons x xs)
    then have "x \<noteq> 0"
      using bd cluster_number(4) [OF ok, of x] by (simp add: building_def linked_def)
    then show ?thesis
      using Cons by (simp add: first_of_def)
  qed (simp add: first_of_def)
  have "written < sz \<or> sz = 0 \<and> first_of cs = 0"
    using go by (auto simp: first_of_def)
  from create_loop_step [OF this 1 c0 2, unfolded f2 fst, OF 3]
  have "create_loop b src sz (first_of cs) (prev_of cs) written s =
      create_loop b src sz (first_of (cs @ [c])) (prev_of (cs @ [c])) written' s3"
    by (simp add: prev_of_def)
  then show thesis
    using that [OF _ vol_step_trans [OF t2 t3] bd3] w by (simp add: add.commute)
qed


lemma create_loop_spec:
  assumes "fs_ok view a s" "building s D0 (disk_of view a s) B cs" "clusters_needed s (unat sz) \<le> card (free_clusters s D0)"
    "unat sz \<le> length src" "B = file_bytes src sz" "unat written = min (unat sz) (length cs * (spc s * 512))"
  shows "\<exists>cs' s' D'. create_loop b src sz (first_of cs) (prev_of cs) written s = Some (Some (hd cs'), s') \<and> cs' \<noteq> [] \<and>
    vol_step view a s D' s' \<and> building s D0 D' B cs' \<and> unat sz \<le> length cs' * (spc s * 512)"
  using assms
proof (induction "clusters_needed s (unat sz) - length cs" arbitrary: cs written s rule: less_induct)
  case less
  have g: "geo_ok s"
    using less.prems by (simp add: fs_ok_def)
  show ?case
  proof (cases "written < sz \<or> sz = 0 \<and> cs = []")
    case True
    then have "length cs * (spc s * 512) < unat sz \<or> cs = []"
      using less.prems(6) by (auto simp: word_less_nat_alt min_def split: if_splits)
    from clusters_needed_less [OF g this] have lt: "length cs < clusters_needed s (unat sz)" .
    then have room: "length cs < card (free_clusters s D0)"
      using less.prems(3) by simp
    obtain c s1 D1 written1 where
      run: "create_loop b src sz (first_of cs) (prev_of cs) written s = create_loop b src sz (first_of (cs @ [c])) (prev_of (cs @ [c])) written1 s1"
      and t1: "vol_step view a s D1 s1" and bd1: "building s D0 D1 B (cs @ [c])"
      and w1: "unat written1 = min (unat sz) (length (cs @ [c]) * (spc s * 512))"
      by (rule create_step [OF less.prems(1,2) room less.prems(4,5,6) True])
    note f1 = vol_step_fields [OF t1] vol_step_areas [OF t1] vol_step_building [OF t1]
    have n1: "clusters_needed s1 = clusters_needed s"
      by (simp add: fun_eq_iff clusters_needed_def f1)
    have "clusters_needed s1 (unat sz) - length (cs @ [c]) < clusters_needed s (unat sz) - length cs"
      using lt by (simp add: n1)
    from less.hyps [OF this vol_step_fs_ok [OF t1 less.prems(1)], unfolded f1 n1, OF bd1 less.prems(3,4,5) w1]
    show ?thesis
      unfolding run using vol_step_trans [OF t1] by meson
  next
    case False
    then have "unat written = unat sz" "\<not> written < sz"
      using less.prems(6) by (auto simp: word_less_nat_alt)
    moreover have "cs \<noteq> []"
    proof
      assume "cs = []"
      then show False
        using calculation(1) less.prems(6) False word_unat_ne [of sz 0] by auto
    qed
    moreover have "first_of cs = hd cs" "first_of cs \<noteq> 0"
      using calculation(3) less.prems(2) cluster_number(4) [OF less.prems(1), of "hd cs"]
      by (simp_all add: first_of_def building_def linked_def)
    ultimately show ?thesis
      using less.prems(1,2,6)
      by (intro exI [of _ cs] exI [of _ s] exI [of _ "disk_of view a s"])
        (simp add: create_loop.simps [of b src sz "hd cs"] vol_step_def fs_ok_def)
  qed
qed

end

end
