(* ===== verification/FatDir.thy ===== *)
theory FatDir
  imports FatFile
begin

text \<open>
  The root directory of FAT12 and FAT16 volumes (fat.c), and files in it: the scans find the entry or the free slot, \<open>dir_write\<close>
  replaces one entry, and \<open>fat_read\<close> returns what \<open>fat_create\<close> stored.
\<close>

unbundle bit_operations_syntax

section \<open>Directory entries\<close>

lemma take_put8: "n \<le> i \<Longrightarrow> take n (put8 i v b) = take n b"
  by (simp add: put8_def)

lemma take_put16: "n \<le> i \<Longrightarrow> take n (put16 i v b) = take n b"
  by (simp add: put16_def take_put8)

lemma take_put32: "n \<le> i \<Longrightarrow> take n (put32 i v b) = take n b"
  by (simp add: put32_def take_put16)

lemma get16_put32_other:
  "i + 3 < length b \<Longrightarrow> j + 2 \<le> i \<or> i + 4 \<le> j \<Longrightarrow> get16 (put32 i v b) j = get16 b j"
  by (auto simp: put32_def get16_put16_other)

definition entry_shape :: "fat_dir_entry \<Rightarrow> bool" where
  "entry_shape e \<longleftrightarrow> length (de_name e) = 8 \<and> length (de_ext e) = 3"

lemma entry_length [simp]: "entry_shape e \<Longrightarrow> length (dir_entry_bytes e) = 32"
  by (simp add: entry_shape_def dir_entry_bytes_def)

lemma entry_round_trip:
  assumes "entry_shape e"
  shows "read_dir_entry (dir_entry_bytes e) = e"
proof -
  define t where "t = de_name e @ de_ext e @ [de_attr e, de_nt_reserved e, de_create_tenths e] @ replicate 18 0"
  have len: "length t = 32" "length (de_name e) = 8" "length (de_ext e) = 3"
    using assms by (simp_all add: entry_shape_def t_def)
  have b: "get8 t 11 = de_attr e" "get8 t 12 = de_nt_reserved e" "get8 t 13 = de_create_tenths e"
    using len by (simp_all add: get8_def nth_append t_def)
  have t: "take 8 t = de_name e" "take 11 t = de_name e @ de_ext e"
    using len by (simp_all add: t_def)
  note bytes = dir_entry_bytes_def [of e, folded t_def]
  have n: "take 8 (dir_entry_bytes e) = de_name e" "take 11 (dir_entry_bytes e) = de_name e @ de_ext e"
    using t by (simp_all add: bytes take_put16 take_put32)
  have "take 3 (drop 8 (dir_entry_bytes e)) = drop 8 (take 11 (dir_entry_bytes e))"
    by (simp add: take_drop)
  then have x: "take 3 (drop 8 (dir_entry_bytes e)) = de_ext e"
    using n(2) len by simp
  show ?thesis
    unfolding read_dir_entry_def n(1) x using len(1) b
    by (simp add: bytes get8_put16 get8_put32 get16_put16_same get16_put16_other get16_put32_other get32_put32_same)
qed
section \<open>The root directory of FAT12 and FAT16\<close>

text \<open>The root directory is the area between the table and the data; the code scans its first \<open>MAX_DIR_ENTRIES\<close> entries.\<close>

definition root_sector :: "'d fat \<Rightarrow> nat \<Rightarrow> u32" where
  "root_sector s i = of_nat (fat_end s + i div 16)"

definition slot :: "'d fat \<Rightarrow> (u32 \<Rightarrow> bytes) \<Rightarrow> nat \<Rightarrow> fat_dir_entry" where
  "slot s D i = read_dir_entry (take 32 (drop (i mod 16 * 32) (D (root_sector s i))))"

definition slots :: "'d fat \<Rightarrow> nat" where
  "slots s = min 512 (unat (root_entries (bpb s)))"

definition root_ok :: "'d fat \<Rightarrow> bool" where
  "root_ok s \<longleftrightarrow> (ftype s = FAT_TYPE_12 \<or> ftype s = FAT_TYPE_16) \<and> current_cluster s = 0 \<and>
     fat_end s + (unat (root_entries (bpb s)) + 15) div 16 \<le> unat (first_data s)"

lemma root_sector_unat:
  assumes g: "geo_ok s" and r: "root_ok s" and i: "i < slots s"
  shows "unat (root_sector s i) = fat_end s + i div 16" "root_sector s i < 0x10000000" "unat (root_sector s i) < unat (first_data s)"
proof -
  have "i + 16 \<le> unat (root_entries (bpb s)) + 15"
    using i by (simp add: slots_def)
  from div_le_mono [OF this, of 16] have "i div 16 < (unat (root_entries (bpb s)) + 15) div 16"
    by simp
  then have lt: "fat_end s + i div 16 < unat (first_data s)"
    using r by (simp add: root_ok_def)
  moreover have "unat (first_data s) \<le> 2 ^ 28"
    using g by (simp add: geo_ok_def)
  ultimately show e: "unat (root_sector s i) = fat_end s + i div 16"
    unfolding root_sector_def by (simp only: unat_of_nat) simp
  show "unat (root_sector s i) < unat (first_data s)"
    using lt e by simp
  show "root_sector s i < 0x10000000"
    using lt e \<open>unat (first_data s) \<le> 2 ^ 28\<close> by (simp add: word_less_nat_alt)
qed

lemma dir_location_root:
  assumes r: "root_ok s" and i: "i < 512"
  shows "dir_location b 0 i s = Some (if i < slots s then Some (root_sector s i, i mod 16 * 32) else None, s)"
proof -
  have d: "(of_nat i :: u32) div 16 = of_nat (i div 16)"
    by (rule unsigned_word_eqI [where ?'a = nat]) (use i in \<open>simp add: unat_div_distrib unat_of_nat\<close>)
  have "(of_nat i :: u32) \<ge> ucast (root_entries (bpb s)) \<longleftrightarrow> \<not> i < slots s"
    using i by (auto simp: word_le_nat_alt unat_of_nat slots_def)
  moreover have "ucast (reserved_sectors (bpb s)) + ucast (fat_count (bpb s)) * fat_size s + of_nat i div 16 = root_sector s i"
    unfolding d by (simp add: root_sector_def fat_end_def)
  ultimately show ?thesis
    using r by (auto simp: dir_location_def root_ok_def DIR_ENTRY_SIZE_def)
qed

lemma vol_step_root:
  assumes "vol_step view a s D s'"
  shows "slot s' = slot s" "slots s' = slots s" "root_ok s' = root_ok s" "root_sector s' = root_sector s"
  unfolding fun_eq_iff slot_def slots_def root_ok_def root_sector_def vol_step_fields [OF assms] vol_step_views [OF assms] by simp_all

lemma slot_shape: "length (D (root_sector s i)) = 512 \<Longrightarrow> entry_shape (slot s D i)"
proof -
  assume "length (D (root_sector s i)) = 512"
  moreover have "i mod 16 < 16"
    by simp
  ultimately show ?thesis
    by (simp add: slot_def entry_shape_def read_dir_entry_def)
qed

text \<open>What the scans find, as functions of the entries.\<close>

fun find_slot :: "'d fat \<Rightarrow> (u32 \<Rightarrow> bytes) \<Rightarrow> string \<Rightarrow> nat list \<Rightarrow> (fat_dir_entry \<times> nat) option" where
  "find_slot s D name [] = None"
| "find_slot s D name (i # is) =
     (if slots s \<le> i \<or> first_byte (slot s D i) = 0 then None
      else if hidden_entry (slot s D i) \<or> \<not> name_match (slot s D i) name then find_slot s D name is
      else Some (slot s D i, i))"

fun free_slot :: "'d fat \<Rightarrow> (u32 \<Rightarrow> bytes) \<Rightarrow> nat list \<Rightarrow> nat option" where
  "free_slot s D [] = None"
| "free_slot s D (i # is) =
     (if slots s \<le> i then None
      else if first_byte (slot s D i) = 0 \<or> first_byte (slot s D i) = 0xE5 then Some i
      else free_slot s D is)"

context ready_disk
begin

lemma dir_read_root:
  assumes ok: "fs_ok view a s" and r: "root_ok s" and i: "i < 512"
  obtains s' where "dir_read b 0 i s = Some (if i < slots s then Some (slot s (disk_of view a s) i) else None, s')"
    "vol_step view a s (disk_of view a s) s'"
proof (cases "i < slots s")
  case True
  have v: "vol_ok view a s" and g: "geo_ok s"
    using ok by (simp_all add: fs_ok_def)
  obtain s' where "rd_sector b (root_sector s i) s = Some (Some (disk_of view a s (root_sector s i)), s')"
    "vol_step view a s (disk_of view a s) s'"
    by (rule rd_vol [OF v root_sector_unat(2) [OF g r True]])
  then show thesis
    using True by (intro that [of s']) (simp_all add: dir_read_def dir_location_root [OF r i] slot_def)
next
  case False
  then show thesis
    using ok by (intro that [of s]) (simp_all add: dir_read_def dir_location_root [OF r i] vol_step_def fs_ok_def)
qed

lemma find_loop_root:
  assumes "fs_ok view a s" "root_ok s" "\<forall>i \<in> set is. i < 512"
  shows "\<exists>s'. find_entry_loop b 0 name is s = Some (find_slot s (disk_of view a s) name is, s') \<and> vol_step view a s (disk_of view a s) s'"
  using assms
proof (induction "is" arbitrary: s)
  case Nil
  then show ?case
    by (auto simp: vol_step_def fs_ok_def)
next
  case (Cons i js)
  have i: "i < 512"
    using Cons.prems by simp
  obtain s1 where r: "dir_read b 0 i s = Some (if i < slots s then Some (slot s (disk_of view a s) i) else None, s1)"
    and t1: "vol_step view a s (disk_of view a s) s1"
    by (rule dir_read_root [OF Cons.prems(1,2) i])
  note f1 = vol_step_fields [OF t1] vol_step_root [OF t1]
  have p: "fs_ok view a s1" "root_ok s1" "\<forall>i \<in> set js. i < 512"
    using vol_step_fs_ok [OF t1] Cons.prems f1 by simp_all
  have "find_slot s1 = find_slot s"
  proof (intro ext)
    show "find_slot s1 D n xs = find_slot s D n xs" for D n xs
      by (induction xs) (simp_all add: f1)
  qed
  with Cons.IH [OF p] obtain s2 where "find_entry_loop b 0 name js s1 = Some (find_slot s (disk_of view a s) name js, s2)"
    "vol_step view a s1 (disk_of view a s) s2"
    by (auto simp: f1)
  then show ?case
    using r t1 vol_step_trans [OF t1] by (auto simp: not_less)
qed

lemma find_entry_root:
  assumes "fs_ok view a s" "root_ok s"
  obtains s' where "find_entry b 0 name s = Some (find_slot s (disk_of view a s) name [0..<512], s')"
    "vol_step view a s (disk_of view a s) s'"
  using find_loop_root [OF assms, of "[0..<512]" name] by (auto simp: find_entry_def MAX_DIR_ENTRIES_def)

lemma free_loop_root:
  assumes "fs_ok view a s" "root_ok s" "\<forall>i \<in> set is. i < 512"
  shows "\<exists>s'. free_entry_loop b 0 is s = Some (free_slot s (disk_of view a s) is, s') \<and> vol_step view a s (disk_of view a s) s'"
  using assms
proof (induction "is" arbitrary: s)
  case Nil
  then show ?case
    by (auto simp: vol_step_def fs_ok_def)
next
  case (Cons i js)
  have i: "i < 512"
    using Cons.prems by simp
  obtain s1 where r: "dir_read b 0 i s = Some (if i < slots s then Some (slot s (disk_of view a s) i) else None, s1)"
    and t1: "vol_step view a s (disk_of view a s) s1"
    by (rule dir_read_root [OF Cons.prems(1,2) i])
  note f1 = vol_step_fields [OF t1] vol_step_root [OF t1]
  have p: "fs_ok view a s1" "root_ok s1" "\<forall>i \<in> set js. i < 512"
    using vol_step_fs_ok [OF t1] Cons.prems f1 by simp_all
  have "free_slot s1 = free_slot s"
  proof (intro ext)
    show "free_slot s1 D xs = free_slot s D xs" for D xs
      by (induction xs) (simp_all add: f1)
  qed
  with Cons.IH [OF p] obtain s2 where "free_entry_loop b 0 js s1 = Some (free_slot s (disk_of view a s) js, s2)"
    "vol_step view a s1 (disk_of view a s) s2"
    by (auto simp: f1)
  moreover have "grow_dir b 0 i s1 = Some (None, s1)"
    using p(2) by (auto simp: grow_dir_def root_ok_def)
  ultimately show ?case
    using r t1 vol_step_trans [OF t1] by (auto simp: not_less)
qed

lemma free_entry_root:
  assumes "fs_ok view a s" "root_ok s"
  obtains s' where "free_entry_index b 0 s = Some (free_slot s (disk_of view a s) [0..<512], s')"
    "vol_step view a s (disk_of view a s) s'"
  using free_loop_root [OF assms, of "[0..<512]"] by (auto simp: free_entry_index_def MAX_DIR_ENTRIES_def)

end
lemma put_bytes_window:
  assumes "off + length src \<le> length b"
  shows "take (length src) (drop off (put_bytes off src b)) = src"
  using assms by (simp add: put_bytes_def)

lemma put_bytes_other:
  assumes "off + length src \<le> length b" "p + n \<le> off \<or> off + length src \<le> p"
  shows "take n (drop p (put_bytes off src b)) = take n (drop p b)"
proof (rule nth_equalityI)
  fix k
  assume "k < length (take n (drop p (put_bytes off src b)))"
  then have k: "k < n" "p + k < length b"
    using assms(1) by auto
  show "take n (drop p (put_bytes off src b)) ! k = take n (drop p b) ! k"
    using assms k by (auto simp: put_bytes_def nth_append)
qed (use assms(1) in simp)

definition dir_upd :: "'d fat \<Rightarrow> nat \<Rightarrow> fat_dir_entry \<Rightarrow> (u32 \<Rightarrow> bytes) \<Rightarrow> (u32 \<Rightarrow> bytes) \<Rightarrow> bool" where
  "dir_upd s i e D D' \<longleftrightarrow> slot s D' i = e \<and> (\<forall>j < slots s. j \<noteq> i \<longrightarrow> slot s D' j = slot s D j) \<and>
     (\<forall>l. unat l < fat_end s \<or> unat (first_data s) \<le> unat l \<longrightarrow> D' l = D l)"

lemma dir_updI:
  assumes g: "geo_ok s" and r: "root_ok s" and i: "i < slots s" and e: "entry_shape e"
    and len: "length (D (root_sector s i)) = 512"
  shows "dir_upd s i e D (D(root_sector s i := put_bytes (i mod 16 * 32) (dir_entry_bytes e) (D (root_sector s i))))"
    (is "dir_upd s i e D ?D'")
proof -
  let ?l = "root_sector s i" and ?o = "\<lambda>i :: nat. i mod 16 * 32"
  have fit: "?o j + 32 \<le> 512" for j
    using mod_less_divisor [of 16 j] by linarith
  have "slot s ?D' i = e"
    using put_bytes_window [of "?o i" "dir_entry_bytes e" "D ?l"] e len fit [of i] entry_round_trip [OF e] by (simp add: slot_def)
  moreover have "slot s ?D' j = slot s D j" if "j < slots s" "j \<noteq> i" for j
  proof (cases "root_sector s j = ?l")
    case True
    then have "j div 16 = i div 16"
      using root_sector_unat(1) [OF g r i] root_sector_unat(1) [OF g r that(1)] by simp
    then have "j mod 16 \<noteq> i mod 16"
      using that(2) by (metis div_mult_mod_eq)
    then have "?o j + 32 \<le> ?o i \<or> ?o i + 32 \<le> ?o j"
      by linarith
    then show ?thesis
      using put_bytes_other [of "?o i" "dir_entry_bytes e" "D ?l" "?o j" 32] e len fit [of i] True by (simp add: slot_def)
  qed (simp add: slot_def)
  moreover have "?D' l = D l" if "unat l < fat_end s \<or> unat (first_data s) \<le> unat l" for l
    using that root_sector_unat(1,3) [OF g r i] by auto
  ultimately show ?thesis
    unfolding dir_upd_def by blast
qed

context ready_disk
begin

lemma dir_write_root:
  assumes ok: "fs_ok view a s" and r: "root_ok s" and i: "i < slots s" and e: "entry_shape e"
  obtains s' D' where "dir_write b 0 i e s = Some (True, s')" "vol_step view a s D' s'" "dir_upd s i e (disk_of view a s) D'"
proof -
  let ?D = "disk_of view a s" and ?l = "root_sector s i"
  have v: "vol_ok view a s" and g: "geo_ok s" and i5: "i < 512"
    using ok i by (simp_all add: fs_ok_def slots_def)
  note l = root_sector_unat(2) [OF g r i] and len = disk_length [OF v, of ?l]
  obtain s1 where 1: "rd_sector b ?l s = Some (Some (?D ?l), s1)" and t1: "vol_step view a s ?D s1"
    by (rule rd_vol [OF v l])
  note f1 = vol_step_fields [OF t1]
  define sec where "sec = put_bytes (i mod 16 * 32) (dir_entry_bytes e) (?D ?l)"
  have "i mod 16 * 32 + 32 \<le> 512"
    using mod_less_divisor [of 16 i] by linarith
  then have sl: "length sec = 512"
    using e len by (simp add: sec_def put_bytes_def)
  obtain s2 where 2: "wr_sector b ?l sec s1 = (True, s2)" and t2: "vol_step view a s1 (?D(?l := sec)) s2"
    using wr_vol [OF f1(16) l sl] f1(17) by auto
  have "dir_write b 0 i e s = Some (True, s2)"
    using 1 2 i by (simp add: dir_write_def dir_location_root [OF r i5] sec_def)
  then show thesis
    by (rule that [OF _ vol_step_trans [OF t1 t2]]) (use dir_updI [OF g r i e, of ?D] len in \<open>simp add: sec_def\<close>)
qed

end
section \<open>Creating and reading a file\<close>

lemma find_slot_at:
  assumes "i \<in> set is" "sorted_wrt (<) is" "i < slots s"
    "\<forall>j \<in> set is. j < i \<longrightarrow> first_byte (slot s D j) \<noteq> 0 \<and> (hidden_entry (slot s D j) \<or> \<not> name_match (slot s D j) name)"
    "first_byte (slot s D i) \<noteq> 0" "\<not> hidden_entry (slot s D i)" "name_match (slot s D i) name"
  shows "find_slot s D name is = Some (slot s D i, i)"
  using assms by (induction "is") auto

lemma find_slot_SomeD:
  assumes "find_slot s D name is = Some (e, i)" "sorted_wrt (<) is"
  shows "i \<in> set is" "i < slots s" "e = slot s D i" "first_byte e \<noteq> 0" "\<not> hidden_entry e" "name_match e name"
    "\<forall>j \<in> set is. j < i \<longrightarrow> first_byte (slot s D j) \<noteq> 0 \<and> (hidden_entry (slot s D j) \<or> \<not> name_match (slot s D j) name)"
  using assms by (induction "is") (auto split: if_splits)

lemma free_slot_SomeD:
  assumes "free_slot s D is = Some i" "sorted_wrt (<) is"
  shows "i \<in> set is" "i < slots s"
    "\<forall>j \<in> set is. j < i \<longrightarrow> first_byte (slot s D j) \<noteq> 0 \<and> first_byte (slot s D j) \<noteq> 0xE5"
  using assms by (induction "is") (auto split: if_splits)

lemma find_slot_NoneD:
  assumes "find_slot s D name is = None" "sorted_wrt (<) is" "i \<in> set is" "i < slots s"
    "\<forall>j \<in> set is. j < i \<longrightarrow> first_byte (slot s D j) \<noteq> 0"
  shows "\<forall>j \<in> set is. j < i \<longrightarrow> hidden_entry (slot s D j) \<or> \<not> name_match (slot s D j) name"
  using assms by (induction "is") (auto split: if_splits)

text \<open>The entry that \<open>fat_create\<close> fills in before it knows the cluster and the size.\<close>

definition new_entry :: "string \<Rightarrow> fat_dir_entry" where
  "new_entry name = zero_entry\<lparr>de_name := take 8 (make_sfn name), de_ext := drop 8 (make_sfn name), de_attr := 0x20\<rparr>"

definition fat_name_ok :: "string \<Rightarrow> bool" where
  "fat_name_ok name \<longleftrightarrow> name \<noteq> [] \<and> NUL \<notin> set name \<and> of_char (hd name) \<noteq> (0xE5 :: u8)"

lemma length_make_sfn: "length (make_sfn name) = 11"
  by (simp add: make_sfn_def pad_def)

lemma new_entry_shape: "entry_shape (new_entry name)"
  by (simp add: new_entry_def entry_shape_def length_make_sfn)

lemma sfn_char_ok: "of_char c \<noteq> (0 :: u8) \<Longrightarrow> of_char c \<noteq> (0xE5 :: u8) \<Longrightarrow> sfn_char c \<noteq> 0 \<and> sfn_char c \<noteq> 0xE5"
proof -
  assume c: "of_char c \<noteq> (0 :: u8)" "of_char c \<noteq> (0xE5 :: u8)"
  define v :: u8 where "v = of_char c"
  have "v - 32 \<noteq> 0" "v - 32 \<noteq> 0xE5" if "97 \<le> v" "v \<le> 122"
  proof -
    have "unat (v - 32) = unat v - 32"
      using unat_sub [of 32 v] that by (simp add: word_le_nat_alt)
    then have "unat (v - 32) \<noteq> unat (0 :: u8)" "unat (v - 32) \<noteq> unat (0xE5 :: u8)"
      using that by (simp_all add: word_le_nat_alt)
    then show "v - 32 \<noteq> 0" "v - 32 \<noteq> 0xE5"
      by metis+
  qed
  then show ?thesis
    using c by (auto simp: sfn_char_def v_def Let_def)
qed

lemma unat_of_char: "unat (of_char c :: u8) = of_char c"
proof -
  have "(of_char c :: nat) < 256"
    by simp
  then have "unat (of_nat (of_char c) :: u8) = of_char c"
    by (simp only: unat_of_nat) simp
  then show ?thesis
    by (simp add: of_nat_of_char)
qed

lemma of_char_0: "of_char c = (0 :: u8) \<longleftrightarrow> c = NUL"
proof
  assume "of_char c = (0 :: u8)"
  then have "(of_char c :: nat) = 0"
    using unat_of_char [of c] by simp
  then show "c = NUL"
    using of_char_pos_iff [of c] by (metis less_irrefl)
qed simp

lemma new_entry_first:
  assumes "fat_name_ok name"
  shows "first_byte (new_entry name) \<noteq> 0" "first_byte (new_entry name) \<noteq> 0xE5" "\<not> hidden_entry (new_entry name)"
    "name_match (new_entry name) name"
proof -
  obtain c cs where name: "name = c # cs" "of_char c \<noteq> (0 :: u8)" "of_char c \<noteq> (0xE5 :: u8)"
    using assms by (cases name) (auto simp: fat_name_ok_def of_char_0)
  have "first_byte (new_entry name) = (if c = CHR ''.'' then 32 else sfn_char c)"
    by (simp add: first_byte_def new_entry_def make_sfn_def pad_def get8_def name)
  then show f: "first_byte (new_entry name) \<noteq> 0" "first_byte (new_entry name) \<noteq> 0xE5"
    using sfn_char_ok [OF name(2,3)] by simp_all
  show "\<not> hidden_entry (new_entry name)"
    using f(2) by (simp add: hidden_entry_def) (simp add: new_entry_def ATTR_LFN_def ATTR_VOLUME_ID_def)
  show "name_match (new_entry name) name"
    by (simp add: name_match_def new_entry_def)
qed

text \<open>The entry to fill, and the clusters that are freed for it.\<close>

definition target :: "'d fat \<Rightarrow> (u32 \<Rightarrow> bytes) \<Rightarrow> string \<Rightarrow> (fat_dir_entry \<times> nat) option" where
  "target s D name = (case find_slot s D name [0..<512] of
     Some (e, i) \<Rightarrow> if de_attr e AND ATTR_DIRECTORY \<noteq> 0 then None else Some (e, i)
   | None \<Rightarrow> map_option (\<lambda>i. (new_entry name, i)) (free_slot s D [0..<512]))"

definition old_chain :: "'d fat \<Rightarrow> (u32 \<Rightarrow> bytes) \<Rightarrow> string \<Rightarrow> u32 set" where
  "old_chain s D name = (case find_slot s D name [0..<512] of
     Some (e, i) \<Rightarrow> chain_set s D (entry_cluster (ftype s) e) | None \<Rightarrow> {})"

lemma upt_sorted: "sorted_wrt (<) [0..<n]"
  by (simp add: sorted_wrt_iff_nth_less)

lemma target_SomeD:
  assumes t: "target s D name = Some (e, i)" and n: "fat_name_ok name" and len: "\<forall>l. length (D l) = 512"
  shows "i < slots s" "entry_shape e" "de_attr e AND ATTR_DIRECTORY = 0" "first_byte e \<noteq> 0" "\<not> hidden_entry e" "name_match e name"
    "\<forall>j < i. first_byte (slot s D j) \<noteq> 0 \<and> (hidden_entry (slot s D j) \<or> \<not> name_match (slot s D j) name)"
proof -
  have "i < slots s \<and> entry_shape e \<and> de_attr e AND ATTR_DIRECTORY = 0 \<and> first_byte e \<noteq> 0 \<and> \<not> hidden_entry e \<and> name_match e name \<and>
    (\<forall>j < i. first_byte (slot s D j) \<noteq> 0 \<and> (hidden_entry (slot s D j) \<or> \<not> name_match (slot s D j) name))"
  proof (cases "find_slot s D name [0..<512]")
    case None
    then have e: "e = new_entry name" and f: "free_slot s D [0..<512] = Some i"
      using t by (auto simp: target_def)
    note fr = free_slot_SomeD [OF f upt_sorted]
    have b: "\<forall>j < i. first_byte (slot s D j) \<noteq> 0"
      using fr by auto
    then have "\<forall>j < i. hidden_entry (slot s D j) \<or> \<not> name_match (slot s D j) name"
      using find_slot_NoneD [OF None upt_sorted fr(1,2)] fr(1) by auto
    then show ?thesis
      using fr(2) b new_entry_first [OF n] new_entry_shape e by (simp add: new_entry_def ATTR_DIRECTORY_def)
  next
    case (Some p)
    then have f: "find_slot s D name [0..<512] = Some (e, i)" and a: "de_attr e AND ATTR_DIRECTORY = 0"
      using t by (cases p; auto simp: target_def split: if_splits)+
    note fr = find_slot_SomeD [OF f upt_sorted]
    show ?thesis
      using fr a slot_shape [of D s i] len by auto
  qed
  then show "i < slots s" "entry_shape e" "de_attr e AND ATTR_DIRECTORY = 0" "first_byte e \<noteq> 0" "\<not> hidden_entry e" "name_match e name"
    "\<forall>j < i. first_byte (slot s D j) \<noteq> 0 \<and> (hidden_entry (slot s D j) \<or> \<not> name_match (slot s D j) name)"
    by blast+
qed
lemma vol_upd_slot:
  assumes g: "geo_ok s" and r: "root_ok s" and u: "vol_upd s f X D D'" and X: "\<forall>x \<in> X. valid_data_cluster x s" and i: "i < slots s"
  shows "slot s D' i = slot s D i"
proof -
  have "D' (root_sector s i) = D (root_sector s i)"
  proof (rule vol_upd_area [OF u])
    show "fat_end s \<le> unat (root_sector s i)"
      using root_sector_unat(1) [OF g r i] by simp
    show "root_sector s i \<notin> (\<Union>c\<in>X. cluster_area s c)"
      using root_sector_unat(3) [OF g r i] cluster_area_ge(1) [OF g] X by fastforce
  qed
  then show ?thesis
    by (simp add: slot_def)
qed

lemma dir_upd_table:
  assumes g: "geo_ok s" and u: "dir_upd s i e D D'" and x: "in_table s x"
  shows "table_val s D' x = table_val s D x"
  unfolding table_val_copy
  by (rule copy_val_cong [OF g _ x]) (use g u in \<open>auto simp: geo_ok_def dir_upd_def\<close>)

lemma dir_upd_sector:
  assumes g: "geo_ok s" and u: "dir_upd s i e D D'" and v: "valid_data_cluster c s" and k: "k < spc s"
  shows "D' (cluster_sector c s + of_nat k) = D (cluster_sector c s + of_nat k)"
  using u cluster_area_ge(1) [OF g v sector_in_area [OF k]] by (simp add: dir_upd_def)

lemma dir_upd_file:
  assumes g: "geo_ok s" and u: "dir_upd s i e D D'" and l: "linked s D cs" and st: "stored s D B cs"
  shows "linked s D' cs" "stored s D' B cs"
proof -
  have v: "valid_data_cluster (cs ! k) s" if "k < length cs" for k
    using l that by (simp add: linked_def)
  show "linked s D' cs"
    using l dir_upd_table [OF g u] v valid_cluster [OF g] by (simp add: linked_def)
  show "stored s D' B cs"
    using st dir_upd_sector [OF g u v] by (simp add: stored_def)
qed

lemma free_clusters_freed:
  assumes g: "geo_ok s" and u: "table_upd s (freeing X) D D'"
  shows "free_clusters s D \<subseteq> free_clusters s D'" "free_clusters s D' \<subseteq> free_clusters s D \<union> X"
  using table_upd_val [OF u g] valid_cluster [OF g] by (auto simp: free_clusters_def freeing_def split: if_splits)

lemma entry_cluster_set:
  assumes "ftype s = FAT_TYPE_12 \<or> ftype s = FAT_TYPE_16" and ok: "fs_ok view a s" and v: "valid_data_cluster c s"
  shows "entry_cluster (ftype s) (set_entry_cluster (ftype s) c e) = c"
proof -
  have "unat c < 2 ^ 16"
    using v valid_cluster [of s c] count_bound [OF ok] ok assms(1) by (auto simp: fs_ok_def in_table_def split: if_splits)
  then have "unat (ucast c :: u16) = unat c"
    by (simp add: unsigned_ucast_eq take_bit_nat_eq_self_iff)
  then have "unat (ucast (ucast c :: u16) :: u32) = unat c"
    by simp
  then have "ucast (ucast c :: u16) = c"
    using word_unat_ne by blast
  then show ?thesis
    using assms(1) by (auto simp: entry_cluster_def set_entry_cluster_def)
qed

definition made_entry :: "'d fat \<Rightarrow> u32 \<Rightarrow> u32 \<Rightarrow> fat_dir_entry \<Rightarrow> fat_dir_entry" where
  "made_entry s c sz e = (set_entry_cluster (ftype s) c e)\<lparr>de_size := sz\<rparr>"

lemma made_entry_simps [simp]:
  "entry_shape (made_entry s c sz e) = entry_shape e" "first_byte (made_entry s c sz e) = first_byte e"
  "hidden_entry (made_entry s c sz e) = hidden_entry e" "name_match (made_entry s c sz e) name = name_match e name"
  "de_attr (made_entry s c sz e) = de_attr e" "de_size (made_entry s c sz e) = sz"
  "entry_cluster t (made_entry s c sz e) = entry_cluster t (set_entry_cluster (ftype s) c e)"
  by (simp_all add: made_entry_def set_entry_cluster_def entry_shape_def first_byte_def hidden_entry_def name_match_def entry_cluster_def)

context ready_disk
begin

lemma create_entry_spec:
  assumes ok: "fs_ok view a s" and r: "root_ok s" and t: "target s (disk_of view a s) name = Some (e, i)"
  obtains s' D' where "create_entry b name s = Some (Some (e, i), s')" "vol_step view a s D' s'"
    "table_upd s (freeing (old_chain s (disk_of view a s) name)) (disk_of view a s) D'"
proof -
  let ?D = "disk_of view a s"
  have c0: "current_cluster s = 0"
    using r by (simp add: root_ok_def)
  obtain s1 where 1: "find_entry b 0 name s = Some (find_slot s ?D name [0..<512], s1)" and t1: "vol_step view a s ?D s1"
    by (rule find_entry_root [OF ok r])
  note f1 = vol_step_fields [OF t1] vol_step_root [OF t1] vol_step_views [OF t1] vol_step_upd [OF t1]
  have ok1: "fs_ok view a s1" and r1: "root_ok s1"
    using vol_step_fs_ok [OF t1 ok] r f1 by simp_all
  show thesis
  proof (cases "find_slot s ?D name [0..<512]")
    case None
    then have e: "e = new_entry name" and fr: "free_slot s ?D [0..<512] = Some i"
      using t by (auto simp: target_def)
    have fs: "free_slot s1 D xs = free_slot s D xs" for D xs
      by (induction xs) (simp_all add: f1)
    obtain s2 where 2: "free_entry_index b 0 s1 = Some (Some i, s2)" and t2: "vol_step view a s1 ?D s2"
      using free_entry_root [OF ok1 r1] fr unfolding f1 fs by auto
    show thesis
      by (rule that [OF _ vol_step_trans [OF t1 t2]])
        (use None 1 2 c0 f1 e table_upd_refl [of s ?D] in
          \<open>simp_all add: create_entry_def new_entry_def old_chain_def freeing_def [abs_def]\<close>)
  next
    case (Some p)
    then have p: "p = (e, i)" and a: "de_attr e AND ATTR_DIRECTORY = 0"
      using t by (cases p; auto simp: target_def split: if_splits)+
    have cs: "chain_set s1 = chain_set s"
      using f1 by (simp add: chain_set_def [abs_def] chain_step_def [abs_def])
    obtain s2 D2 where 2: "free_chain b (entry_cluster (ftype s) e) s1 = Some s2" and t2: "vol_step view a s1 D2 s2"
      and u: "table_upd s (freeing (chain_set s ?D (entry_cluster (ftype s) e))) ?D D2"
      using free_chain_spec [OF ok1, of "entry_cluster (ftype s) e"] unfolding f1 cs by auto
    show thesis
      by (rule that [OF _ vol_step_trans [OF t1 t2]]) (use Some p a 1 2 c0 f1 u in \<open>simp_all add: create_entry_def old_chain_def\<close>)
  qed
qed

end

lemma free_slot_is_free: "free_slot s D is = Some i \<Longrightarrow> first_byte (slot s D i) = 0 \<or> first_byte (slot s D i) = 0xE5"
  by (induction "is") (auto split: if_splits)

text \<open>A file of the root directory: its entry is found under the name, and its clusters \<open>cs\<close> hold the bytes \<open>B\<close>.\<close>

definition file_at :: "'d fat \<Rightarrow> (u32 \<Rightarrow> bytes) \<Rightarrow> string \<Rightarrow> u32 list \<Rightarrow> bytes \<Rightarrow> bool" where
  "file_at s D name cs B \<longleftrightarrow> cs \<noteq> [] \<and> distinct cs \<and> linked s D cs \<and> is_eoc (ftype s) (table_val s D (last cs)) \<and>
     stored s D B cs \<and> length B \<le> length cs * (spc s * 512) \<and>
     (case find_slot s D name [0..<512] of
        None \<Rightarrow> False
      | Some (e, i) \<Rightarrow> de_attr e AND ATTR_DIRECTORY = 0 \<and> unat (de_size e) = length B \<and> entry_cluster (ftype s) e = hd cs)"

lemma vol_step_file:
  assumes "vol_step view a s D s'"
  shows "file_at s' = file_at s" "find_slot s' = find_slot s" "target s' = target s" "old_chain s' = old_chain s"
proof -
  note f = vol_step_fields [OF assms] vol_step_root [OF assms] vol_step_areas [OF assms] vol_step_views [OF assms]
    vol_step_building [OF assms]
  have fs: "find_slot s' D name xs = find_slot s D name xs" for D name xs
    by (induction xs) (simp_all add: f)
  have fr: "free_slot s' D xs = free_slot s D xs" for D xs
    by (induction xs) (simp_all add: f)
  have cs: "chain_set s' = chain_set s"
    using f by (simp add: chain_set_def [abs_def] chain_step_def [abs_def])
  show "file_at s' = file_at s" "find_slot s' = find_slot s" "target s' = target s" "old_chain s' = old_chain s"
    unfolding fun_eq_iff file_at_def target_def old_chain_def fs fr cs f by simp_all
qed

text \<open>The disk after \<open>fat_create\<close>: the old chain \<open>X\<close> is free, the clusters \<open>cs\<close> were free and hold the file, slot \<open>i\<close> describes it.\<close>

definition created :: "'d fat \<Rightarrow> string \<Rightarrow> bytes \<Rightarrow> u32 list \<Rightarrow> (u32 \<Rightarrow> bytes) \<Rightarrow> (u32 \<Rightarrow> bytes) \<Rightarrow> bool" where
  "created s name B cs D D' \<longleftrightarrow> (\<exists>e i sz D1 D2. target s D name = Some (e, i) \<and>
     table_upd s (freeing (old_chain s D name)) D D1 \<and> building s D1 D2 B cs \<and> cs \<noteq> [] \<and>
     length B \<le> length cs * (spc s * 512) \<and> unat sz = length B \<and> dir_upd s i (made_entry s (hd cs) sz e) D2 D')"

lemma created_slots:
  assumes ok: "fs_ok view a s" and r: "root_ok s" and u: "table_upd s (freeing X) D D1" and bd: "building s D1 D2 B cs"
    and d: "dir_upd s i e D2 D'" and j: "j < slots s" "j \<noteq> i"
  shows "slot s D' j = slot s D j"
proof -
  have g: "geo_ok s"
    using ok by (simp add: fs_ok_def)
  obtain f where "vol_upd s f (set cs) D1 D2" "\<forall>x \<in> set cs. valid_data_cluster x s"
    using bd by (auto simp: building_def linked_def)
  then have "slot s D2 j = slot s D1 j"
    by (rule vol_upd_slot [OF g r _ _ j(1)])
  moreover have "slot s D1 j = slot s D j"
    by (rule vol_upd_slot [OF g r table_upd_vol [OF u, of "{}"] _ j(1)]) simp
  ultimately show ?thesis
    using d j by (simp add: dir_upd_def)
qed

lemma created_file:
  assumes ok: "fs_ok view a s" and r: "root_ok s" and n: "fat_name_ok name" and len: "\<forall>l. length (D l) = 512"
    and cr: "created s name B cs D D'"
  shows "file_at s D' name cs B"
proof -
  have g: "geo_ok s"
    using ok by (simp add: fs_ok_def)
  obtain e i sz D1 D2 where t: "target s D name = Some (e, i)" and u: "table_upd s (freeing (old_chain s D name)) D D1"
    and bd: "building s D1 D2 B cs" and cs: "cs \<noteq> []" and cover: "length B \<le> length cs * (spc s * 512)" and sz: "unat sz = length B"
    and d: "dir_upd s i (made_entry s (hd cs) sz e) D2 D'"
    using cr unfolding created_def by blast
  note tg = target_SomeD [OF t n len]
  have hd: "valid_data_cluster (hd cs) s"
    using bd cs by (simp add: building_def linked_def)
  have st: "linked s D2 cs" "stored s D2 B cs" "distinct cs" "is_eoc (ftype s) (table_val s D2 (last cs))"
    using bd cs by (simp_all add: building_def)
  have s_i: "slot s D' i = made_entry s (hd cs) sz e"
    using d by (simp add: dir_upd_def)
  have "find_slot s D' name [0..<512] = Some (slot s D' i, i)"
    by (rule find_slot_at)
      (use tg upt_sorted s_i created_slots [OF ok r u bd d] in \<open>auto simp: slots_def\<close>)
  moreover have "in_table s (last cs)"
    using st(1) cs valid_cluster [OF g] by (simp add: linked_def)
  ultimately show ?thesis
    using cs st cover sz s_i tg(3) dir_upd_file [OF g d st(1,2)] dir_upd_table [OF g d, of "last cs"]
      entry_cluster_set [OF _ ok hd, of e] r
    by (simp add: file_at_def root_ok_def)
qed

text \<open>Creating a file leaves every other file as it is.\<close>

lemma created_cluster:
  assumes ok: "fs_ok view a s" and u: "table_upd s (freeing X) D D1" and bd: "building s D1 D2 B cs" and d: "dir_upd s i e D2 D'"
    and c: "valid_data_cluster c s" "table_val s D c \<noteq> 0" "c \<notin> X"
  shows "table_val s D' c = table_val s D c" "k < spc s \<Longrightarrow> D' (cluster_sector c s + of_nat k) = D (cluster_sector c s + of_nat k)"
proof -
  have g: "geo_ok s"
    using ok by (simp add: fs_ok_def)
  have it: "in_table s c"
    using c(1) valid_cluster [OF g] by simp
  have 1: "table_val s D1 c = table_val s D c"
    using table_upd_val [OF u g it] c(3) by (simp add: freeing_def)
  have new: "c \<notin> set cs"
    using bd c(2) 1 by (auto simp: building_def free_clusters_def)
  show "table_val s D' c = table_val s D c"
    using 1 building_free [OF g bd c(1) new] dir_upd_table [OF g d it] by simp
  obtain f where v: "vol_upd s f (set cs) D1 D2" "\<forall>x \<in> set cs. valid_data_cluster x s"
    using bd by (auto simp: building_def linked_def)
  show "D' (cluster_sector c s + of_nat k) = D (cluster_sector c s + of_nat k)" if k: "k < spc s"
    using vol_upd_cluster [OF g v(1) c(1) v(2) new k] table_upd_area [OF u cluster_area_ge(2) [OF g c(1) sector_in_area [OF k]]]
      dir_upd_sector [OF g d c(1) k] by simp
qed

lemma created_keeps:
  assumes ok: "fs_ok view a s" and r: "root_ok s" and n: "fat_name_ok name" and len: "\<forall>l. length (D l) = 512"
    and cr: "created s name B cs D D'"
    and f: "file_at s D name2 cs2 B2" and other: "make_sfn name2 \<noteq> make_sfn name" and disj: "set cs2 \<inter> old_chain s D name = {}"
  shows "file_at s D' name2 cs2 B2"
proof -
  obtain e i sz D1 D2 where t: "target s D name = Some (e, i)" and u: "table_upd s (freeing (old_chain s D name)) D D1"
    and bd: "building s D1 D2 B cs" and d: "dir_upd s i (made_entry s (hd cs) sz e) D2 D'"
    using cr unfolding created_def by blast
  note tg = target_SomeD [OF t n len]
  obtain e2 i2 where f2: "find_slot s D name2 [0..<512] = Some (e2, i2)"
    using f by (auto simp: file_at_def split: option.splits)
  note fd = find_slot_SomeD [OF f2 upt_sorted]
  have nm: "\<not> name_match e name2" "\<not> name_match e2 name"
  proof -
    have "\<not> (name_match x name \<and> name_match x name2)" for x
      using other append_take_drop_id [of 8 "make_sfn name"] append_take_drop_id [of 8 "make_sfn name2"]
      unfolding name_match_def by metis
    then show "\<not> name_match e name2" "\<not> name_match e2 name"
      using tg(6) fd(6) by auto
  qed
  have "i2 \<noteq> i"
  proof
    assume eq: "i2 = i"
    show False
    proof (cases "find_slot s D name [0..<512]")
      case None
      then have "free_slot s D [0..<512] = Some i"
        using t by (auto simp: target_def)
      then have "first_byte (slot s D i) = 0 \<or> first_byte (slot s D i) = 0xE5"
        by (rule free_slot_is_free)
      then show False
        using fd(3,4,5) eq by (auto simp: hidden_entry_def)
    next
      case (Some p)
      then have "p = (e, i)"
        using t by (cases p; auto simp: target_def split: if_splits)
      then show False
        using find_slot_SomeD(3) [OF Some [unfolded \<open>p = (e, i)\<close>] upt_sorted] fd(3,6) nm(1) eq by simp
    qed
  qed
  have same: "slot s D' j = slot s D j" if "j < slots s" "j \<noteq> i" for j
    by (rule created_slots [OF ok r u bd d that])
  have s_i: "slot s D' i = made_entry s (hd cs) sz e"
    using d by (simp add: dir_upd_def)
  have "find_slot s D' name2 [0..<512] = Some (slot s D' i2, i2)"
  proof (rule find_slot_at [OF fd(1) upt_sorted fd(2)])
    show "\<forall>j \<in> set [0..<512]. j < i2 \<longrightarrow> first_byte (slot s D' j) \<noteq> 0 \<and> (hidden_entry (slot s D' j) \<or> \<not> name_match (slot s D' j) name2)"
    proof (intro ballI impI)
      fix j
      assume j: "j \<in> set [0..<512]" "j < i2"
      show "first_byte (slot s D' j) \<noteq> 0 \<and> (hidden_entry (slot s D' j) \<or> \<not> name_match (slot s D' j) name2)"
        using j fd(2,7) same [of j] s_i tg(4) nm(1) by (cases "j = i") auto
    qed
  qed (use same [OF fd(2) \<open>i2 \<noteq> i\<close>] fd in simp_all)
  then have fs: "find_slot s D' name2 [0..<512] = find_slot s D name2 [0..<512]"
    using f2 same [OF fd(2) \<open>i2 \<noteq> i\<close>] fd(3) by simp
  have used: "valid_data_cluster c s" "table_val s D c \<noteq> 0" "c \<notin> old_chain s D name" if "c \<in> set cs2" for c
    using f that disj linked_used [OF ok, of D cs2 c] by (auto simp: file_at_def linked_def)
  note keep = created_cluster [OF ok u bd d used]
  have "linked s D' cs2" "stored s D' B2 cs2" "table_val s D' (last cs2) = table_val s D (last cs2)"
    using f keep by (auto simp: file_at_def linked_def stored_def)
  then show ?thesis
    using f fs by (simp add: file_at_def)
qed
context ready_disk
begin

lemma fat_create_spec:
  assumes ok: "fs_ok view a s" and r: "root_ok s" and n: "fat_name_ok name"
    and t: "target s (disk_of view a s) name \<noteq> None" and sz: "unat sz \<le> length src"
    and room: "clusters_needed s (unat sz) \<le> card (free_clusters s (disk_of view a s))"
  obtains s' D' cs where "fat_create b name src sz s = Some (0, s')" "vol_step view a s D' s'"
    "created s name (file_bytes src sz) cs (disk_of view a s) D'"
proof -
  let ?D = "disk_of view a s" and ?B = "file_bytes src sz"
  have g: "geo_ok s" and v: "vol_ok view a s" and c0: "current_cluster s = 0" and av: "fat_available s"
    using ok r by (auto simp: fs_ok_def root_ok_def fat_available_def)
  have len: "\<forall>l. length (?D l) = 512"
    using disk_length [OF v] by simp
  obtain e i where te: "target s ?D name = Some (e, i)"
    using t by auto
  note tg = target_SomeD [OF te n len]
  obtain s1 D1 where 1: "create_entry b name s = Some (Some (e, i), s1)" and t1: "vol_step view a s D1 s1"
    and u: "table_upd s (freeing (old_chain s ?D name)) ?D D1"
    by (rule create_entry_spec [OF ok r te])
  note f1 = vol_step_fields [OF t1] vol_step_areas [OF t1] vol_step_building [OF t1]
  have n1: "clusters_needed s1 = clusters_needed s"
    by (simp add: fun_eq_iff clusters_needed_def f1)
  have "card (free_clusters s ?D) \<le> card (free_clusters s D1)"
    by (rule card_mono [OF _ free_clusters_freed(1) [OF g u]]) simp
  then have room1: "clusters_needed s (unat sz) \<le> card (free_clusters s D1)"
    using room by simp
  have bd0: "building s D1 D1 ?B []"
    by (auto simp: building_def linked_def stored_def vol_upd_def intro: exI [of _ Map.empty])
  have w0: "unat (0 :: u32) = min (unat sz) (length [] * (spc s * 512))"
    by simp
  have "\<exists>cs s2 D2. create_loop b src sz 0 0 0 s1 = Some (Some (hd cs), s2) \<and> cs \<noteq> [] \<and>
      vol_step view a s1 D2 s2 \<and> building s D1 D2 ?B cs \<and> unat sz \<le> length cs * (spc s * 512)"
    using create_loop_spec [OF vol_step_fs_ok [OF t1 ok], unfolded f1 n1, OF bd0 room1 sz refl w0]
    by (simp add: first_of_def prev_of_def)
  then obtain cs s2 D2 where 2: "create_loop b src sz 0 0 0 s1 = Some (Some (hd cs), s2)" and cs: "cs \<noteq> []"
    and t2: "vol_step view a s1 D2 s2" and bd: "building s D1 D2 ?B cs" and cover: "unat sz \<le> length cs * (spc s * 512)"
    by blast
  note t12 = vol_step_trans [OF t1 t2]
  note f2 = vol_step_fields [OF t12] vol_step_root [OF t12]
  have me: "(set_entry_cluster (ftype s) (hd cs) e)\<lparr>de_size := sz\<rparr> = made_entry s (hd cs) sz e"
    by (simp add: made_entry_def)
  have du: "dir_upd s2 = dir_upd s"
    unfolding fun_eq_iff dir_upd_def f2 vol_step_views [OF t12] by simp
  have i2: "i < slots s2" "root_ok s2" "entry_shape (made_entry s (hd cs) sz e)"
    using tg(1,2) r f2 by simp_all
  obtain s3 D3 where 3: "dir_write b 0 i (made_entry s (hd cs) sz e) s2 = Some (True, s3)" and t3: "vol_step view a s2 D3 s3"
    and d: "dir_upd s i (made_entry s (hd cs) sz e) D2 D3"
    using dir_write_root [OF vol_step_fs_ok [OF t12 ok] i2(2,1,3)] unfolding f2 du by blast
  have "created s name ?B cs ?D D3"
    unfolding created_def using te u bd cs cover file_bytes_length [OF sz] d by auto
  moreover have "fat_create b name src sz s = Some (0, s3)"
    using av n 1 2 3 c0 me f2 by (simp add: fat_create_def fat_name_ok_def c_status_def)
  ultimately show thesis
    using that vol_step_trans [OF t12 t3] by blast
qed

lemma fat_read_spec:
  assumes ok: "fs_ok view a s" and r: "root_ok s" and f: "file_at s (disk_of view a s) name cs B"
    and m: "length B \<le> unat max_size" "length B \<le> length buf"
  obtains s' where "fat_read b name buf sz max_size s = Some ((0, to_chars B @ drop (length B) buf, of_nat (length B)), s')"
    "vol_step view a s (disk_of view a s) s'"
proof -
  let ?D = "disk_of view a s"
  obtain e i where fs: "find_slot s ?D name [0..<512] = Some (e, i)" and a: "de_attr e AND ATTR_DIRECTORY = 0"
    and sz: "unat (de_size e) = length B" and c: "entry_cluster (ftype s) e = hd cs"
    using f by (auto simp: file_at_def split: option.splits)
  have cs: "cs \<noteq> []" "hd cs = cs ! 0" "linked s ?D cs" "distinct cs" "stored s ?D B cs" "length B \<le> length cs * (spc s * 512)"
    using f by (simp_all add: file_at_def hd_conv_nth)
  obtain s1 where 1: "find_entry b 0 name s = Some (Some (e, i), s1)" and t1: "vol_step view a s ?D s1"
    using find_entry_root [OF ok r, of name] fs by auto
  note f1 = vol_step_fields [OF t1] vol_step_areas [OF t1] vol_step_building [OF t1]
  have "\<not> de_size e > max_size"
    using m sz by (simp add: word_less_nat_alt)
  then have run: "fat_read b name buf sz max_size s = read_loop b (de_size e) sz (cs ! 0) 0 (cs ! 0) 1 0 buf s1"
    using 1 a c cs(2) r f1(2) by (auto simp: fat_read_def root_ok_def fat_available_def Let_def)
  have res: "filled B buf (length B) = to_chars B @ drop (length B) buf" "de_size e = of_nat (length B)"
    using sz by (simp_all add: filled_def flip: sz)
  have ok1: "fs_ok view a s1"
    by (rule vol_step_fs_ok [OF t1 ok])
  have "\<exists>s'. read_loop b (de_size e) sz (cs ! 0) 0 (cs ! 0) 1 0 buf s1 = Some ((0, filled B buf (length B), de_size e), s') \<and>
      vol_step view a s1 ?D s'"
  proof (cases "B = []")
    case True
    then have "de_size e = 0"
      using sz word_unat_ne [of "de_size e" 0] by auto
    then show ?thesis
      using True ok1 f1 by (auto simp: read_loop.simps [of b 0] c_status_def filled_def to_chars_def vol_step_def fs_ok_def)
  next
    case False
    show ?thesis
      using read_loop_spec [OF ok1, unfolded f1, OF cs(3,4,5,6) sz m(2), of 0 "cs ! 0" 0] False cs(1)
      by (simp add: take_Suc_conv_app_nth)
  qed
  then show thesis
    using that run res vol_step_trans [OF t1] by auto
qed

end

section \<open>A blank volume on the simulated drive\<close>

definition sim_volume :: "drive_view fat" where
  "sim_volume = \<lparr>bpb = \<lparr>jump = [], oem = [], bytes_per_sector = 512, sectors_per_cluster = 1, reserved_sectors = 1, fat_count = 2,
       root_entries = 16, total16 = 54, media = 0, fat16_size = 1, sectors_per_track = 0, heads = 0, hidden = 0, total32 = 0\<rparr>,
     ftype = FAT_TYPE_12, total_sectors = 54, fat_size = 1, root_sectors = 1, first_data = 4, cluster_count = 50,
     root_cluster = 0, current_cluster = 0, fsinfo_sector = 0, backup_boot_sector = 0, mounted_drive = 0, cwd = ''/'',
     file_list = [], dsk = sim_disk\<rparr>"

lemma word_bytes_zero: "word_bytes (replicate n 0) = replicate (2 * n) 0"
  by (induction n) (simp_all add: word_bytes_def)

lemma sim_content: "disk_of (\<lambda>d. d) sim_ata sim_volume = (\<lambda>_. zero_sector)"
proof
  fix l
  have "disk_of (\<lambda>d. d) sim_ata sim_volume l = word_bytes (replicate 256 0)"
    by (simp add: disk_of_def sector_def sim_volume_def sim_disk_def block_cache_init_def block_cache_invalidate_def
        terminal_initialize_def sim_bus_def terminal_show_cursor_def terminal_update_cursor_def blank_history_def)
  also have "\<dots> = zero_sector"
    unfolding word_bytes_zero zero_sector_def by (rule arg_cong [of _ _ "\<lambda>n. replicate n 0"]) simp
  finally show "disk_of (\<lambda>d. d) sim_ata sim_volume l = zero_sector" .
qed

lemma sim_fs_ok: "fs_ok (\<lambda>d. d) sim_ata sim_volume" "root_ok sim_volume"
proof -
  show "fs_ok (\<lambda>d. d) sim_ata sim_volume"
    using sim_disk_ok by (simp add: fs_ok_def vol_ok_def sim_volume_def geo_ok_def no_crossing_def entry_pos_def entry_size_def)
  show "root_ok sim_volume"
    by (simp add: root_ok_def sim_volume_def fat_end_def)
qed

lemma zero_slot: "first_byte (slot s (\<lambda>_. zero_sector) i) = 0"
  by (simp add: slot_def read_dir_entry_def first_byte_def get8_def zero_sector_def)

lemma blank_table: "table_val s (\<lambda>_. zero_sector) c = 0"
  by (simp add: table_val_def fat_val_def table_byte_def byte_pair_def get8_def zero_sector_def Let_def)

lemma upt_512: "[0..<512] = 0 # 1 # [Suc 1..<512]"
proof -
  have "[0..<512] = 0 # [Suc 0..<512]"
    by (rule upt_conv_Cons) simp
  also have "[Suc 0..<512] = Suc 0 # [Suc (Suc 0)..<512]"
    by (rule upt_conv_Cons) simp
  finally show ?thesis
    unfolding One_nat_def .
qed
lemma to_chars_file: "unat sz \<le> length src \<Longrightarrow> to_chars (file_bytes src sz) = take (unat sz) src"
  by (simp add: to_chars_def file_bytes_def unat_of_char o_def)

lemma blank_target: "target sim_volume (\<lambda>_. zero_sector) name \<noteq> None"
  unfolding target_def upt_512 by (simp add: zero_slot) (simp add: slots_def sim_volume_def)

lemma some_free:
  assumes "valid_data_cluster c s" "table_val s D c = 0"
  shows "1 \<le> card (free_clusters s D)"
proof -
  have "card {c} \<le> card (free_clusters s D)"
    by (rule card_mono) (use assms in \<open>simp_all add: free_clusters_def\<close>)
  then show ?thesis
    by simp
qed

lemma one_cluster: "n \<le> spc s * 512 \<Longrightarrow> 0 < spc s \<Longrightarrow> clusters_needed s n = 1"
proof -
  assume n: "n \<le> spc s * 512" "0 < spc s"
  then have "n + spc s * 512 - 1 < 2 * (spc s * 512)"
    by linarith
  then have "(n + spc s * 512 - 1) div (spc s * 512) < 2"
    by (rule less_mult_imp_div_less)
  then show ?thesis
    by (simp add: clusters_needed_def)
qed

lemma sim_valid: "valid_data_cluster 2 sim_volume" "valid_data_cluster 3 sim_volume" "spc sim_volume = 1" "slots sim_volume = 16"
  "ftype sim_volume = FAT_TYPE_12"
  by (simp_all add: valid_data_cluster_def spc_def slots_def sim_volume_def)

text \<open>The volume with an empty file in cluster 2.\<close>

definition sim_entry :: fat_dir_entry where
  "sim_entry = made_entry sim_volume 2 0 (new_entry ''a'')"

lemma sim_entry_simps: "first_byte sim_entry = 65" "\<not> hidden_entry sim_entry" "name_match sim_entry ''a''" "\<not> name_match sim_entry ''b''"
  "de_attr sim_entry AND ATTR_DIRECTORY = 0" "de_size sim_entry = 0" "entry_shape sim_entry"
  "entry_cluster FAT_TYPE_12 sim_entry = 2"
proof -
  have e: "first_byte (new_entry ''a'') = 65" "\<not> hidden_entry (new_entry ''a'')" "name_match (new_entry ''a'') ''a''"
    "\<not> name_match (new_entry ''a'') ''b''" "de_attr (new_entry ''a'') AND ATTR_DIRECTORY = 0" "entry_shape (new_entry ''a'')"
    by code_simp+
  then show "first_byte sim_entry = 65" "\<not> hidden_entry sim_entry" "name_match sim_entry ''a''" "\<not> name_match sim_entry ''b''"
    "de_attr sim_entry AND ATTR_DIRECTORY = 0" "de_size sim_entry = 0" "entry_shape sim_entry"
    by (simp_all add: sim_entry_def)
  show "entry_cluster FAT_TYPE_12 sim_entry = 2"
    by (simp add: sim_entry_def made_entry_def entry_cluster_def set_entry_cluster_def)
qed

lemma sim_with_file:
  obtains s D where "fs_ok (\<lambda>d. d) sim_ata s" "root_ok s" "disk_of (\<lambda>d. d) sim_ata s = D" "file_at s D ''a'' [2] []"
    "target s D ''b'' \<noteq> None" "old_chain s D ''b'' = {}" "clusters_needed s 5 \<le> card (free_clusters s D)"
proof -
  let ?Z = "\<lambda>_. zero_sector"
  note ok = sim_fs_ok
  have g: "geo_ok sim_volume"
    using ok(1) by (simp add: fs_ok_def)
  have it: "in_table sim_volume 2" "in_table sim_volume 3"
    using sim_valid valid_cluster [OF g] by simp_all
  obtain s1 D1 where t1: "vol_step (\<lambda>d. d) sim_ata sim_volume D1 s1" and u: "table_upd sim_volume [2 \<mapsto> 0xFFF] ?Z D1"
    using sim_ready.set_entry [OF ok(1) it(1), of "0xFFF"] unfolding sim_content by blast
  note f1 = vol_step_fields [OF t1] vol_step_root [OF t1] vol_step_views [OF t1]
  have du: "dir_upd s1 = dir_upd sim_volume"
    unfolding fun_eq_iff dir_upd_def f1 by simp
  obtain s2 D2 where t2: "vol_step (\<lambda>d. d) sim_ata s1 D2 s2" and d: "dir_upd sim_volume 0 sim_entry D1 D2"
  proof -
    have "root_ok s1" "0 < slots s1"
      using ok(2) sim_valid(4) f1 by simp_all
    from sim_ready.dir_write_root [OF vol_step_fs_ok [OF t1 ok(1)] this sim_entry_simps(7)] show ?thesis
      unfolding f1 du using that by blast
  qed
  note t = vol_step_trans [OF t1 t2]
  note f = vol_step_fields [OF t] vol_step_root [OF t] vol_step_areas [OF t] vol_step_views [OF t] vol_step_building [OF t] vol_step_file [OF t]
  have slot0: "slot sim_volume D2 0 = sim_entry"
    using d by (simp add: dir_upd_def)
  have slot1: "first_byte (slot sim_volume D2 1) = 0"
    using d vol_upd_slot [OF g ok(2) table_upd_vol [OF u, of "{}"], of 1] sim_valid(4) zero_slot [of sim_volume 1] by (simp add: dir_upd_def)
  have val: "table_val sim_volume D2 2 = 0xFFF" "table_val sim_volume D2 3 = 0"
    using dir_upd_table [OF g d] table_upd_val [OF u g] it by (simp_all add: blank_table sim_valid entry_mask_def)
  have sec: "D2 (cluster_sector 2 sim_volume + of_nat 0) = zero_sector"
    using dir_upd_sector [OF g d sim_valid(1), of 0] table_upd_area [OF u cluster_area_ge(2) [OF g sim_valid(1) sector_in_area [of 0]]]
    by (simp add: sim_valid)
  have find: "find_slot sim_volume D2 ''a'' [0..<512] = Some (sim_entry, 0)" "find_slot sim_volume D2 ''b'' [0..<512] = None"
    unfolding upt_512 using slot0 slot1 sim_entry_simps sim_valid(4) by simp_all
  have "file_at sim_volume D2 ''a'' [2] []"
    using find(1) val(1) sec sim_valid sim_entry_simps
    by (simp add: file_at_def linked_def stored_def sec_at_beyond is_eoc_def)
  moreover have "free_slot sim_volume D2 [0..<512] = Some 1"
    unfolding upt_512 using slot0 slot1 sim_entry_simps sim_valid(4) by simp
  then have "target sim_volume D2 ''b'' \<noteq> None" "old_chain sim_volume D2 ''b'' = {}"
    using find(2) by (simp_all add: target_def old_chain_def)
  moreover have "clusters_needed sim_volume 5 \<le> card (free_clusters sim_volume D2)"
    using some_free [OF sim_valid(2) val(2)] one_cluster [of 5 sim_volume] sim_valid(3) by simp
  moreover have "clusters_needed s2 = clusters_needed sim_volume"
    by (simp add: fun_eq_iff clusters_needed_def f)
  ultimately show thesis
    using that [of s2 D2] vol_step_fs_ok [OF t ok(1)] ok(2) unfolding f by simp
qed

section \<open>Properties\<close>

text \<open>C10. The file allocation table is a map from clusters to entries: on a working drive \<open>fat_set\<close> succeeds, and afterwards
  \<open>fat_get\<close> returns the stored value, cut to the width of an entry, for that cluster and for every other cluster what it returned
  before. All copies of the table hold the same update. This covers FAT12 entries that share a byte with their neighbours.\<close>

theorem fat_set_get:
  assumes "ready_disk b view a" "fs_ok view a s" "in_table s c" "in_table s c'"
  shows "\<exists>s1 s2 s3. fat_set b c v s = Some (True, s1) \<and>
    fat_get b c' s = Some (table_val s (disk_of view a s) c', s2) \<and>
    fat_get b c' s1 = Some (if c' = c then v AND entry_mask (ftype s) else table_val s (disk_of view a s) c', s3) \<and>
    (\<forall>i < unat (fat_count (bpb s)). copy_val s (disk_of view a s1) i c' =
       (if c' = c then v AND entry_mask (ftype s) else copy_val s (disk_of view a s) i c'))"
proof -
  obtain s1 D1 where 1: "fat_set b c v s = Some (True, s1)" and t1: "vol_step view a s D1 s1"
    and u: "table_upd s [c \<mapsto> v] (disk_of view a s) D1"
    by (rule ready_disk.set_entry [OF assms(1-3)])
  obtain s2 where 2: "fat_get b c' s = Some (table_val s (disk_of view a s) c', s2)"
    by (rule ready_disk.get_entry [OF assms(1,2,4)])
  have g: "geo_ok s" and it: "in_table s1 c'"
    using assms vol_step_fields(12) [OF t1] by (simp_all add: fs_ok_def)
  obtain s3 where 3: "fat_get b c' s1 = Some (table_val s D1 c', s3)"
    using ready_disk.get_entry [OF assms(1) vol_step_fs_ok [OF t1 assms(2)] it]
    unfolding vol_step_fields(17) [OF t1] vol_step_views [OF t1] by blast
  have "table_val s D1 c' = (if c' = c then v AND entry_mask (ftype s) else table_val s (disk_of view a s) c')"
    using table_upd_val [OF u g assms(4)] by simp
  moreover have "\<forall>i < unat (fat_count (bpb s)). copy_val s D1 i c' =
       (if c' = c then v AND entry_mask (ftype s) else copy_val s (disk_of view a s) i c')"
    using u assms(4) by (simp add: table_upd_def)
  ultimately show ?thesis
    using 1 2 3 vol_step_fields(17) [OF t1] by auto
qed

theorem fat_set_get_witness:
  "\<exists>s1 s3. fat_set sim_bus 2 0x1FFF sim_volume = Some (True, s1) \<and> fat_get sim_bus 3 s1 = Some (0, s3)"
  using fat_set_get [OF sim_ready.ready_disk_axioms sim_fs_ok(1), of 2 3 "0x1FFF"] unfolding sim_content blank_table
  by (auto simp: in_table_def sim_volume_def)



text \<open>C4. What \<open>fat_create\<close> stores, \<open>fat_read\<close> returns: in the root directory of a FAT12 or FAT16 volume on a working drive, with a
  free or matching directory entry and enough free clusters, creating a file succeeds, and reading it into a buffer of sufficient size
  succeeds and gives exactly its bytes and its size, over any number of clusters.\<close>

theorem fat_create_read:
  assumes "ready_disk b view a" "fs_ok view a s" "root_ok s" "fat_name_ok name" "target s (disk_of view a s) name \<noteq> None"
    and "unat sz \<le> length src" "clusters_needed s (unat sz) \<le> card (free_clusters s (disk_of view a s))"
    and "sz \<le> max_size" "unat sz \<le> length buf"
  shows "\<exists>s1 s2. fat_create b name src sz s = Some (0, s1) \<and>
    fat_read b name buf old max_size s1 = Some ((0, take (unat sz) src @ drop (unat sz) buf, sz), s2)"
proof -
  let ?B = "file_bytes src sz"
  have len: "\<forall>l. length (disk_of view a s l) = 512" "length ?B = unat sz"
    using ready_disk.disk_length [OF assms(1), of s] assms(2,6) by (simp_all add: fs_ok_def file_bytes_length)
  obtain s1 D1 cs where 1: "fat_create b name src sz s = Some (0, s1)" and t1: "vol_step view a s D1 s1"
    and cr: "created s name ?B cs (disk_of view a s) D1"
    by (rule ready_disk.fat_create_spec [OF assms(1-7)])
  note f = vol_step_fields [OF t1] vol_step_root [OF t1] vol_step_file [OF t1]
  have "file_at s1 (disk_of view a s1) name cs ?B" "root_ok s1"
    using created_file [OF assms(2-4) len(1) cr] assms(3) unfolding f by simp_all
  moreover have "length ?B \<le> unat max_size" "length ?B \<le> length buf"
    using assms(8,9) len(2) by (simp_all add: word_le_nat_alt)
  ultimately obtain s2 where "fat_read b name buf old max_size s1 =
      Some ((0, to_chars ?B @ drop (length ?B) buf, of_nat (length ?B)), s2)"
    using ready_disk.fat_read_spec [OF assms(1) vol_step_fs_ok [OF t1 assms(2)]] by blast
  then show ?thesis
    using 1 len(2) to_chars_file [OF assms(6)] by simp
qed

theorem fat_create_read_witness:
  "\<exists>s1 s2. fat_create sim_bus ''a.txt'' ''hello'' 5 sim_volume = Some (0, s1) \<and>
    fat_read sim_bus ''a.txt'' (replicate 6 CHR ''x'') 0 6 s1 = Some ((0, ''hellox'', 5), s2)"
proof -
  have "clusters_needed sim_volume 5 \<le> card (free_clusters sim_volume (\<lambda>_. zero_sector))"
    using some_free [OF sim_valid(1) blank_table] one_cluster [of 5 sim_volume] sim_valid(3) by simp
  then show ?thesis
    using fat_create_read [OF sim_ready.ready_disk_axioms sim_fs_ok, of "''a.txt''" 5 "''hello''" 6 "replicate 6 CHR ''x''" 0]
    unfolding sim_content by (simp add: blank_target fat_name_ok_def replicate_eqI)
qed



end
