(* ===== verification/Fs.thy ===== *)
theory Fs
  imports FatDir Net Process
begin

text \<open>
  The file system layer (\<open>kernel/fs/fs.c\<close>): the operation tables of the FAT, ramfs, proc and dev file systems, mounting at start, and
  the functions the rest of the kernel calls. The state holds everything the file systems read or change: the FAT volume with its disk and
  console, the RAM file system, the static entry arrays of procfs and devfs, and the process table and network data that /proc shows. The
  network card itself is not used by these functions, so the network data carry the unit type in its place.
\<close>

unbundle bit_operations_syntax

section \<open>State\<close>

record 'd fs_state =
  fatfs :: "'d fat"
  ramfs :: ramfs_state
  proc_entries :: "fs_file_info list"
  dev_entries :: "fs_file_info list"
  fs_kern :: kstate
  fs_net :: "unit net"

section \<open>FAT and ramfs adapters\<close>

definition fatfs_list :: "'d bus \<Rightarrow> 'd fat \<Rightarrow> ((int \<times> fs_file_info list \<times> int) \<times> 'd fat) option" where
  "fatfs_list b s =
     map_option (\<lambda>((r, entries, count), s1). (if r = 0 then (0, entries, count) else (-1, [], 0), s1)) (fat_list b s)"

definition fatfs_name :: "'d fat \<Rightarrow> string" where
  "fatfs_name s = (if fat_get_type s = FAT_TYPE_16 then ''FAT16'' else if fat_get_type s = FAT_TYPE_32 then ''FAT32'' else ''FAT12'')"

text \<open>\<open>ramfs_list_adapter\<close> casts the array of \<open>ramfs_file_t\<close> to an array of \<open>fs_file_info_t\<close>. The structures differ: the bytes of the
  array, 552 per file, are read again as entries of 264 bytes.\<close>

definition le_chars :: "u32 \<Rightarrow> string" where
  "le_chars v = map (\<lambda>i. char_of (unat (drop_bit (8 * i) v AND 0xFF))) [0..<4]"

definition file_image :: "ramfs_file \<Rightarrow> string" where
  "file_image f = rf_name f @ rf_data f @ le_chars (rf_size f) @ [char_of (if rf_used f then 1 else 0 :: nat)] @ replicate 3 NUL"

definition info_at :: "string \<Rightarrow> nat \<Rightarrow> fs_file_info" where
  "info_at m k =
     (let e = take 264 (drop (264 * k) m)
      in \<lparr>fi_name = take 256 e, fi_size = get32 (map of_char e) 256, fi_used = (e ! 260 \<noteq> NUL), fi_is_directory = (e ! 261 \<noteq> NUL)\<rparr>)"

definition ramfs_list_adapter :: "ramfs_state \<Rightarrow> (int \<times> fs_file_info list \<times> int) option" where
  "ramfs_list_adapter s =
     (let m = concat (map file_image (ramfs_get_files s)); n = ramfs_get_file_count s
      in if n < 0 \<or> 264 * nat n > length m then None else Some (0, map (info_at m) [0..<nat n], n))"

definition ramfs_disk_info :: "u32 \<times> u32 \<times> u32" where
  "ramfs_disk_info = (0, 0, 0)"

definition fat_ops :: "'d bus \<Rightarrow> string \<Rightarrow> 'd fs_state vfs_ops" where
  "fat_ops b name =
     (let on = (\<lambda>f s. map_option (\<lambda>(r, t). (r, s\<lparr>fatfs := t\<rparr>)) (f (fatfs s)))
      in \<lparr>op_name = name,
          op_create = Some (\<lambda>path src sz s. map_option (\<lambda>(r, t). (r, s\<lparr>fatfs := t\<rparr>)) (fat_create b path src sz (fatfs s))),
          op_read = Some (\<lambda>path buffer sz max_size s.
            map_option (\<lambda>(r, t). (r, s\<lparr>fatfs := t\<rparr>)) (fat_read b path buffer sz max_size (fatfs s))),
          op_delete = Some (\<lambda>path. on (fat_delete b path)),
          op_list = Some (\<lambda>s. map_option (\<lambda>(r, t). (r, s\<lparr>fatfs := t\<rparr>)) (fatfs_list b (fatfs s))),
          op_mkdir = Some (\<lambda>path. on (fat_mkdir b path)),
          op_rmdir = Some (\<lambda>path. on (fat_rmdir b path)),
          op_chdir = Some (\<lambda>path. on (fat_chdir b path)),
          op_getcwd = Some (\<lambda>s. fat_getcwd (fatfs s)),
          op_disk_info = Some (\<lambda>s. map_option (\<lambda>(r, t). (r, s\<lparr>fatfs := t\<rparr>)) (fat_get_disk_info b (fatfs s)))\<rparr>)"

definition ramfs_ops :: "'d fs_state vfs_ops" where
  "ramfs_ops =
     \<lparr>op_name = ''ramfs'',
      op_create = Some (\<lambda>path src sz s. map_option (\<lambda>(r, t). (r, s\<lparr>ramfs := t\<rparr>)) (ramfs_create path src sz (ramfs s))),
      op_read = Some (\<lambda>path buffer sz max_size s. map_option (\<lambda>r. (r, s)) (ramfs_read path buffer sz max_size (ramfs s))),
      op_delete = Some (\<lambda>path s. map_option (\<lambda>(r, t). (r, s\<lparr>ramfs := t\<rparr>)) (ramfs_delete path (ramfs s))),
      op_list = Some (\<lambda>s. map_option (\<lambda>r. (r, s)) (ramfs_list_adapter (ramfs s))),
      op_mkdir = Some (\<lambda>path s. Some (ramfs_mkdir path, s)),
      op_rmdir = Some (\<lambda>path s. Some (ramfs_rmdir path, s)),
      op_chdir = Some (\<lambda>path s. Some (ramfs_chdir path, s)),
      op_getcwd = Some (\<lambda>s. ramfs_getcwd),
      op_disk_info = Some (\<lambda>s. Some (ramfs_disk_info, s))\<rparr>"

section \<open>procfs\<close>

definition proc_state_name :: "process_state \<Rightarrow> string" where
  "proc_state_name s = (case s of
     PROC_LOADING \<Rightarrow> ''LOADING'' | PROC_READY \<Rightarrow> ''READY'' | PROC_RUNNING \<Rightarrow> ''RUNNING'' | PROC_BLOCKED \<Rightarrow> ''BLOCKED''
   | PROC_SLEEPING \<Rightarrow> ''SLEEPING'' | PROC_TERMINATED \<Rightarrow> ''TERMINATED'' | PROC_UNUSED \<Rightarrow> ''UNUSED'')"

text \<open>The text and its NUL in the caller's buffer, and its length behind \<open>size\<close>.\<close>

definition store_text :: "string \<Rightarrow> string \<Rightarrow> (int \<times> string \<times> u32) option" where
  "store_text out buffer =
     (if length out < length buffer then Some (0, out @ NUL # drop (length out + 1) buffer, of_nat (length out)) else None)"

definition proc_line :: "nat \<Rightarrow> process \<Rightarrow> string \<Rightarrow> string" where
  "proc_line m p out =
     (if pstate p = PROC_UNUSED then out
      else append_str m (append_str m (append_str m (append_str m (append_str m (append_u64 m out (pid p)) '' '')
             (proc_state_name (pstate p))) '' '') (c_content (pname p))) [CHR 0x0A])"

definition proc_text :: "nat \<Rightarrow> kstate \<Rightarrow> string" where
  "proc_text m k = (let (ps, count) = process_list k
     in fold (proc_line m) (take count ps) (append_str m [] (''PID STATE NAME'' @ [CHR 0x0A])))"

definition proc_read :: "string \<Rightarrow> string \<Rightarrow> u32 \<Rightarrow> u32 \<Rightarrow> 'd fs_state \<Rightarrow> (int \<times> string \<times> u32) option" where
  "proc_read path buffer sz max_size s =
     (let m = unat max_size
      in if m = 0 then Some (-1, buffer, sz)
         else if strcmp (cstr path) (cstr ''net/arp'') = Some 0
         then Option.bind (net_format_arp_cache (system_ticks (fs_kern s)) m (fs_net s)) (\<lambda>out. store_text out buffer)
         else if strcmp (cstr path) (cstr ''net/dev'') = Some 0
         then Option.bind (net_format_device_stats m (fs_net s)) (\<lambda>out. store_text out buffer)
         else if strcmp (cstr path) (cstr ''net/udp'') = Some 0
         then Option.bind (net_format_udp m (fs_net s)) (\<lambda>out. store_text out buffer)
         else if strcmp (cstr path) (cstr ''processes'') \<noteq> Some 0 then Some (-1, buffer, sz)
         else store_text (proc_text m (fs_kern s)) buffer)"

definition named_info :: "string \<Rightarrow> bool \<Rightarrow> fs_file_info" where
  "named_info name dir = \<lparr>fi_name = name @ replicate (256 - length name) NUL, fi_size = 0, fi_used = True, fi_is_directory = dir\<rparr>"

definition proc_list :: "'d fs_state \<Rightarrow> (int \<times> fs_file_info list \<times> int) \<times> 'd fs_state" where
  "proc_list s = (let es = [named_info ''processes'' False, named_info ''net'' True] in ((0, es, 2), s\<lparr>proc_entries := es\<rparr>))"

definition readonly_fail :: "string \<Rightarrow> string \<Rightarrow> u32 \<Rightarrow> int" where "readonly_fail path src sz = -1"
definition path_fail :: "string \<Rightarrow> int" where "path_fail path = -1"
definition chdir_fail :: "string \<Rightarrow> int" where "chdir_fail path = -1"
definition proc_cwd :: string where "proc_cwd = ''/proc''"
definition dev_cwd :: string where "dev_cwd = ''/dev''"

definition proc_ops :: "'d fs_state vfs_ops" where
  "proc_ops =
     \<lparr>op_name = ''procfs'',
      op_create = Some (\<lambda>path src sz s. Some (readonly_fail path src sz, s)),
      op_read = Some (\<lambda>path buffer sz max_size s. map_option (\<lambda>r. (r, s)) (proc_read path buffer sz max_size s)),
      op_delete = Some (\<lambda>path s. Some (path_fail path, s)),
      op_list = Some (\<lambda>s. Some (proc_list s)),
      op_mkdir = Some (\<lambda>path s. Some (path_fail path, s)),
      op_rmdir = Some (\<lambda>path s. Some (path_fail path, s)),
      op_chdir = Some (\<lambda>path s. Some (chdir_fail path, s)),
      op_getcwd = Some (\<lambda>s. proc_cwd),
      op_disk_info = Some (\<lambda>s. Some (ramfs_disk_info, s))\<rparr>"

section \<open>devfs\<close>

definition dev_read :: "string \<Rightarrow> string \<Rightarrow> u32 \<Rightarrow> u32 \<Rightarrow> (int \<times> string \<times> u32) option" where
  "dev_read path buffer sz max_size =
     (if strcmp (cstr path) (cstr ''null'') = Some 0 then Some (0, buffer, 0)
      else if strcmp (cstr path) (cstr ''zero'') = Some 0 then
        (if max_size < 512 then Some (-1, buffer, 512)
         else map_option (\<lambda>b. (0, b, 512)) (memset buffer NUL 512))
      else Some (-1, buffer, sz))"

definition dev_list :: "'d fs_state \<Rightarrow> (int \<times> fs_file_info list \<times> int) \<times> 'd fs_state" where
  "dev_list s = (let es = [named_info ''null'' False, named_info ''zero'' False] in ((0, es, 2), s\<lparr>dev_entries := es\<rparr>))"

definition dev_ops :: "'d fs_state vfs_ops" where
  "dev_ops =
     \<lparr>op_name = ''devfs'',
      op_create = Some (\<lambda>path src sz s. Some (readonly_fail path src sz, s)),
      op_read = Some (\<lambda>path buffer sz max_size s. map_option (\<lambda>r. (r, s)) (dev_read path buffer sz max_size)),
      op_delete = Some (\<lambda>path s. Some (path_fail path, s)),
      op_list = Some (\<lambda>s. Some (dev_list s)),
      op_mkdir = Some (\<lambda>path s. Some (path_fail path, s)),
      op_rmdir = Some (\<lambda>path s. Some (path_fail path, s)),
      op_chdir = Some (\<lambda>path s. Some (chdir_fail path, s)),
      op_getcwd = Some (\<lambda>s. dev_cwd),
      op_disk_info = Some (\<lambda>s. Some (ramfs_disk_info, s))\<rparr>"

section \<open>The layer\<close>

definition fs_log :: "'d bus \<Rightarrow> string \<Rightarrow> 'd fs_state \<Rightarrow> 'd fs_state option" where
  "fs_log b msg s = map_option (\<lambda>t. s\<lparr>fatfs := t\<rparr>) (fat_log b msg (fatfs s))"

definition mount_quiet :: "string \<Rightarrow> 's vfs_ops \<Rightarrow> 's vfs_state \<Rightarrow> 's vfs_state option" where
  "mount_quiet path ops v = map_option snd (vfs_mount path ops v)"

definition fs_init ::
    "'d bus \<Rightarrow> 'd fs_state vfs_state \<Rightarrow> 'd fs_state \<Rightarrow> ('d fs_state vfs_state \<times> 'd fs_state) option" where
  "fs_init b v0 s0 = do {
     s1 \<leftarrow> fs_log b ''Initializing VFS and filesystem layer...'' s0;
     let s2 = s1\<lparr>fatfs := (fatfs s1)\<lparr>dsk := block_cache_init (dsk (fatfs s1))\<rparr>\<rparr>;
     let v1 = vfs_init v0;
     f \<leftarrow> fat_init b (fatfs s2);
     let s3 = s2\<lparr>fatfs := f\<rparr>;
     v2 \<leftarrow> map_option snd (vfs_mount_root (if fat_available f then fat_ops b (fatfs_name f) else ramfs_ops) v1);
     let s4 = s3\<lparr>ramfs := ramfs_init\<rparr>;
     v3 \<leftarrow> mount_quiet ''/dev'' dev_ops v2;
     v4 \<leftarrow> mount_quiet ''/proc'' proc_ops v3;
     s5 \<leftarrow> fs_log b (if fat_available f then ''VFS mounted FAT root filesystem'' else ''VFS mounted ramfs root filesystem'') s4;
     Some (v4, s5) }"

definition fs_create where "fs_create = vfs_create"
definition fs_read where "fs_read = vfs_read"
definition fs_delete where "fs_delete = vfs_delete"
definition fs_list where "fs_list = vfs_list"
definition fs_get_type where "fs_get_type = vfs_get_root_type"
definition fs_mkdir where "fs_mkdir = vfs_mkdir"
definition fs_rmdir where "fs_rmdir = vfs_rmdir"
definition fs_chdir where "fs_chdir = vfs_chdir"
definition fs_getcwd where "fs_getcwd = vfs_getcwd"
definition fs_get_disk_info where "fs_get_disk_info = vfs_get_disk_info"
definition fs_umount where "fs_umount = vfs_umount"
definition fs_mounts where "fs_mounts = vfs_get_mounts"

definition fs_mount ::
    "'d bus \<Rightarrow> string \<Rightarrow> string \<Rightarrow> 'd fs_state \<Rightarrow> 'd fs_state vfs_state \<Rightarrow> (int \<times> 'd fs_state vfs_state) option" where
  "fs_mount b type path s v =
     (if strcmp (cstr type) (cstr ''proc'') = Some 0 \<or> strcmp (cstr type) (cstr ''procfs'') = Some 0 then vfs_mount path proc_ops v
      else if strcmp (cstr type) (cstr ''dev'') = Some 0 \<or> strcmp (cstr type) (cstr ''devfs'') = Some 0 then vfs_mount path dev_ops v
      else if strcmp (cstr type) (cstr ''ramfs'') = Some 0 then vfs_mount path ramfs_ops v
      else if strcmp (cstr type) (cstr ''root'') = Some 0
      then vfs_mount path (if fat_available (fatfs s) then fat_ops b (fatfs_name (fatfs s)) else ramfs_ops) v
      else Some (-1, v))"

section \<open>Reads stay inside the buffer\<close>

text \<open>Whatever the drive delivers, a sector read has 512 bytes, and the cache holds sectors of that size.\<close>

definition cache_sized :: "'d fat \<Rightarrow> bool" where
  "cache_sized s \<longleftrightarrow> (\<forall>e \<in> set (cache (dsk s)). valid e \<longrightarrow> length (data e) = 512)"

lemma ata_read_512: "ata_read_sector b a lba t = Some (Some v, t') \<Longrightarrow> length v = 512"
  by (auto simp: ata_read_sector_def Let_def split: prod.splits if_splits) (metis fst_conv length_insw)

lemma rd_sector_sized:
  assumes "rd_sector b lba s = Some (r, s')" "cache_sized s"
  shows "cache_sized s' \<and> (\<forall>v. r = Some v \<longrightarrow> length v = 512)"
proof -
  obtain d where d: "block_cache_read_sector b lba (dsk s) = Some (r, d)" and s': "s' = s\<lparr>dsk := d\<rparr>"
    using assms(1) by (auto simp: rd_sector_def)
  let ?sz = "\<lambda>c. \<forall>e \<in> set c. valid e \<longrightarrow> length (data e) = 512"
  have c: "?sz (cache (dsk s))"
    using assms(2) by (simp add: cache_sized_def)
  have upd: "?sz (xs[i := e])" if "?sz xs" "valid e \<longrightarrow> length (data e) = 512" for xs i and e :: cache_entry
    using that set_update_subset_insert [of xs i e] by blast
  have "?sz (cache d) \<and> (\<forall>v. r = Some v \<longrightarrow> length v = 512)"
  proof (cases "cache_find_entry lba (cache (dsk s))")
    case (Some i)
    then have i: "i < length (cache (dsk s))" "valid (cache (dsk s) ! i)"
      using find_idx_SomeD [of _ "cache (dsk s)" i] by (auto simp: cache_find_entry_def)
    then have "length (data (cache (dsk s) ! i)) = 512"
      using c nth_mem by blast
    then show ?thesis
      using d Some upd [OF c, of "(cache (dsk s) ! i)\<lparr>age := clock_tick (dsk s)\<rparr>" i] by (auto simp: block_cache_read_sector_def)
  next
    case None
    obtain r' t where a: "ata_read_sector b (ata (dsk s)) lba (con (dsk s)) = Some (r', t)"
      using d None by (auto simp: block_cache_read_sector_def bind_eq_Some_conv)
    show ?thesis
    proof (cases r')
      case (Some v)
      then have v: "length v = 512"
        using ata_read_512 a by simp
      show ?thesis
        using d None a Some v upd [OF c, of "\<lparr>valid = True, c_lba = lba, age = clock_tick (dsk s), data = v\<rparr>" "choose_victim (cache (dsk s))"]
        by (auto simp: block_cache_read_sector_def cache_fill_def)
    qed (use d None a c in \<open>auto simp: block_cache_read_sector_def\<close>)
  qed
  then show ?thesis
    by (simp add: s' cache_sized_def)
qed

lemma fat_get_sized: "fat_get b c s = Some (v, s') \<Longrightarrow> cache_sized s \<Longrightarrow> cache_sized s'"
  by (auto simp: fat_get_def Let_def dest: rd_sector_sized split: option.splits prod.splits if_splits)

lemma skip_clusters_sized: "skip_clusters b n c s = Some (v, s') \<Longrightarrow> cache_sized s \<Longrightarrow> cache_sized s'"
  by (induction n arbitrary: c s) (auto dest: fat_get_sized split: option.splits prod.splits if_splits)

lemma dir_location_sized: "dir_location b dir i s = Some (v, s') \<Longrightarrow> cache_sized s \<Longrightarrow> cache_sized s'"
  by (auto simp: dir_location_def Let_def dest: skip_clusters_sized split: if_splits)

lemma dir_read_sized: "dir_read b dir i s = Some (v, s') \<Longrightarrow> cache_sized s \<Longrightarrow> cache_sized s'"
  by (auto simp: dir_read_def dest!: dir_location_sized rd_sector_sized split: option.splits prod.splits)

lemma find_loop_sized: "find_entry_loop b dir name is s = Some (v, s') \<Longrightarrow> cache_sized s \<Longrightarrow> cache_sized s'"
  by (induction "is" arbitrary: s) (auto dest: dir_read_sized split: option.splits prod.splits if_splits)

lemma find_entry_sized: "find_entry b dir name s = Some (v, s') \<Longrightarrow> cache_sized s \<Longrightarrow> cache_sized s'"
  by (auto simp: find_entry_def dest: find_loop_sized)

lemma checked_next_sized: "checked_next b c s = Some (v, s') \<Longrightarrow> cache_sized s \<Longrightarrow> cache_sized s'"
  by (auto simp: checked_next_def Let_def dest: fat_get_sized split: option.splits prod.splits if_splits)

lemma read_sectors_bounded:
  assumes "read_sectors b esize base is buf got s = Some ((ok, buf', got'), s')" "cache_sized s" "got \<le> esize"
  shows "cache_sized s' \<and> length buf' = length buf \<and> got' \<le> esize"
  using assms
proof (induction "is" arbitrary: buf got s)
  case (Cons i js)
  show ?case
  proof (cases "got < esize")
    case True
    then obtain r s1 where r: "rd_sector b (base + of_nat i) s = Some (r, s1)"
      using Cons.prems(1) by (auto split: option.splits)
    note sz = rd_sector_sized [OF r Cons.prems(2)]
    show ?thesis
    proof (cases r)
      case None
      then show ?thesis
        using Cons.prems r True sz by auto
    next
      case (Some sec)
      define n where "n = unat (sector_part esize got)"
      have n: "n \<le> 512" "unat got + n \<le> unat esize"
        using sector_part_unat [OF True] True by (simp_all add: n_def word_less_nat_alt)
      have next_le: "got + sector_part esize got \<le> esize"
        using sector_part_add [OF True] by (simp add: word_le_nat_alt)
      have fit: "\<not> unat got + n > length buf"
        using Cons.prems(1) r True Some by (auto simp: Let_def n_def split: if_splits)
      let ?buf = "take (unat got) buf @ to_chars (take n sec) @ drop (unat got + n) buf"
      have len: "length ?buf = length buf"
        using fit n sz Some by (simp add: to_chars_def)
      have "read_sectors b esize base js ?buf (got + sector_part esize got) s1 = Some ((ok, buf', got'), s')"
        using Cons.prems(1) r True Some fit by (simp add: Let_def n_def)
      from Cons.IH [OF this _ next_le] show ?thesis
        using sz len by simp
    qed
  qed (use Cons.prems in auto)
qed auto

lemma read_loop_bounded:
  assumes run: "read_loop b esize sz c got anchor pow len buf s = Some y" and "cache_sized s" "got \<le> esize"
  shows "length (fst (snd (fst y))) = length buf \<and> (fst (fst y) = 0 \<longrightarrow> snd (snd (fst y)) \<le> esize)"
proof -
  let ?P = "\<lambda>(b :: 'a bus) esize (sz :: u32) (c :: u32) got (anchor :: u32) (pow :: u32) (len :: u32) buf s y. cache_sized s \<longrightarrow> got \<le> esize \<longrightarrow>
      length (fst (snd (fst y))) = length buf \<and> (fst (fst y) = 0 \<longrightarrow> snd (snd (fst y)) \<le> esize)"
  have "?P b esize sz c got anchor pow len buf s y"
  proof (rule read_loop.raw_induct [where P = ?P, OF _ run], intro impI, goal_cases)
    case (1 loop b esize sz c got anchor pow len buf s y)
    note IH = 1(1) and body = 1(2)
    show ?case
    proof (cases "got < esize \<and> valid_data_cluster c s")
      case False
      then show ?thesis
        using body 1(4) by (auto split: if_splits)
    next
      case True
      then obtain ok buf1 done1 s1 where rs:
        "read_sectors b esize (cluster_sector c s) [0..<unat (sectors_per_cluster (bpb s))] buf got s = Some ((ok, buf1, done1), s1)"
        using body by (auto simp: bind_eq_Some_conv)
      note b1 = read_sectors_bounded [OF rs 1(3,4)]
      show ?thesis
      proof (cases "ok \<and> done1 < esize")
        case False
        then have "y = ((-1, buf1, sz), s1) \<or> loop b esize sz c done1 anchor pow len buf1 s1 = Some y"
          using body True rs by (auto split: if_splits)
        then show ?thesis
          using b1 IH [of b esize sz c done1 anchor pow len buf1 s1 y] by auto
      next
        case more: True
        then obtain n s2 where cn: "checked_next b c s1 = Some (n, s2)"
          using body True rs by (auto simp: bind_eq_Some_conv)
        have s2: "cache_sized s2"
          using checked_next_sized [OF cn] b1 by simp
        have "y = ((-1, buf1, done1), s2) \<or> (\<exists>nxt an pw ln. loop b esize sz nxt done1 an pw ln buf1 s2 = Some y)"
          using body True rs more cn by (auto split: option.splits if_splits)
        then show ?thesis
        proof
          assume "\<exists>nxt an pw ln. loop b esize sz nxt done1 an pw ln buf1 s2 = Some y"
          then obtain nxt an pw ln where l: "loop b esize sz nxt done1 an pw ln buf1 s2 = Some y"
            by blast
          show ?thesis
            using IH [OF l] b1 s2 by simp
        qed (use b1 in simp)
      qed
    qed
  qed
  then show ?thesis
    using assms(2,3) by simp
qed

lemma fat_read_bounded:
  assumes "fat_read b name buf sz max_size s = Some ((r, buf', sz'), s')" "cache_sized s"
  shows "length buf' = length buf \<and> (r = 0 \<longrightarrow> sz' \<le> max_size)"
proof (cases "fat_available s")
  case True
  then obtain f s1 where f: "find_entry b (current_cluster s) name s = Some (f, s1)"
    using assms(1) by (auto simp: fat_read_def split: option.splits)
  have s1: "cache_sized s1"
    using find_entry_sized [OF f assms(2)] .
  show ?thesis
  proof (cases f)
    case (Some p)
    obtain e i where p: "p = (e, i)"
      by fastforce
    show ?thesis
    proof (cases "de_attr e AND ATTR_DIRECTORY \<noteq> 0 \<or> de_size e > max_size")
      case False
      then have "read_loop b (de_size e) sz (entry_cluster (ftype s1) e) 0 (entry_cluster (ftype s1) e) 1 0 buf s1 = Some ((r, buf', sz'), s')"
        using assms(1) f Some p True by (simp add: fat_read_def Let_def)
      from read_loop_bounded [OF this s1] False show ?thesis
        by auto
    qed (use assms(1) f Some p True in \<open>auto simp: fat_read_def split: if_splits\<close>)
  qed (use assms(1) f True in \<open>auto simp: fat_read_def\<close>)
qed (use assms(1) in \<open>auto simp: fat_read_def\<close>)

text \<open>The texts of /proc leave room for their NUL.\<close>

lemma fold_length_less:
  assumes "\<And>x out. length out < m \<Longrightarrow> length (f x out) < m" "length out < m"
  shows "length (fold f xs out) < m"
  using assms(2) by (induction xs arbitrary: out) (simp_all add: assms(1))

lemma append_mac_length: "length out < m \<Longrightarrow> length (append_mac m out vs) < m"
  by (induction m out vs rule: append_mac.induct) (simp_all add: append_bounds)

lemma append_ip_length: "length out < m \<Longrightarrow> length (append_ip m out ip) < m"
  by (simp add: append_ip_def Let_def append_bounds)

lemmas text_bounds = append_bounds append_mac_length append_ip_length

lemma arp_text_length: "net_format_arp_cache now m s = Some out \<Longrightarrow> length out < m"
  by (auto simp: net_format_arp_cache_def text_bounds intro!: fold_length_less split: if_splits)

lemma stats_fold_length:
  "length out < m \<Longrightarrow> length (fold (\<lambda>v out. append_u32 m (append_str m out '' '') v) vs out) < m"
  by (rule fold_length_less) (simp_all add: append_bounds)

lemma dev_text_length: "net_format_device_stats m s = Some out \<Longrightarrow> length out < m"
  unfolding net_format_device_stats_def Let_def
  by (split if_split_asm, simp, drule option.inject [THEN iffD1], erule subst, intro text_bounds stats_fold_length) simp

lemma udp_text_length: "net_format_udp m s = Some out \<Longrightarrow> length out < m"
  unfolding net_format_udp_def Let_def
  by (split if_split_asm, simp, split if_split_asm; drule option.inject [THEN iffD1], erule subst, intro text_bounds) simp_all

lemma proc_text_length: "0 < m \<Longrightarrow> length (proc_text m k) < m"
  unfolding proc_text_def Let_def process_list_def prod.case
  by (rule fold_length_less) (simp_all add: proc_line_def text_bounds)

text \<open>The contract of a read operation: it returns, the buffer keeps its size, and on success at most \<open>max_size\<close> bytes are reported.\<close>

definition read_within :: "string \<Rightarrow> u32 \<Rightarrow> (int \<times> string \<times> u32) option \<Rightarrow> bool" where
  "read_within buf max_size res \<longleftrightarrow>
     (case res of None \<Rightarrow> False | Some (r, buf', sz) \<Rightarrow> length buf' = length buf \<and> (r = 0 \<longrightarrow> sz \<le> max_size))"

lemma store_text_within:
  assumes "length out < unat max_size" "unat max_size \<le> length buf"
  shows "read_within buf max_size (store_text out buf)"
proof -
  have "length out < 2 ^ 32"
    using assms(1) unsigned_less [of max_size, where ?'a = nat] by simp
  then have "unat (of_nat (length out) :: u32) = length out"
    by (simp only: unat_of_nat) simp
  then show ?thesis
    using assms by (simp add: store_text_def read_within_def word_le_nat_alt)
qed

lemma proc_read_within:
  assumes "unat max_size \<le> length buf"
  shows "read_within buf max_size (proc_read path buf sz max_size s)"
proof (cases "unat max_size = 0")
  case False
  then have m: "0 < unat max_size"
    by simp
  have "net_format_arp_cache now (unat max_size) n \<noteq> None" "net_format_device_stats (unat max_size) n \<noteq> None"
    "net_format_udp (unat max_size) n \<noteq> None" for now and n :: "unit net"
    using m by (auto simp: net_format_arp_cache_def net_format_device_stats_def net_format_udp_def Let_def)
  then obtain o1 o2 o3 where o: "net_format_arp_cache (system_ticks (fs_kern s)) (unat max_size) (fs_net s) = Some o1"
    "net_format_device_stats (unat max_size) (fs_net s) = Some o2" "net_format_udp (unat max_size) (fs_net s) = Some o3"
    by (meson not_None_eq)
  have rw: "read_within buf max_size (store_text out buf)" if "out \<in> {o1, o2, o3, proc_text (unat max_size) (fs_kern s)}" for out
  proof (rule store_text_within [OF _ assms])
    show "length out < unat max_size"
      using that arp_text_length [OF o(1)] dev_text_length [OF o(2)] udp_text_length [OF o(3)] proc_text_length [OF m] by blast
  qed
  show ?thesis
    using False o rw by (simp add: proc_read_def Let_def) (simp add: read_within_def)
qed (simp add: proc_read_def Let_def read_within_def)

lemma dev_read_within:
  assumes "unat max_size \<le> length buf"
  shows "read_within buf max_size (dev_read path buf sz max_size)"
  using assms by (auto simp: dev_read_def read_within_def memset_eq word_less_nat_alt word_le_nat_alt)

lemma ramfs_read_within:
  assumes inv: "ramfs_inv s" and len: "unat max_size \<le> length buf"
  shows "read_within buf max_size (ramfs_read path buf sz max_size s)"
proof (cases "find_idx (file_matches path) (rfiles s)")
  case (Some i)
  then have "rfiles s ! i \<in> set (rfiles s)"
    using find_idx_SomeD by (metis nth_mem)
  then have "file_wf (rfiles s ! i)"
    using inv by (simp add: ramfs_inv_def)
  then show ?thesis
    using Some len
    by (auto simp: ramfs_read_def read_within_def file_wf_def memcpy_eq Let_def not_less word_le_nat_alt)
qed (simp add: ramfs_read_def read_within_def)

section \<open>Mount tables of the kernel\<close>

definition kernel_ops :: "'d bus \<Rightarrow> 'd fs_state vfs_ops \<Rightarrow> bool" where
  "kernel_ops b ops \<longleftrightarrow> (\<exists>name. ops = fat_ops b name) \<or> ops = ramfs_ops \<or> ops = proc_ops \<or> ops = dev_ops"

definition kernel_mounts :: "'d bus \<Rightarrow> 'd fs_state vfs_state \<Rightarrow> bool" where
  "kernel_mounts b v \<longleftrightarrow> (\<forall>i < mount_count v. \<forall>ops. mops (mounts v ! i) = Some ops \<longrightarrow> kernel_ops b ops)"

lemma resolve_fold_index: "fold (resolve_step path v) is best = Some (i, l) \<Longrightarrow> i \<in> set is \<or> best = Some (i, l)"
  by (induction "is" arbitrary: best) (fastforce simp: resolve_step_def Let_def split: if_splits)+

lemma resolve_mounted:
  assumes "resolve path v = Some (ops, sub)"
  obtains i where "i < mount_count v" "mops (mounts v ! i) = Some ops"
proof (cases "path = [] \<or> path ! 0 \<noteq> CHR ''/''")
  case True
  then show thesis
    using assms that [of 0] by (auto simp: resolve_def split: if_splits)
next
  case False
  then obtain i l where "fold (resolve_step path v) [0..<mount_count v] None = Some (i, l)" "mops (mounts v ! i) = Some ops"
    using assms by (auto simp: resolve_def split: if_splits option.splits)
  then show thesis
    using that [of i] resolve_fold_index [of path v "[0..<mount_count v]" None i l] by auto
qed

lemma fs_read_within:
  assumes km: "kernel_mounts b v" and inv: "ramfs_inv (ramfs s)" "cache_sized (fatfs s)" and len: "unat max_size \<le> length buf"
    and r: "fs_read path buf sz max_size v s = Some ((r, buf', sz'), s')"
  shows "length buf' = length buf \<and> (r = 0 \<longrightarrow> sz' \<le> max_size)"
proof (cases "resolve path v")
  case (Some p)
  obtain ops sub where p: "p = (ops, sub)"
    by fastforce
  obtain i where "i < mount_count v" "mops (mounts v ! i) = Some ops"
    using resolve_mounted Some p by blast
  then have "kernel_ops b ops"
    using km by (simp add: kernel_mounts_def)
  then consider (fat) name where "ops = fat_ops b name" | (ram) "ops = ramfs_ops" | (proc) "ops = proc_ops" | (dv) "ops = dev_ops"
    by (auto simp: kernel_ops_def)
  then show ?thesis
  proof cases
    case fat
    then show ?thesis
      using r Some p fat_read_bounded [OF _ inv(2), of b sub buf sz max_size]
      by (auto simp: fs_read_def vfs_read_def fat_ops_def Let_def)
  next
    case ram
    then show ?thesis
      using r Some p ramfs_read_within [OF inv(1) len, of sub sz]
      by (auto simp: fs_read_def vfs_read_def ramfs_ops_def read_within_def)
  next
    case proc
    then show ?thesis
      using r Some p proc_read_within [OF len, of sub sz s] by (auto simp: fs_read_def vfs_read_def proc_ops_def read_within_def)
  next
    case dv
    then show ?thesis
      using r Some p dev_read_within [OF len, of sub sz] by (auto simp: fs_read_def vfs_read_def dev_ops_def read_within_def)
  qed
qed (use r in \<open>auto simp: fs_read_def vfs_read_def\<close>)

section \<open>Starting the file systems\<close>

text \<open>With a serial port that accepts characters nothing in the start waits forever: the waiting loops of the drive are bounded.\<close>

definition volume_ok :: "'d fat \<Rightarrow> bool" where
  "volume_ok s \<longleftrightarrow> term_ok (con (dsk s)) \<and> cache_sized s"

lemma klog_returns: "serial_ready b \<Longrightarrow> term_ok t \<Longrightarrow> \<exists>t'. klog b level msg t = Some t' \<and> term_ok t'"
  using klog_ok [of b "\<lambda>_. True" t level msg] by (simp add: console_safe_def)

lemma ata_read_returns:
  assumes "serial_ready b" "term_ok t"
  shows "\<exists>r t'. ata_read_sector b a lba t = Some (r, t') \<and> term_ok t'"
proof -
  obtain ok1 d1 where 1: "ata_wait_bsy b (dev t) = (ok1, d1)" by fastforce
  obtain ok2 d2 where 2: "ata_wait_bsy b (ata_issue b (ata_drive_select a) lba ATA_CMD_READ_PIO d1) = (ok2, d2)" by fastforce
  obtain st d3 where 3: "inb b ATA_REG_STATUS d2 = (st, d3)" by fastforce
  obtain ok3 d4 where 4: "ata_wait_drq b d3 = (ok3, d4)" by fastforce
  obtain ws d5 where 5: "insw b ATA_REG_DATA 256 d4 = (ws, d5)" by fastforce
  show ?thesis
    using assms klog_returns [of b "t\<lparr>dev := d3\<rparr>"]
    by (auto simp: ata_read_sector_def klog_error_def 1 2 3 4 5)
qed

lemma rd_sector_returns:
  assumes "serial_ready b" "volume_ok s"
  obtains r s' where "rd_sector b lba s = Some (r, s')" "volume_ok s'"
proof -
  obtain r t where a: "ata_read_sector b (ata (dsk s)) lba (con (dsk s)) = Some (r, t)" "term_ok t"
    using ata_read_returns assms unfolding volume_ok_def by blast
  then have "\<exists>r s'. rd_sector b lba s = Some (r, s') \<and> term_ok (con (dsk s'))"
    using assms(2) by (auto simp: rd_sector_def block_cache_read_sector_def volume_ok_def cache_fill_def split: option.splits)
  then show thesis
    using that rd_sector_sized assms(2) unfolding volume_ok_def by blast
qed

lemma volume_ok_cong: "dsk s' = dsk s \<Longrightarrow> volume_ok s' = volume_ok s"
  by (simp add: volume_ok_def cache_sized_def)

lemma volume_ok_drive: "volume_ok (s\<lparr>dsk := (dsk s)\<lparr>ata := a\<rparr>\<rparr>) = volume_ok s"
  by (simp add: volume_ok_def cache_sized_def)

lemma mount_steps_dsk: "dsk (mount_geometry sec s) = dsk s" "dsk (mount_type sec s) = dsk s" "dsk (mount_finish drive s) = dsk s"
  by (simp_all add: mount_geometry_def mount_type_def mount_finish_def Let_def)

lemma mount_drive_returns:
  assumes "serial_ready b" "volume_ok s"
  obtains ok s' where "mount_drive b drive s = Some (ok, s')" "volume_ok s'"
proof -
  obtain r s1 where r: "rd_sector b 0 (s\<lparr>dsk := (dsk s)\<lparr>ata := ata_select_drive drive (ata (dsk s))\<rparr>\<rparr>) = Some (r, s1)" "volume_ok s1"
    using rd_sector_returns assms volume_ok_drive by metis
  have "case mount_drive b drive s of None \<Rightarrow> False | Some p \<Rightarrow> dsk (snd p) = dsk s1"
    unfolding mount_drive_def r(1) Let_def by (cases r) (simp_all add: mount_steps_dsk)
  then obtain p where "mount_drive b drive s = Some p" "dsk (snd p) = dsk s1"
    by (auto split: option.splits)
  then show thesis
    using that [of "fst p" "snd p"] r(2) volume_ok_cong [of "snd p" s1] by simp
qed

lemma fat_log_returns:
  assumes "serial_ready b" "volume_ok s"
  obtains t where "fat_log b msg s = Some (s\<lparr>dsk := (dsk s)\<lparr>con := t\<rparr>\<rparr>)" "volume_ok (s\<lparr>dsk := (dsk s)\<lparr>con := t\<rparr>\<rparr>)"
proof -
  obtain t where "klog b LOG_INFO msg (con (dsk s)) = Some t" "term_ok t"
    using klog_returns assms unfolding volume_ok_def by blast
  then show thesis
    using assms(2) by (intro that [of t]) (simp_all add: fat_log_def klog_info_def volume_ok_def cache_sized_def)
qed

lemma fat_init_returns:
  assumes r: "serial_ready b" and s: "volume_ok s"
  obtains s' where "fat_init b s = Some s'" "volume_ok s'"
proof -
  have log: "\<exists>s'. fat_log b msg u = Some s' \<and> volume_ok s'" if "volume_ok u" for msg u
    using fat_log_returns [OF r that] by metis
  let ?s = "s\<lparr>ftype := FAT_TYPE_NONE\<rparr>"
  obtain ok1 s1 where 1: "mount_drive b False ?s = Some (ok1, s1)" "volume_ok s1"
    using mount_drive_returns [OF r, of ?s] s volume_ok_cong [of ?s s] by auto
  obtain ok2 s2 where 2: "mount_drive b True s1 = Some (ok2, s2)" "volume_ok s2"
    using mount_drive_returns r 1(2) by metis
  have "\<exists>s'. fat_init b s = Some s' \<and> volume_ok s'"
    using log [OF 1(2)] log [OF 2(2)] s 1 2
    by (auto simp: fat_init_def Let_def volume_ok_def cache_sized_def)
  then show thesis
    using that by blast
qed

lemma vfs_init_wf: "length (mounts v) = 8 \<Longrightarrow> \<forall>m \<in> set (mounts v). length (mpath m) = 32 \<Longrightarrow> vfs_wf (vfs_init v) \<and> mount_count (vfs_init v) = 0"
  by (auto simp: vfs_wf_def vfs_init_def)

lemma mount_three:
  assumes wf: "vfs_wf v" and "mount_count v = 0"
  obtains v1 v2 v3 where "vfs_mount_root o1 v = Some (0, v1)" "mount_quiet ''/dev'' o2 v1 = Some v2" "mount_quiet ''/proc'' o3 v2 = Some v3"
    "vfs_wf v3" "mount_count v3 = 3" "map (mount_name v3) [0..<3] = [''/'', ''/dev'', ''/proc'']"
    "map (\<lambda>i. mops (mounts v3 ! i)) [0..<3] = [Some o1, Some o2, Some o3]"
proof -
  have mp: "mount_point ''/'' = ''/''" "mount_point ''/dev'' = ''/dev''" "mount_point ''/proc'' = ''/proc''"
    by code_simp+
  obtain v1 where 1: "vfs_mount ''/'' o1 v = Some (0, v1)" "vfs_wf v1" "mount_count v1 = 1" "mount_name v1 0 = ''/''"
      "mops (mounts v1 ! 0) = Some o1"
    by (rule vfs_mount_new [OF wf, of "''/''" o1]) (use assms(2) mp that in auto)
  obtain v2 where 2: "vfs_mount ''/dev'' o2 v1 = Some (0, v2)" "vfs_wf v2" "mount_count v2 = 2" "mount_name v2 1 = ''/dev''"
      "mops (mounts v2 ! 1) = Some o2" "mounts v2 ! 0 = mounts v1 ! 0"
    by (rule vfs_mount_new [OF 1(2), of "''/dev''" o2]) (use 1 mp that in \<open>auto simp: numeral_2_eq_2\<close>)
  have n2: "mount_name v2 0 = ''/''"
    using 1(4) 2(6) by (simp add: mount_name_def)
  obtain v3 where 3: "vfs_mount ''/proc'' o3 v2 = Some (0, v3)" "vfs_wf v3" "mount_count v3 = 3" "mount_name v3 2 = ''/proc''"
      "mops (mounts v3 ! 2) = Some o3" "mounts v3 ! 0 = mounts v2 ! 0" "mounts v3 ! 1 = mounts v2 ! 1"
    by (rule vfs_mount_new [OF 2(2), of "''/proc''" o3]) (use 2 n2 mp that in \<open>auto simp: less_Suc_eq numeral_2_eq_2 numeral_3_eq_3\<close>)
  show thesis
    using 1 2 3 by (intro that [of v1 v2 v3]) (simp_all add: vfs_mount_root_def mount_quiet_def mount_name_def upt_rec numeral_2_eq_2)
qed

lemma fs_init_spec:
  assumes r: "serial_ready b" and t: "term_ok (con (dsk (fatfs s)))"
    and v: "length (mounts v) = 8" "\<forall>m \<in> set (mounts v). length (mpath m) = 32"
  obtains v' s' where "fs_init b v s = Some (v', s')" "vfs_wf v'" "mount_count v' = 3"
    "map (mount_name v') [0..<3] = [''/'', ''/dev'', ''/proc'']"
    "map (\<lambda>i. mops (mounts v' ! i)) [0..<3] =
       [Some (if fat_available (fatfs s') then fat_ops b (fatfs_name (fatfs s')) else ramfs_ops), Some dev_ops, Some proc_ops]"
    "ramfs s' = ramfs_init" "volume_ok (fatfs s')"
proof -
  obtain t1 where t1: "klog b LOG_INFO ''Initializing VFS and filesystem layer...'' (con (dsk (fatfs s))) = Some t1" "term_ok t1"
    using klog_returns [OF r t] by blast
  let ?f1 = "(fatfs s)\<lparr>dsk := block_cache_init ((dsk (fatfs s))\<lparr>con := t1\<rparr>)\<rparr>"
  have "volume_ok ?f1"
    using t1(2) by (simp add: volume_ok_def cache_sized_def block_cache_init_def block_cache_invalidate_def)
  then obtain f where f: "fat_init b ?f1 = Some f" "volume_ok f"
    using fat_init_returns r by metis
  have l1: "fat_log b ''Initializing VFS and filesystem layer...'' (fatfs s) = Some ((fatfs s)\<lparr>dsk := (dsk (fatfs s))\<lparr>con := t1\<rparr>\<rparr>)"
    using t1(1) by (simp add: fat_log_def klog_info_def)
  let ?root = "if fat_available f then fat_ops b (fatfs_name f) else ramfs_ops"
  obtain v1 v2 v3 where m: "vfs_mount_root ?root (vfs_init v) = Some (0, v1)" "mount_quiet ''/dev'' dev_ops v1 = Some v2"
      "mount_quiet ''/proc'' proc_ops v2 = Some v3" "vfs_wf v3" "mount_count v3 = 3"
      "map (mount_name v3) [0..<3] = [''/'', ''/dev'', ''/proc'']"
      "map (\<lambda>i. mops (mounts v3 ! i)) [0..<3] = [Some ?root, Some dev_ops, Some proc_ops]"
    using mount_three [OF conjunct1 [OF vfs_init_wf [OF v]] conjunct2 [OF vfs_init_wf [OF v]]] by metis
  let ?msg = "if fat_available f then ''VFS mounted FAT root filesystem'' else ''VFS mounted ramfs root filesystem''"
  obtain t2 where t2: "fat_log b ?msg f = Some (f\<lparr>dsk := (dsk f)\<lparr>con := t2\<rparr>\<rparr>)" "volume_ok (f\<lparr>dsk := (dsk f)\<lparr>con := t2\<rparr>\<rparr>)"
    using fat_log_returns [OF r f(2)] by metis
  let ?s = "s\<lparr>fatfs := f\<lparr>dsk := (dsk f)\<lparr>con := t2\<rparr>\<rparr>, ramfs := ramfs_init\<rparr>"
  have run: "fs_init b v s = Some (v3, ?s)"
    using l1 f(1) m(1-3) t2(1) unfolding fs_init_def Let_def by (simp add: fs_log_def split del: if_split)
  show thesis
    using m(4-7) t2(2) by (intro that [OF run]) (simp_all add: fat_available_def fatfs_name_def fat_get_type_def)
qed

lemma kernel_mounts_init:
  assumes "mount_count v = 3"
    and "map (\<lambda>i. mops (mounts v ! i)) [0..<3] = [Some (if c then fat_ops b name else ramfs_ops), Some dev_ops, Some proc_ops]"
  shows "kernel_mounts b v"
proof -
  have "mops (mounts v ! i) \<in> set (map (\<lambda>i. mops (mounts v ! i)) [0..<3])" if "i < 3" for i
    using that by auto
  then have ops: "mops (mounts v ! i) \<in> {Some (if c then fat_ops b name else ramfs_ops), Some dev_ops, Some proc_ops}" if "i < 3" for i
    using that unfolding assms(2) by simp
  show ?thesis
    unfolding kernel_mounts_def assms(1)
  proof (intro allI impI)
    fix i ops
    assume "i < 3" "mops (mounts v ! i) = Some ops"
    then have "ops = (if c then fat_ops b name else ramfs_ops) \<or> ops = dev_ops \<or> ops = proc_ops"
      using ops [of i] by simp
    then show "kernel_ops b ops"
      by (cases c) (auto simp: kernel_ops_def)
  qed
qed

end
