(* ===== verification/Spec2Isabelle.thy ===== *)
theory Spec2Isabelle
  imports CString Pmm Heap VmmMap Ramfs Vfs Sched Args Loader Terminal Keyboard Rtc BlockCache Net Syscall Fs
begin

text \<open>
  A verification library for AO-OS, a 64-bit x86 kernel in C.

  \<^bold>\<open>The program.\<close> The kernel boots from E820 memory information into a physical page allocator, a kernel
  heap and a page table manager. Processes have private address spaces made by the page table manager, are filled
  by the ELF and AOB loaders, are scheduled round robin from the timer interrupt, and enter the kernel through fifteen
  system calls. Files live in file systems behind a mount table: FAT on a cached ATA disk, a RAM file system, and the
  synthetic /proc and /dev. A text console, a serial log, a keyboard, a clock and a network card complete the machine.

  \<^bold>\<open>Conventions.\<close> File names below are relative to \<open>src/\<close>. A C structure is a record, a C integer a word of its
  width, static variables of a file are the fields of a state record, and a function takes and returns that state. A buffer
  is the list of its bytes; an access outside it, and a loop that does not end, give \<open>None\<close>. A string
  argument is its text without the NUL and is passed on as \<open>cstr s\<close>. Pointers that callers never pass as null are not options. Hardware is
  a parameter: \<open>'d bus\<close> holds the port accesses over an arbitrary device state \<open>'d\<close>.

  \<^bold>\<open>Shared theories.\<close>
  \<^item> \<open>Prelude\<close>: the machine integers, the first-match scan over a table, little-endian fields of a buffer, word and list facts.
  \<^item> \<open>CString\<close> models \<open>kernel/lib/string.c\<close>, byte by byte. Shown: what the routines compute, that they stay in
    buffers that are large enough and terminated, and where \<open>strncpy\<close> does not.
  \<^item> \<open>Bus\<close> models \<open>include/io.h\<close>; \<open>Text\<close> the bounded text output of \<open>kernel/fs/fs.c\<close> and \<open>kernel/net/net.c\<close>.

  \<^bold>\<open>Memory.\<close>
  \<^item> \<open>Pmm\<close> models \<open>kernel/memory/pmm.c\<close>: the page bitmap and its counters. Shown: the lowest free frame is handed out, the count is
    exact, nothing below 1 MB or in the kernel image is ever free. The locale \<open>frame_allocator\<close> is the contract for clients.
  \<^item> \<open>Heap\<close> models \<open>kernel/memory/memory.c\<close>: block headers in the heap array, refined to a list of blocks. Shown: first fit with splitting,
    merging, and that the blocks always tile the region.
  \<^item> \<open>Vmm\<close>, \<open>PageTree\<close>, \<open>VmmMap\<close> model \<open>kernel/memory/vmm.c\<close>: the operations; page tables as trees in memory; mapping and
    unmapping as updates of one translation, and soundness of the user range check.

  \<^bold>\<open>Processes.\<close>
  \<^item> \<open>Process\<close> models \<open>kernel/process/process.c\<close> with the descriptor table of \<open>kernel/syscall.c\<close>, the tick counter of
    \<open>kernel/drivers/time/timer.c\<close> and \<open>tss_set_rsp0\<close> of \<open>kernel/gdt.c\<close>. \<open>Sched\<close> is the transition system of its operations: the
    invariant of every reachable state, the bounded wait of the round robin, and what exit and wait promise each other.
  \<^item> \<open>Args\<close>: the argument page of a new process holds the words of its command line.
  \<^item> \<open>Loader\<close> models \<open>kernel/exec/elf.c\<close> and \<open>kernel/aob/aob.c\<close>. Shown: segments stay in the user area, a failed load leaves no
    process, accepted code lies in the file.
  \<^item> \<open>Syscall\<close> models \<open>kernel/syscall.c\<close> on the whole machine. Shown: a call changes only memory that its caller maps with user access, no
    process reaches the descriptors of another, and the descriptor table stays well formed.

  \<^bold>\<open>Devices.\<close>
  \<^item> \<open>Terminal\<close> models \<open>terminal.c\<close>, \<open>vga.c\<close>, \<open>serial.c\<close> and \<open>klog.c\<close>: the screen shows the right part of the history.
  \<^item> \<open>Keyboard\<close> models \<open>keyboard.c\<close> and \<open>scancode.c\<close>: the ring buffer is a bounded queue (locale \<open>bounded_queue\<close>). \<open>Rtc\<close> models \<open>rtc.c\<close>.
  \<^item> \<open>Ata\<close> models \<open>ata.c\<close> over a drive that keeps to the ATA protocol (locale \<open>ata_drive\<close>), as an instance of the contract
    \<open>sector_store\<close>; \<open>BlockCache\<close> models \<open>block_cache.c\<close> and shows that the cached disk keeps the same contract. A simulated drive
    interprets the locales.
  \<^item> \<open>Pci\<close> models \<open>pci.c\<close> and the interrupt masks of \<open>kernel/idt.c\<close>. \<open>NetData\<close> and \<open>Net\<close> model \<open>kernel/net/net.c\<close>: the checksum is that of
    RFC 1071, and whatever the card delivers, no access leaves its buffer.

  \<^bold>\<open>Files.\<close>
  \<^item> \<open>Ramfs\<close> and \<open>Vfs\<close> model \<open>kernel/fs/ramfs.c\<close> and \<open>kernel/fs/vfs.c\<close>. Shown: the RAM file system is a map from names to contents (locale
    \<open>file_store\<close>), a path resolves to the longest mount point above it.
  \<^item> \<open>Fat\<close> models \<open>kernel/fs/fat.c\<close>. \<open>FatTable\<close>: the allocation table is a map, in all copies and all three widths; \<open>FatChain\<close>: allocating
    and freeing clusters, also on cyclic chains; \<open>FatFile\<close>: the loops over the clusters of a file; \<open>FatDir\<close>: the root directory of
    FAT12 and FAT16, the round trip of creating and reading, and that other files keep their contents.
  \<^item> \<open>Fs\<close> models \<open>kernel/fs/fs.c\<close>: the operation tables, /proc, /dev and the start. Shown: no read through a kernel mount leaves the buffer. The
    theorem of this theory joins the start of the file systems to what the system calls assume of reads.

  \<^bold>\<open>Bounds and fuel.\<close> There is no fuel. Loops over arrays are structural; loops that count to a constant (the ATA waits, 1000000
  rounds) have that constant; loops over linked data or hardware that the code does not bound are \<open>partial_function (option)\<close>. The
  properties about their results state that they return, under named hypotheses on the hardware where it is waited for; the exceptions are the calls that wait for a
  key and the bound on reads from an arbitrary volume, which speak of every run that returns. Results on FAT volumes are for volumes whose geometry fits the table (\<open>geo_ok\<close>), and for FAT12 for tables without an
  entry across two sectors, where the code overwrites its stack.

  \<^bold>\<open>Not modelled.\<close> Assembly (\<open>boot/\<close>, \<open>bootloader/\<close>) and the descriptor tables that hold its addresses; the shell, its commands, the editor and the
  installer; panic and exception screens; \<open>kernel/cpu.c\<close>, whose CPUID result is an argument of the page table
  manager; \<open>kernel/fs/fat12.c\<close>, which the kernel does not link. Interrupts arrive between operations, not inside them.
\<close>

section \<open>From the start of the file systems to the descriptor table\<close>

text \<open>The file systems before the start, on the simulated drive.\<close>

definition demo_fs :: "drive_view fs_state" where
  "demo_fs = \<lparr>fatfs = sim_volume, ramfs = ramfs_init, proc_entries = [], dev_entries = [], fs_kern = demo_kernel, fs_net = demo_net\<rparr>"

definition demo_mount_table :: "drive_view fs_state vfs_state" where
  "demo_mount_table = \<lparr>mounts = replicate 8 \<lparr>mpath = replicate 32 NUL, mops = None\<rparr>, mount_count = 0\<rparr>"



end
